(* ===== verification/Hmny_Prelude.thy ===== *)
theory Hmny_Prelude
  imports Main "HOL-Library.Word"
begin

unbundle bit_operations_syntax

text \<open>
  Shared vocabulary of the development: names for the machine integers the sources use, the
  collections of simplification facts the component theories extend, the generic facts on words
  (carries, splitting a word into halves) and on lists that several components rest on, and the
  codec interface that every encoder/decoder pair of the program implements.
\<close>

section \<open>Machine integers\<close>

type_synonym u8 = "8 word"
type_synonym u16 = "16 word"
type_synonym u32 = "32 word"
type_synonym u64 = "64 word"
type_synonym u128 = "128 word"
type_synonym u512 = "512 word"

named_theorems dword_simps \<open>values of the halves of a 64-bit word\<close>
named_theorems codec_simps \<open>facts that evaluate encoders and decoders\<close>

section \<open>Words\<close>

lemma unat_lt_64 [simp]: "unat (x :: u64) < 18446744073709551616"
  using unsigned_less [of x, where 'a = nat] by simp

lemma unat_lt_128 [simp]: "unat (x :: u128) < 340282366920938463463374607431768211456"
  using unsigned_less [of x, where 'a = nat] by simp

lemma unat_lt_32 [simp]: "unat (x :: u32) < 4294967296"
  using unsigned_less [of x, where 'a = nat] by simp

lemma unat_lt_8 [simp]: "unat (x :: u8) < 256"
  using unsigned_less [of x, where 'a = nat] by simp

text \<open>An addition wraps exactly when the sum is below an operand: the test the sources use.\<close>

lemma unat_add_carry:
  fixes a b :: "'a :: len word"
  shows "unat a + unat b = unat (a + b) + (if a + b < a then 2 ^ LENGTH('a) else 0)"
proof (cases "unat a + unat b < 2 ^ LENGTH('a)")
  case True
  then have "unat (a + b) = unat a + unat b"
    by (simp add: unat_word_ariths)
  then show ?thesis
    by (simp add: word_less_nat_alt)
next
  case False
  have a: "unat a < 2 ^ LENGTH('a)" and b: "unat b < 2 ^ LENGTH('a)"
    by (rule unsigned_less)+
  have lt: "unat a + unat b - 2 ^ LENGTH('a) < 2 ^ LENGTH('a)"
    using a b by linarith
  have "(unat a + unat b) mod 2 ^ LENGTH('a) = unat a + unat b - 2 ^ LENGTH('a)"
    using False le_mod_geq [of "2 ^ LENGTH('a)" "unat a + unat b"] mod_less [OF lt] by simp
  then have s: "unat (a + b) = unat a + unat b - 2 ^ LENGTH('a)"
    by (simp add: unat_word_ariths)
  have "a + b < a"
    unfolding word_less_nat_alt s using False b by linarith
  then show ?thesis
    using False s by simp
qed

lemma add_wraps_iff:
  fixes a b :: "'a :: len word"
  shows "a + b < a \<longleftrightarrow> 2 ^ LENGTH('a) \<le> unat a + unat b"
proof -
  have lt: "unat (a + b) < 2 ^ LENGTH('a)"
    by (rule unsigned_less)
  show ?thesis
  proof (cases "a + b < a")
    case True
    then show ?thesis using unat_add_carry [of a b] by simp
  next
    case False
    then have "unat a + unat b = unat (a + b)" using unat_add_carry [of a b] by simp
    with lt have "\<not> 2 ^ LENGTH('a) \<le> unat a + unat b" by linarith
    with False show ?thesis by blast
  qed
qed

lemma unat_mult_no_overflow:
  fixes a b :: "'a :: len word"
  assumes "unat a * unat b < 2 ^ LENGTH('a)"
  shows "unat (a * b) = unat a * unat b"
  using assms by (simp add: unat_word_ariths)

lemma unat_add_no_overflow:
  fixes a b :: "'a :: len word"
  assumes "unat a + unat b < 2 ^ LENGTH('a)"
  shows "unat (a + b) = unat a + unat b"
  using assms by (simp add: unat_word_ariths)

lemma unat_diff_le:
  fixes a b :: "'a :: len word"
  assumes "unat b \<le> unat a"
  shows "unat (a - b) = unat a - unat b"
  using assms by (simp add: unat_sub_if_size)

lemma mult_lt_pow32:
  fixes x y :: nat
  assumes "x < 4294967296" and "y < 4294967296"
  shows "x * y \<le> 18446744065119617025"
proof -
  have "x \<le> 4294967295" and "y \<le> 4294967295"
    using assms by simp_all
  then have "x * y \<le> 4294967295 * 4294967295"
    by (rule mult_le_mono)
  then show ?thesis by simp
qed

lemma unat_or_push_bit:
  fixes x y :: "'a :: len word"
  assumes x: "unat x < 2 ^ k" and s: "unat y * 2 ^ k + unat x < 2 ^ LENGTH('a)"
  shows "unat (push_bit k y OR x) = unat y * 2 ^ k + unat x"
proof -
  have "take_bit k x = x"
    using x by (simp add: word_unat_eq_iff unsigned_take_bit_eq take_bit_nat_eq_self)
  then have bx: "\<not> bit x n" if "k \<le> n" for n
    using that by (metis bit_take_bit_iff not_less)
  have "push_bit k y OR x = push_bit k y + x"
    by (rule disjunctive_add_eq_or [symmetric]) (auto simp: bit_eq_iff bit_simps dest: bx)
  moreover have "unat (push_bit k y) = unat y * 2 ^ k"
  proof -
    have "take_bit LENGTH('a) (unat y * 2 ^ k) = unat y * 2 ^ k"
      using s by (intro take_bit_nat_eq_self) linarith
    then show ?thesis
      unfolding unsigned_push_bit_eq by (simp add: push_bit_eq_mult)
  qed
  ultimately show ?thesis
    using s by (simp add: unat_add_no_overflow)
qed

lemma unat_and_mask: "unat (w AND (push_bit l 1 - 1) :: 'a :: len word) = unat w mod 2 ^ l"
proof -
  have "push_bit l 1 - 1 = (mask l :: 'a word)" by (simp add: mask_eq_exp_minus_1)
  then have "w AND (push_bit l 1 - 1) = take_bit l w" by (simp add: take_bit_eq_mask)
  then have "unat (w AND (push_bit l 1 - 1)) = take_bit l (unat w)" by (simp only: unsigned_take_bit_eq)
  then show ?thesis by (simp only: take_bit_eq_mod)
qed

lemma unat_shift_one: "l < LENGTH('a) \<Longrightarrow> unat (push_bit l 1 :: 'a :: len word) = 2 ^ l"
proof -
  assume "l < LENGTH('a)"
  then have "(2 :: nat) ^ l < 2 ^ LENGTH('a)" by simp
  then have "take_bit LENGTH('a) (push_bit l (unat (1 :: 'a word))) = 2 ^ l"
    by (simp only: unsigned_1 push_bit_eq_mult mult_1 take_bit_nat_eq_self)
  then show ?thesis by (simp only: unsigned_push_bit_eq)
qed

lemma unat_ucast_le: "LENGTH('a) \<le> LENGTH('b) \<Longrightarrow> unat (ucast (w :: 'a :: len word) :: 'b :: len word) = unat w"
proof -
  assume "LENGTH('a) \<le> LENGTH('b)"
  then have "(2 :: nat) ^ LENGTH('a) \<le> 2 ^ LENGTH('b)" by simp
  then have "unat w < 2 ^ LENGTH('b)" by (rule less_le_trans [OF unsigned_less])
  then show ?thesis by (simp add: unsigned_ucast_eq take_bit_nat_eq_self)
qed

lemma unat_ucast_small: "unat (w :: 'a :: len word) < 2 ^ LENGTH('b) \<Longrightarrow> unat (ucast w :: 'b :: len word) = unat w"
  by (simp add: unsigned_ucast_eq take_bit_nat_eq_self)

lemma unat_drop_bit:
  "unat (drop_bit n (w :: 'a :: len word)) = unat w div 2 ^ n"
  unfolding unat_drop_bit_eq by (rule drop_bit_eq_div)

lemma unat_ucast_up:
  assumes "LENGTH('a) \<le> LENGTH('b)"
  shows "unat (ucast (x :: 'a :: len word) :: 'b :: len word) = unat x"
proof -
  have "unat x < 2 ^ LENGTH('a)" by (rule unsigned_less)
  also have "(2 :: nat) ^ LENGTH('a) \<le> 2 ^ LENGTH('b)"
    using assms by (simp add: power_increasing)
  finally show ?thesis
    by (simp add: unsigned_ucast_eq take_bit_nat_eq_self)
qed

lemma unat_ucast_down:
  assumes "unat (x :: 'a :: len word) < 2 ^ LENGTH('b)"
  shows "unat (ucast x :: 'b :: len word) = unat x"
  using assms by (simp add: unsigned_ucast_eq take_bit_nat_eq_self)

lemma unat_max_64 [simp]: "unat (- 1 :: u64) = 18446744073709551615"
  by (simp add: unsigned_minus_1_eq_mask mask_eq_exp_minus_1)

section \<open>The codec interface\<close>

text \<open>
  An encoder that may refuse its argument and the fallible decoder that reads its output back.
  \<open>legal\<close> are the values the encoder accepts. Decoding inverts encoding; a codec is canonical when
  in addition nothing but encodings decodes.
\<close>

locale codec =
  fixes legal :: "'a \<Rightarrow> bool"
    and enc :: "'a \<Rightarrow> 'b option"
    and dec :: "'b \<Rightarrow> 'a option"
  assumes enc_legal: "legal x \<Longrightarrow> \<exists>e. enc x = Some e"
    and dec_enc: "legal x \<Longrightarrow> enc x = Some e \<Longrightarrow> dec e = Some x"
begin

lemma roundtrip: "legal x \<Longrightarrow> Option.bind (enc x) dec = Some x"
  using enc_legal [of x] dec_enc [of x] by auto

lemma enc_inj: "legal x \<Longrightarrow> legal y \<Longrightarrow> enc x = enc y \<Longrightarrow> x = y"
  by (metis dec_enc enc_legal option.inject)

end

locale canonical_codec = codec +
  assumes dec_legal: "dec e = Some x \<Longrightarrow> legal x"
    and enc_dec: "dec e = Some x \<Longrightarrow> enc x = Some e"
begin

lemma dec_inj: "dec e = Some x \<Longrightarrow> dec e' = Some x \<Longrightarrow> e = e'"
  by (metis enc_dec option.inject)

lemma dec_eq_Some_iff: "dec e = Some x \<longleftrightarrow> legal x \<and> enc x = Some e"
proof
  assume "dec e = Some x"
  then show "legal x \<and> enc x = Some e"
    by (metis dec_legal enc_dec)
next
  assume "legal x \<and> enc x = Some e"
  then show "dec e = Some x"
    by (metis dec_enc)
qed

end

end
