(* ===== verification/Int_Util.thy ===== *)
theory Int_Util
  imports Hmny_Prelude
begin

text \<open>
  The 64- and 128-bit integer helpers of \<open>contrib/epee/include/int-util.h\<close> and
  \<open>contrib/epee/src/int-util.cpp\<close>: schoolbook multiplication into two halves, long division by
  a 32-bit and by a 64-bit divisor, and saturating addition and subtraction. Each routine is
  proved to compute the mathematical operation on the numbers its halves stand for.
\<close>

section \<open>Definitions\<close>

definition hi_dword :: "u64 \<Rightarrow> u64" where
  "hi_dword val = drop_bit 32 val"

definition lo_dword :: "u64 \<Rightarrow> u64" where
  "lo_dword val = val AND 0xFFFFFFFF"

text \<open>\<open>mul128\<close> returns the low half and stores the high half: the model returns both.\<close>

definition mul128 :: "u64 \<Rightarrow> u64 \<Rightarrow> u64 \<times> u64" where
  "mul128 multiplier multiplicand =
     (let a = hi_dword multiplier;
          b = lo_dword multiplier;
          c = hi_dword multiplicand;
          d = lo_dword multiplicand;
          ac = a * c;
          ad = a * d;
          bc = b * c;
          bd = b * d;
          adbc = ad + bc;
          adbc_carry = (if adbc < ad then 1 else 0);
          product_lo = bd + push_bit 32 adbc;
          product_lo_carry = (if product_lo < bd then 1 else 0);
          product_hi = ac + drop_bit 32 adbc + push_bit 32 adbc_carry + product_lo_carry
      in (product_lo, product_hi))"

text \<open>Division by zero traps in C; the model's value for it is \<open>None\<close>.\<close>

definition div_with_reminder :: "u64 \<Rightarrow> u32 \<Rightarrow> u32 \<Rightarrow> (u64 \<times> u32) option" where
  "div_with_reminder dividend divisor remainder =
     (if divisor = 0 then None
      else let dividend' = dividend OR push_bit 32 (ucast remainder)
           in Some (dividend' div ucast divisor, ucast (dividend' mod ucast divisor)))"

definition div128_32 :: "u64 \<Rightarrow> u64 \<Rightarrow> u32 \<Rightarrow> (u64 \<times> u64 \<times> u32) option" where
  "div128_32 dividend_hi dividend_lo divisor =
     Option.bind (div_with_reminder (hi_dword dividend_hi) divisor 0) (\<lambda>(q3, r3).
     Option.bind (div_with_reminder (lo_dword dividend_hi) divisor r3) (\<lambda>(q2, r2).
     Option.bind (div_with_reminder (hi_dword dividend_lo) divisor r2) (\<lambda>(q1, r1).
     Option.bind (div_with_reminder (lo_dword dividend_lo) divisor r1) (\<lambda>(q0, r0).
     Some (push_bit 32 q3 OR q2, push_bit 32 q1 OR q0, r0)))))"

text \<open>The quotient's and the remainder's halves; boost throws on a zero divisor.\<close>

definition div128_64 :: "u64 \<Rightarrow> u64 \<Rightarrow> u64 \<Rightarrow> ((u64 \<times> u64) \<times> (u64 \<times> u64)) option" where
  "div128_64 dividend_hi dividend_lo divisor =
     (if divisor = 0 then None
      else let dividend = push_bit 64 (ucast dividend_hi :: u128) OR ucast dividend_lo;
               q = dividend div ucast divisor;
               r = dividend mod ucast divisor
           in Some ((ucast (drop_bit 64 q AND 0xffffffffffffffff),
                     ucast (q AND 0xffffffffffffffff)),
                    (ucast (drop_bit 64 r AND 0xffffffffffffffff),
                     ucast (r AND 0xffffffffffffffff))))"

definition add64clamp :: "u64 \<Rightarrow> u64 \<Rightarrow> u64" where
  "add64clamp value add = (if value > - 1 - add then - 1 else value + add)"

definition sub64clamp :: "u64 \<Rightarrow> u64 \<Rightarrow> u64" where
  "sub64clamp value sub = (if value < sub then 0 else value - sub)"

text \<open>The number two halves stand for.\<close>

abbreviation dwords :: "u64 \<Rightarrow> u64 \<Rightarrow> nat" where
  "dwords hi lo \<equiv> unat hi * 18446744073709551616 + unat lo"

section \<open>Halves of a word\<close>

lemma unat_hi_dword [dword_simps]: "unat (hi_dword x) = unat x div 4294967296"
  by (simp add: hi_dword_def drop_bit_eq_div unat_div)

lemma unat_lo_dword [dword_simps]: "unat (lo_dword x) = unat x mod 4294967296"
proof -
  have "lo_dword x = take_bit 32 x"
    by (simp add: lo_dword_def take_bit_eq_mask mask_eq_exp_minus_1)
  then show ?thesis
    by (simp add: take_bit_eq_mod unat_mod)
qed

lemma hi_dword_lt: "unat (hi_dword x) < 4294967296"
  unfolding unat_hi_dword using unat_lt_64 [of x] by (intro less_mult_imp_div_less) simp

lemma lo_dword_lt: "unat (lo_dword x) < 4294967296"
  by (simp add: unat_lo_dword)

lemma dword_split: "unat x = unat (hi_dword x) * 4294967296 + unat (lo_dword x)"
  by (simp add: unat_hi_dword unat_lo_dword)

lemma unat_push_bit_32 [dword_simps]:
  "unat (push_bit 32 (x :: u64)) = (unat x mod 4294967296) * 4294967296"
proof -
  have "unat (push_bit 32 x) = (unat x * 4294967296) mod 18446744073709551616"
    by (simp add: push_bit_eq_mult unat_word_ariths)
  also have "\<dots> = (unat x mod 4294967296) * 4294967296"
    using mult_mod_left [of "unat x" 4294967296 4294967296] by simp
  finally show ?thesis .
qed

lemma unat_drop_bit_32 [dword_simps]:
  "unat (drop_bit 32 (x :: u64)) = unat x div 4294967296"
  by (simp add: drop_bit_eq_div unat_div)

lemma dword_mult:
  assumes "unat (x :: u64) < 4294967296" and "unat (y :: u64) < 4294967296"
  shows "unat (x * y) = unat x * unat y"
  using mult_lt_pow32 [OF assms] by (intro unat_mult_no_overflow) simp

section \<open>Multiplication\<close>

lemma mul128_hi_arith:
  fixes A B C D S L lo c1 c2 :: nat
  assumes S: "A * D + B * C = S + c1 * 18446744073709551616"
    and L: "B * D + (S mod 4294967296) * 4294967296 = lo + c2 * 18446744073709551616"
  shows "(A * C + S div 4294967296 + c1 * 4294967296 + c2) * 18446744073709551616 + lo =
    (A * 4294967296 + B) * (C * 4294967296 + D)"
proof -
  have "(A * 4294967296 + B) * (C * 4294967296 + D) =
      A * C * 18446744073709551616 + (A * D + B * C) * 4294967296 + B * D"
    by (simp add: algebra_simps)
  also have "\<dots> = A * C * 18446744073709551616 + c1 * 4294967296 * 18446744073709551616 +
      (S * 4294967296 + B * D)"
    by (simp add: S algebra_simps)
  also have "S * 4294967296 =
      S div 4294967296 * 18446744073709551616 + (S mod 4294967296) * 4294967296"
    using div_mult_mod_eq [of S 4294967296] by linarith
  finally show ?thesis
    using L by (simp add: algebra_simps)
qed

lemma high_half_lt:
  fixes x n l p :: nat
  assumes "x * n + l = p" and "p < n * n"
  shows "x < n"
proof (rule ccontr)
  assume "\<not> x < n"
  then have "n * n \<le> x * n"
    by (intro mult_le_mono) simp_all
  with assms show False by linarith
qed

lemma mul128_product:
  "dwords (snd (mul128 x y)) (fst (mul128 x y)) = unat x * unat y"
proof -
  let ?a = "hi_dword x" and ?b = "lo_dword x" and ?c = "hi_dword y" and ?d = "lo_dword y"
  let ?adbc = "?a * ?d + ?b * ?c"
  let ?c1 = "if ?adbc < ?a * ?d then 1 else 0 :: u64"
  let ?lo = "?b * ?d + push_bit 32 ?adbc"
  let ?c2 = "if ?lo < ?b * ?d then 1 else 0 :: u64"
  let ?hi = "?a * ?c + drop_bit 32 ?adbc + push_bit 32 ?c1 + ?c2"
  let ?X = "unat ?a * unat ?c + unat ?adbc div 4294967296 + unat ?c1 * 4294967296 + unat ?c2"
  note m = dword_mult [OF hi_dword_lt lo_dword_lt] dword_mult [OF lo_dword_lt hi_dword_lt]
    dword_mult [OF hi_dword_lt hi_dword_lt] dword_mult [OF lo_dword_lt lo_dword_lt]
  have S: "unat ?a * unat ?d + unat ?b * unat ?c = unat ?adbc + unat ?c1 * 18446744073709551616"
    using unat_add_carry [of "?a * ?d" "?b * ?c"] by (simp add: m)
  have L: "unat ?b * unat ?d + (unat ?adbc mod 4294967296) * 4294967296 =
      unat ?lo + unat ?c2 * 18446744073709551616"
    using unat_add_carry [of "?b * ?d" "push_bit 32 ?adbc"] by (simp add: m unat_push_bit_32)
  have X: "?X * 18446744073709551616 + unat ?lo = unat x * unat y"
    using mul128_hi_arith [OF S L] by (simp add: dword_split [symmetric])
  have "unat x * unat y < 18446744073709551616 * 18446744073709551616"
    by (intro mult_strict_mono) simp_all
  with X have "?X < 18446744073709551616"
    by (rule high_half_lt)
  moreover have "unat ?hi = ?X mod 18446744073709551616"
    by (simp add: unat_word_ariths m unat_push_bit_32 unat_drop_bit_32 mod_simps)
  ultimately have "unat ?hi = ?X" by simp
  then show ?thesis
    using X by (simp add: mul128_def Let_def)
qed

text \<open>
  The schoolbook multiplication is exact. For all operands the two halves it returns are the
  128-bit product, and the high half is zero exactly when the product fits 64 bits, the test by
  which the callers detect overflow.
\<close>

lemma mul128_correct:
  "dwords (snd (mul128 x y)) (fst (mul128 x y)) = unat x * unat y \<and>
   (snd (mul128 x y) = 0 \<longleftrightarrow> unat x * unat y < 18446744073709551616)"
proof -
  have lo: "unat (fst (mul128 x y)) < 18446744073709551616" by simp
  have "snd (mul128 x y) = 0 \<longleftrightarrow> unat (snd (mul128 x y)) = 0"
    by (simp add: unat_eq_0)
  also have "\<dots> \<longleftrightarrow> unat x * unat y < 18446744073709551616"
    using mul128_product [of x y] lo by linarith
  finally show ?thesis
    using mul128_product [of x y] by blast
qed

section \<open>Division\<close>

lemma div_with_reminder_eq:
  assumes d: "divisor \<noteq> 0" and v: "unat v < 4294967296" and r: "unat r < unat divisor"
  shows "\<exists>q r'. div_with_reminder v divisor r = Some (q, r') \<and>
    unat q = (unat r * 4294967296 + unat v) div unat divisor \<and>
    unat r' = (unat r * 4294967296 + unat v) mod unat divisor \<and>
    unat q < 4294967296 \<and> unat r' < unat divisor"
proof -
  let ?n = "unat r * 4294967296 + unat v"
  have ur: "unat (ucast r :: u64) = unat r" and ud: "unat (ucast divisor :: u64) = unat divisor"
    by (simp_all add: unat_ucast_up)
  have dpos: "0 < unat divisor"
    using d by (simp add: unat_gt_0)
  have "unat r < 4294967296" by simp
  with v have lt: "?n < 18446744073709551616" by linarith
  then have n: "unat (v OR push_bit 32 (ucast r)) = ?n"
    using unat_or_push_bit [of v 32 "ucast r"] v by (simp add: ur or.commute)
  have q: "?n div unat divisor < 4294967296"
    using r v by (intro less_mult_imp_div_less) linarith
  have m: "?n mod unat divisor < unat divisor"
    using dpos by simp
  moreover have "unat divisor < 4294967296" by simp
  ultimately have "?n mod unat divisor < 4294967296" by linarith
  then have "unat (ucast ((v OR push_bit 32 (ucast r)) mod ucast divisor :: u64) :: u32) =
      ?n mod unat divisor"
    by (subst unat_ucast_down) (simp_all only: unat_mod n ud, simp)
  moreover have "unat ((v OR push_bit 32 (ucast r)) div ucast divisor :: u64) = ?n div unat divisor"
    by (simp only: unat_div n ud)
  ultimately show ?thesis
    using d q m by (simp add: div_with_reminder_def Let_def)
qed

lemma long_div_step:
  fixes a r v d :: nat
  assumes "r = a mod d"
  shows "(a * 4294967296 + v) div d = (a div d) * 4294967296 + (r * 4294967296 + v) div d"
    and "(a * 4294967296 + v) mod d = (r * 4294967296 + v) mod d"
proof -
  have a: "a * 4294967296 + v = (r * 4294967296 + v) + (a div d) * 4294967296 * d"
  proof -
    have "a * 4294967296 = a div d * d * 4294967296 + a mod d * 4294967296"
      by (metis add_mult_distrib div_mult_mod_eq)
    then show ?thesis
      unfolding assms by simp
  qed
  show "(a * 4294967296 + v) div d = (a div d) * 4294967296 + (r * 4294967296 + v) div d"
    unfolding a by (cases "d = 0") (simp_all add: assms)
  show "(a * 4294967296 + v) mod d = (r * 4294967296 + v) mod d"
    unfolding a by simp
qed

lemma div128_32_eq:
  assumes d: "divisor \<noteq> 0"
  shows "\<exists>qh ql r. div128_32 hi lo divisor = Some (qh, ql, r) \<and>
    dwords qh ql = dwords hi lo div unat divisor \<and> unat r = dwords hi lo mod unat divisor"
proof -
  let ?d = "unat divisor"
  let ?v3 = "unat (hi_dword hi)" and ?v2 = "unat (lo_dword hi)"
  let ?v1 = "unat (hi_dword lo)" and ?v0 = "unat (lo_dword lo)"
  have z: "unat (0 :: u32) < ?d"
    using d by (simp add: unat_gt_0)
  obtain q3 r3 where 3: "div_with_reminder (hi_dword hi) divisor 0 = Some (q3, r3)"
    "unat q3 = ?v3 div ?d" "unat r3 = ?v3 mod ?d" "unat q3 < 4294967296" "unat r3 < ?d"
    using div_with_reminder_eq [OF d hi_dword_lt z, of hi] by auto
  obtain q2 r2 where 2: "div_with_reminder (lo_dword hi) divisor r3 = Some (q2, r2)"
    "unat q2 = (unat r3 * 4294967296 + ?v2) div ?d" "unat r2 = (unat r3 * 4294967296 + ?v2) mod ?d"
    "unat q2 < 4294967296" "unat r2 < ?d"
    using div_with_reminder_eq [OF d lo_dword_lt 3(5), of hi] by auto
  obtain q1 r1 where 1: "div_with_reminder (hi_dword lo) divisor r2 = Some (q1, r1)"
    "unat q1 = (unat r2 * 4294967296 + ?v1) div ?d" "unat r1 = (unat r2 * 4294967296 + ?v1) mod ?d"
    "unat q1 < 4294967296" "unat r1 < ?d"
    using div_with_reminder_eq [OF d hi_dword_lt 2(5), of lo] by auto
  obtain q0 r0 where 0: "div_with_reminder (lo_dword lo) divisor r1 = Some (q0, r0)"
    "unat q0 = (unat r1 * 4294967296 + ?v0) div ?d" "unat r0 = (unat r1 * 4294967296 + ?v0) mod ?d"
    "unat q0 < 4294967296" "unat r0 < ?d"
    using div_with_reminder_eq [OF d lo_dword_lt 1(5), of lo] by auto
  have hi: "unat hi = ?v3 * 4294967296 + ?v2" and lo: "unat lo = ?v1 * 4294967296 + ?v0"
    by (rule dword_split)+
  have h: "unat hi div ?d = unat q3 * 4294967296 + unat q2" "unat r2 = unat hi mod ?d"
    unfolding hi using long_div_step [OF 3(3), of ?v2] 2(2,3) 3(2) by simp_all
  have m: "(unat hi * 4294967296 + ?v1) div ?d = unat hi div ?d * 4294967296 + unat q1"
    "unat r1 = (unat hi * 4294967296 + ?v1) mod ?d"
    using long_div_step [OF h(2), of ?v1] 1(2,3) by simp_all
  have all: "dwords hi lo = (unat hi * 4294967296 + ?v1) * 4294967296 + ?v0"
    using lo by simp
  have l: "dwords hi lo div ?d = (unat hi div ?d * 4294967296 + unat q1) * 4294967296 + unat q0"
    "unat r0 = dwords hi lo mod ?d"
    unfolding all using long_div_step [OF m(2), of ?v0] 0(2,3) m(1) by simp_all
  have "unat (push_bit 32 q3 OR q2) = unat q3 * 4294967296 + unat q2"
    "unat (push_bit 32 q1 OR q0) = unat q1 * 4294967296 + unat q0"
    using unat_or_push_bit [of q2 32 q3] unat_or_push_bit [of q0 32 q1] 0(4) 1(4) 2(4) 3(4)
    by simp_all
  then show ?thesis
    using l h by (simp add: div128_32_def 0(1) 1(1) 2(1) 3(1) algebra_simps)
qed

lemma unat_halves_128:
  "dwords (ucast (drop_bit 64 (w :: u128) AND 0xffffffffffffffff))
     (ucast (w AND 0xffffffffffffffff)) = unat w"
proof -
  have mask: "v AND 0xffffffffffffffff = take_bit 64 v" for v :: u128
    by (simp add: take_bit_eq_mask mask_eq_exp_minus_1)
  have "unat w div 18446744073709551616 < 18446744073709551616"
    using unat_lt_128 [of w] by (intro less_mult_imp_div_less) simp
  then have "unat (ucast (take_bit 64 (drop_bit 64 w)) :: u64) = unat w div 18446744073709551616"
    by (subst unat_ucast_down) (simp_all add: unsigned_take_bit_eq unat_drop_bit_eq drop_bit_eq_div
      take_bit_eq_mod unat_div unat_mod)
  moreover have "unat (ucast (take_bit 64 w) :: u64) = unat w mod 18446744073709551616"
    by (subst unat_ucast_down) (simp_all add: unsigned_take_bit_eq take_bit_eq_mod unat_mod)
  ultimately show ?thesis
    unfolding mask by simp
qed

lemma div128_64_eq:
  assumes d: "divisor \<noteq> 0"
  shows "\<exists>qh ql rh rl. div128_64 hi lo divisor = Some ((qh, ql), (rh, rl)) \<and>
    dwords qh ql = dwords hi lo div unat divisor \<and> dwords rh rl = dwords hi lo mod unat divisor"
proof -
  let ?n = "push_bit 64 (ucast hi :: u128) OR ucast lo"
  have u: "unat (ucast hi :: u128) = unat hi" "unat (ucast lo :: u128) = unat lo"
    "unat (ucast divisor :: u128) = unat divisor"
    by (simp_all add: unat_ucast_up)
  have "unat hi < 18446744073709551616" "unat lo < 18446744073709551616" by simp_all
  then have "dwords hi lo < 340282366920938463463374607431768211456" by linarith
  then have n: "unat ?n = dwords hi lo"
    using unat_or_push_bit [of "ucast lo :: u128" 64 "ucast hi"] by (simp add: u)
  have "unat (?n div ucast divisor) = dwords hi lo div unat divisor"
    and "unat (?n mod ucast divisor) = dwords hi lo mod unat divisor"
    by (simp_all only: unat_div unat_mod n u)
  then show ?thesis
    using d by (simp add: div128_64_def Let_def unat_halves_128)
qed

lemma dwords_inj: "dwords a b = dwords c d \<Longrightarrow> a = c \<and> b = d"
proof -
  assume e: "dwords a b = dwords c d"
  have b: "unat b < 18446744073709551616" and d: "unat d < 18446744073709551616" by simp_all
  from e b d have "unat a = unat c" by linarith
  with e have "unat b = unat d" by linarith
  with \<open>unat a = unat c\<close> show ?thesis by (simp add: word_unat_eq_iff)
qed


section \<open>Saturating arithmetic\<close>

lemma unat_add64clamp: "unat (add64clamp v a) = min (unat v + unat a) 18446744073709551615"
proof -
  have a: "unat a \<le> 18446744073709551615"
    using unat_lt_64 [of a] by linarith
  then have m: "unat (- 1 - a) = 18446744073709551615 - unat a"
    by (subst unat_diff_le) simp_all
  show ?thesis
  proof (cases "v > - 1 - a")
    case True
    then have "18446744073709551615 < unat v + unat a"
      unfolding word_less_nat_alt m using a by linarith
    then show ?thesis
      using True by (simp add: add64clamp_def)
  next
    case False
    then have "unat v + unat a \<le> 18446744073709551615"
      unfolding word_less_nat_alt m using a by linarith
    then show ?thesis
      using False by (simp add: add64clamp_def unat_add_no_overflow)
  qed
qed

lemma unat_sub64clamp: "unat (sub64clamp v s) = unat v - unat s"
  by (simp add: sub64clamp_def word_less_nat_alt unat_diff_le)

end
