(* ===== verification/Config.thy ===== *)
theory Config
  imports Hmny_Prelude
begin

text \<open>
  The consensus constants of \<open>cryptonote_config.h\<close> and the per-network table
  \<open>get_config\<close>. Constants keep the names and the types of the header; \<open>config_defs\<close> collects
  their defining equations.
\<close>

section \<open>Consensus constants\<close>

named_theorems config_defs \<open>defining equations of the constants of cryptonote_config.h\<close>

definition CRYPTONOTE_MAX_BLOCK_NUMBER :: u64 where
  [config_defs]: "CRYPTONOTE_MAX_BLOCK_NUMBER = 500000000"

definition MONEY_SUPPLY :: u64 where
  [config_defs]: "MONEY_SUPPLY = - 1"

definition EMISSION_SPEED_FACTOR_PER_MINUTE :: int where
  [config_defs]: "EMISSION_SPEED_FACTOR_PER_MINUTE = 20"

definition FINAL_SUBSIDY_PER_MINUTE :: u64 where
  [config_defs]: "FINAL_SUBSIDY_PER_MINUTE = 300000000000"

definition CRYPTONOTE_BLOCK_GRANTED_FULL_REWARD_ZONE_V1 :: u64 where
  [config_defs]: "CRYPTONOTE_BLOCK_GRANTED_FULL_REWARD_ZONE_V1 = 20000"

definition CRYPTONOTE_BLOCK_GRANTED_FULL_REWARD_ZONE_V2 :: u64 where
  [config_defs]: "CRYPTONOTE_BLOCK_GRANTED_FULL_REWARD_ZONE_V2 = 60000"

definition CRYPTONOTE_BLOCK_GRANTED_FULL_REWARD_ZONE_V5 :: u64 where
  [config_defs]: "CRYPTONOTE_BLOCK_GRANTED_FULL_REWARD_ZONE_V5 = 300000"

definition COIN :: u64 where
  [config_defs]: "COIN = 1000000000000"

definition DYNAMIC_FEE_REFERENCE_TRANSACTION_WEIGHT :: u64 where
  [config_defs]: "DYNAMIC_FEE_REFERENCE_TRANSACTION_WEIGHT = 3000"

definition DIFFICULTY_TARGET_V2 :: int where
  [config_defs]: "DIFFICULTY_TARGET_V2 = 120"

definition DIFFICULTY_TARGET_V1 :: int where
  [config_defs]: "DIFFICULTY_TARGET_V1 = 60"

definition DIFFICULTY_WINDOW :: nat where
  [config_defs]: "DIFFICULTY_WINDOW = 720"

definition DIFFICULTY_CUT :: nat where
  [config_defs]: "DIFFICULTY_CUT = 60"

definition CRYPTONOTE_PRUNING_STRIPE_SIZE :: u64 where
  [config_defs]: "CRYPTONOTE_PRUNING_STRIPE_SIZE = 4096"

definition CRYPTONOTE_PRUNING_LOG_STRIPES :: u64 where
  [config_defs]: "CRYPTONOTE_PRUNING_LOG_STRIPES = 3"

definition CRYPTONOTE_PRUNING_TIP_BLOCKS :: u64 where
  [config_defs]: "CRYPTONOTE_PRUNING_TIP_BLOCKS = 5500"

definition CRYPTONOTE_MINED_MONEY_UNLOCK_WINDOW :: u64 where
  [config_defs]: "CRYPTONOTE_MINED_MONEY_UNLOCK_WINDOW = 60"

definition CRYPTONOTE_BLOCK_FUTURE_TIME_LIMIT :: u64 where
  [config_defs]: "CRYPTONOTE_BLOCK_FUTURE_TIME_LIMIT = 60 * 60 * 2"

definition BLOCKCHAIN_TIMESTAMP_CHECK_WINDOW :: nat where
  [config_defs]: "BLOCKCHAIN_TIMESTAMP_CHECK_WINDOW = 60"

definition CRYPTONOTE_REWARD_BLOCKS_WINDOW :: nat where
  [config_defs]: "CRYPTONOTE_REWARD_BLOCKS_WINDOW = 100"

definition CRYPTONOTE_LONG_TERM_BLOCK_WEIGHT_WINDOW_SIZE :: nat where
  [config_defs]: "CRYPTONOTE_LONG_TERM_BLOCK_WEIGHT_WINDOW_SIZE = 100000"

definition CRYPTONOTE_SHORT_TERM_BLOCK_WEIGHT_SURGE_FACTOR :: u64 where
  [config_defs]: "CRYPTONOTE_SHORT_TERM_BLOCK_WEIGHT_SURGE_FACTOR = 50"

definition DIFFICULTY_LAG :: nat where
  [config_defs]: "DIFFICULTY_LAG = 15"

definition DIFFICULTY_BLOCKS_COUNT :: nat where
  [config_defs]: "DIFFICULTY_BLOCKS_COUNT = DIFFICULTY_WINDOW + DIFFICULTY_LAG"

definition CRYPTONOTE_LOCKED_TX_ALLOWED_DELTA_BLOCKS :: u64 where
  [config_defs]: "CRYPTONOTE_LOCKED_TX_ALLOWED_DELTA_BLOCKS = 1"

definition CRYPTONOTE_LOCKED_TX_ALLOWED_DELTA_SECONDS_V1 :: u64 where
  [config_defs]: "CRYPTONOTE_LOCKED_TX_ALLOWED_DELTA_SECONDS_V1 = word_of_int DIFFICULTY_TARGET_V1 * CRYPTONOTE_LOCKED_TX_ALLOWED_DELTA_BLOCKS"

definition CRYPTONOTE_LOCKED_TX_ALLOWED_DELTA_SECONDS_V2 :: u64 where
  [config_defs]: "CRYPTONOTE_LOCKED_TX_ALLOWED_DELTA_SECONDS_V2 = word_of_int DIFFICULTY_TARGET_V2 * CRYPTONOTE_LOCKED_TX_ALLOWED_DELTA_BLOCKS"

definition HF_VERSION_LONG_TERM_BLOCK_WEIGHT :: u8 where
  [config_defs]: "HF_VERSION_LONG_TERM_BLOCK_WEIGHT = 10"

definition HF_VERSION_MIN_V2_COINBASE_TX :: u8 where
  [config_defs]: "HF_VERSION_MIN_V2_COINBASE_TX = 12"

definition HF_VERSION_REJECT_SIGS_IN_COINBASE :: u8 where
  [config_defs]: "HF_VERSION_REJECT_SIGS_IN_COINBASE = 12"

definition HF_VERSION_EFFECTIVE_SHORT_TERM_MEDIAN_IN_PENALTY :: u8 where
  [config_defs]: "HF_VERSION_EFFECTIVE_SHORT_TERM_MEDIAN_IN_PENALTY = 12"

definition HF_VERSION_EXACT_COINBASE :: u8 where
  [config_defs]: "HF_VERSION_EXACT_COINBASE = 13"

definition HF_VERSION_DETERMINISTIC_UNLOCK_TIME :: u8 where
  [config_defs]: "HF_VERSION_DETERMINISTIC_UNLOCK_TIME = 13"

definition HF_VERSION_VIEW_TAGS :: u8 where
  [config_defs]: "HF_VERSION_VIEW_TAGS = 15"

definition HF_VERSION_2021_SCALING :: u8 where
  [config_defs]: "HF_VERSION_2021_SCALING = 15"

definition PER_KB_FEE_QUANTIZATION_DECIMALS :: nat where
  [config_defs]: "PER_KB_FEE_QUANTIZATION_DECIMALS = 8"

definition CRYPTONOTE_SCALING_2021_FEE_ROUNDING_PLACES :: u32 where
  [config_defs]: "CRYPTONOTE_SCALING_2021_FEE_ROUNDING_PLACES = 2"

section \<open>Networks\<close>

datatype network_type = MAINNET | TESTNET | STAGENET | FAKECHAIN | UNDEFINED

datatype config_error = Invalid_network_type

record config_t =
  CRYPTONOTE_PUBLIC_ADDRESS_BASE58_PREFIX :: u64
  CRYPTONOTE_PUBLIC_INTEGRATED_ADDRESS_BASE58_PREFIX :: u64
  CRYPTONOTE_PUBLIC_SUBADDRESS_BASE58_PREFIX :: u64
  P2P_DEFAULT_PORT :: u16
  RPC_DEFAULT_PORT :: u16
  ZMQ_RPC_DEFAULT_PORT :: u16
  NETWORK_ID :: "u8 list"
  GENESIS_TX :: string
  GENESIS_NONCE :: u32

text \<open>The three networks share one genesis transaction, given as hex digits.\<close>

definition genesis_tx_hex :: string where
  "genesis_tx_hex =
     ''013c01ff0001ffffffffffff0302df5d56da0c7d643ddd1ce61901c7bdc5fb1738bfe39fbe69c28a'' @
     ''3a7032729c0f2101168d0c4ca86fb55a4cf6a36d31431be1c53a3bd7411bb24e8832410289fa6f3b''"

definition config_mainnet :: config_t where
  "config_mainnet =
     \<lparr>CRYPTONOTE_PUBLIC_ADDRESS_BASE58_PREFIX = 48,
      CRYPTONOTE_PUBLIC_INTEGRATED_ADDRESS_BASE58_PREFIX = 49,
      CRYPTONOTE_PUBLIC_SUBADDRESS_BASE58_PREFIX = 50,
      P2P_DEFAULT_PORT = 28080, RPC_DEFAULT_PORT = 28081, ZMQ_RPC_DEFAULT_PORT = 28082,
      NETWORK_ID = [0x48, 0x4d, 0x4e, 0x59, 0x01, 0x00, 0x00, 0x00,
                    0x00, 0x00, 0x00, 0x00, 0x00, 0x00, 0x00, 0x01],
      GENESIS_TX = genesis_tx_hex, GENESIS_NONCE = 424242\<rparr>"

definition config_testnet :: config_t where
  "config_testnet =
     \<lparr>CRYPTONOTE_PUBLIC_ADDRESS_BASE58_PREFIX = 53,
      CRYPTONOTE_PUBLIC_INTEGRATED_ADDRESS_BASE58_PREFIX = 54,
      CRYPTONOTE_PUBLIC_SUBADDRESS_BASE58_PREFIX = 63,
      P2P_DEFAULT_PORT = 48080, RPC_DEFAULT_PORT = 48081, ZMQ_RPC_DEFAULT_PORT = 48082,
      NETWORK_ID = [0x48, 0x4d, 0x4e, 0x59, 0x01, 0x00, 0x00, 0x00,
                    0x00, 0x00, 0x00, 0x00, 0x00, 0x00, 0x00, 0x02],
      GENESIS_TX = genesis_tx_hex, GENESIS_NONCE = 10001\<rparr>"

definition config_stagenet :: config_t where
  "config_stagenet =
     \<lparr>CRYPTONOTE_PUBLIC_ADDRESS_BASE58_PREFIX = 24,
      CRYPTONOTE_PUBLIC_INTEGRATED_ADDRESS_BASE58_PREFIX = 25,
      CRYPTONOTE_PUBLIC_SUBADDRESS_BASE58_PREFIX = 36,
      P2P_DEFAULT_PORT = 38080, RPC_DEFAULT_PORT = 38081, ZMQ_RPC_DEFAULT_PORT = 38082,
      NETWORK_ID = [0x12, 0x30, 0xF1, 0x71, 0x61, 0x04, 0x41, 0x61,
                    0x17, 0x31, 0x00, 0x82, 0x16, 0xA1, 0xA1, 0x12],
      GENESIS_TX = genesis_tx_hex, GENESIS_NONCE = 10002\<rparr>"

fun get_config :: "network_type \<Rightarrow> config_error + config_t" where
  "get_config MAINNET = Inr config_mainnet"
| "get_config TESTNET = Inr config_testnet"
| "get_config STAGENET = Inr config_stagenet"
| "get_config FAKECHAIN = Inr config_mainnet"
| "get_config UNDEFINED = Inl Invalid_network_type"

end
