(* ===== verification/Emission.thy ===== *)
theory Emission
  imports Int_Util Config
begin

text \<open>
  The coin emission rule: \<open>get_min_block_weight\<close> and \<open>get_block_reward\<close> of
  \<open>cryptonote_basic_impl.cpp\<close>, and the bookkeeping of generated coins of
  \<open>Blockchain::handle_block_to_main_chain\<close>. The theorems give the reward in closed form on every
  branch (full reward, weight penalty, refused block) and describe the emission curve: it never
  rises as coins are generated, never falls below the tail subsidy, and the coin counter saturates
  instead of wrapping.
\<close>

section \<open>Definitions\<close>

definition get_min_block_weight :: "u8 \<Rightarrow> u64" where
  "get_min_block_weight version =
     (if version < 2 then CRYPTONOTE_BLOCK_GRANTED_FULL_REWARD_ZONE_V1
      else if version < 5 then CRYPTONOTE_BLOCK_GRANTED_FULL_REWARD_ZONE_V2
      else CRYPTONOTE_BLOCK_GRANTED_FULL_REWARD_ZONE_V5)"

text \<open>The subsidy before the weight penalty: the first statements of \<open>get_block_reward\<close>.\<close>

definition base_block_reward :: "u64 \<Rightarrow> u8 \<Rightarrow> u64" where
  "base_block_reward already_generated_coins version =
     (let target = (if version < 2 then DIFFICULTY_TARGET_V1 else DIFFICULTY_TARGET_V2);
          target_minutes = target div 60;
          emission_speed_factor = EMISSION_SPEED_FACTOR_PER_MINUTE - (target_minutes - 1);
          base_reward = drop_bit (nat emission_speed_factor) (MONEY_SUPPLY - already_generated_coins)
      in if base_reward < FINAL_SUBSIDY_PER_MINUTE * word_of_int target_minutes
         then FINAL_SUBSIDY_PER_MINUTE * word_of_int target_minutes
         else base_reward)"

text \<open>
  The reward, or \<open>None\<close> where the code reports a block that is too big. Both divisions are by the
  median, which the full reward zone keeps positive.
\<close>

definition get_block_reward :: "u64 \<Rightarrow> u64 \<Rightarrow> u64 \<Rightarrow> u8 \<Rightarrow> u64 option" where
  "get_block_reward median_weight current_block_weight already_generated_coins version =
     (let base_reward = base_block_reward already_generated_coins version;
          full_reward_zone = get_min_block_weight version;
          median_weight' = (if median_weight < full_reward_zone then full_reward_zone
                            else median_weight)
      in if current_block_weight \<le> median_weight' then Some base_reward
         else if current_block_weight > 2 * median_weight' then None
         else let multiplicand = (2 * median_weight' - current_block_weight) * current_block_weight;
                  product = mul128 base_reward multiplicand
              in Option.bind (div128_64 (snd product) (fst product) median_weight')
                   (\<lambda>((reward_hi, reward_lo), _).
                 Option.bind (div128_64 reward_hi reward_lo median_weight')
                   (\<lambda>((reward_hi', reward_lo'), _). Some reward_lo')))"

text \<open>The coin counter after a block, capped at the supply constant.\<close>

definition update_already_generated_coins :: "u64 \<Rightarrow> u64 \<Rightarrow> u64" where
  "update_already_generated_coins already_generated_coins base_reward =
     (if base_reward < MONEY_SUPPLY - already_generated_coins
      then already_generated_coins + base_reward else MONEY_SUPPLY)"

text \<open>The counter after a run of blocks that each take the full subsidy.\<close>

fun emission_run :: "u8 \<Rightarrow> nat \<Rightarrow> u64 \<Rightarrow> u64" where
  "emission_run version 0 coins = coins"
| "emission_run version (Suc n) coins =
     emission_run version n
       (update_already_generated_coins coins (base_block_reward coins version))"

text \<open>The floor of the subsidy and the speed of its decay, per rule version.\<close>

definition tail_subsidy :: "u8 \<Rightarrow> nat" where
  "tail_subsidy version = (if version < 2 then 300000000000 else 600000000000)"

definition emission_shift :: "u8 \<Rightarrow> nat" where
  "emission_shift version = (if version < 2 then 20 else 19)"

section \<open>The subsidy\<close>

lemma unat_supply_left:
  "unat (MONEY_SUPPLY - coins) = 18446744073709551615 - unat coins"
proof -
  have "unat coins \<le> unat (- 1 :: u64)"
    using unat_lt_64 [of coins] by (simp only: unat_max_64)
  then have "unat (- 1 - coins) = unat (- 1 :: u64) - unat coins"
    by (rule unat_diff_le)
  then show ?thesis
    by (simp only: MONEY_SUPPLY_def unat_max_64)
qed

lemma unat_base_block_reward:
  "unat (base_block_reward coins version) =
     max (tail_subsidy version)
       ((18446744073709551615 - unat coins) div 2 ^ emission_shift version)"
proof (cases "version < 2")
  case True
  then have "base_block_reward coins version =
      (if drop_bit 20 (MONEY_SUPPLY - coins) < 300000000000 then 300000000000
       else drop_bit 20 (MONEY_SUPPLY - coins))"
    by (simp add: base_block_reward_def Let_def DIFFICULTY_TARGET_V1_def
        EMISSION_SPEED_FACTOR_PER_MINUTE_def FINAL_SUBSIDY_PER_MINUTE_def)
  moreover have "unat (drop_bit 20 (MONEY_SUPPLY - coins)) =
      (18446744073709551615 - unat coins) div 2 ^ 20"
    by (simp only: unat_drop_bit unat_supply_left)
  ultimately show ?thesis
    using True by (simp add: tail_subsidy_def emission_shift_def word_less_nat_alt)
next
  case False
  then have "base_block_reward coins version =
      (if drop_bit 19 (MONEY_SUPPLY - coins) < 600000000000 then 600000000000
       else drop_bit 19 (MONEY_SUPPLY - coins))"
    by (simp add: base_block_reward_def Let_def DIFFICULTY_TARGET_V2_def
        EMISSION_SPEED_FACTOR_PER_MINUTE_def FINAL_SUBSIDY_PER_MINUTE_def)
  moreover have "unat (drop_bit 19 (MONEY_SUPPLY - coins)) =
      (18446744073709551615 - unat coins) div 2 ^ 19"
    by (simp only: unat_drop_bit unat_supply_left)
  ultimately show ?thesis
    using False by (simp add: tail_subsidy_def emission_shift_def word_less_nat_alt)
qed

lemma tail_subsidy_le_base: "tail_subsidy version \<le> unat (base_block_reward coins version)"
  by (simp add: unat_base_block_reward)

lemma tail_subsidy_pos: "0 < tail_subsidy version"
  by (simp add: tail_subsidy_def)

section \<open>The weight penalty\<close>

text \<open>The median the penalty is measured against.\<close>

abbreviation effective_median :: "u64 \<Rightarrow> u8 \<Rightarrow> nat" where
  "effective_median median_weight version \<equiv>
     max (unat median_weight) (unat (get_min_block_weight version))"

lemma min_block_weight_pos: "0 < unat (get_min_block_weight version)"
  by (simp add: get_min_block_weight_def config_defs)

lemma penalty_product:
  fixes M C :: nat
  assumes "M \<le> C" and "C \<le> 2 * M"
  shows "(2 * M - C) * C = M\<^sup>2 - (C - M)\<^sup>2"
proof -
  obtain k where C: "C = M + k" using assms(1) le_Suc_ex by blast
  with assms(2) obtain j where M: "M = k + j" using le_Suc_ex [of k M] by auto
  show ?thesis
    by (simp add: C M power2_eq_square algebra_simps)
qed

lemma div128_64_twice:
  assumes d: "d \<noteq> 0" and small: "dwords hi lo div (unat d * unat d) < 18446744073709551616"
  shows "\<exists>r. Option.bind (div128_64 hi lo d) (\<lambda>((qh, ql), _).
      Option.bind (div128_64 qh ql d) (\<lambda>((rh, rl), _). Some rl)) = Some r \<and>
    unat r = dwords hi lo div (unat d * unat d)"
proof -
  obtain qh ql rh rl where 1: "div128_64 hi lo d = Some ((qh, ql), (rh, rl))"
    and q: "dwords qh ql = dwords hi lo div unat d"
    using div128_64_eq [OF d] by blast
  obtain qh' ql' rh' rl' where 2: "div128_64 qh ql d = Some ((qh', ql'), (rh', rl'))"
    and q': "dwords qh' ql' = dwords qh ql div unat d"
    using div128_64_eq [OF d] by blast
  have e: "dwords qh' ql' = dwords hi lo div (unat d * unat d)"
    unfolding q' q by (simp only: div_mult2_eq)
  with small have "unat qh' < 1" by linarith
  with e have "unat ql' = dwords hi lo div (unat d * unat d)" by simp
  then show ?thesis by (simp add: 1 2)
qed

lemma penalised_reward:
  fixes base m c :: u64
  assumes b: "0 < unat base" and m: "unat m < 4294967296" and lt: "unat m < unat c"
    and le: "unat c \<le> 2 * unat m"
  shows "\<exists>r. Option.bind (div128_64 (snd (mul128 base ((2 * m - c) * c)))
        (fst (mul128 base ((2 * m - c) * c))) m) (\<lambda>((qh, ql), _).
      Option.bind (div128_64 qh ql m) (\<lambda>((rh, rl), _). Some rl)) = Some r \<and>
    unat r = unat base * ((unat m)\<^sup>2 - (unat c - unat m)\<^sup>2) div (unat m)\<^sup>2 \<and> unat r < unat base"
proof -
  let ?X = "(unat m)\<^sup>2 - (unat c - unat m)\<^sup>2"
  have mpos: "0 < unat m" using lt le by linarith
  then have m0: "m \<noteq> 0" by (metis unat_0 less_numeral_extra(3))
  have "unat (2 * m) = 2 * unat m"
    using m by (subst unat_mult_no_overflow) simp_all
  then have d: "unat (2 * m - c) = 2 * unat m - unat c"
    using le by (simp add: unat_diff_le)
  have X: "(2 * unat m - unat c) * unat c = ?X"
    using lt le by (intro penalty_product) simp_all
  have "unat m * unat m \<le> 18446744065119617025"
    by (rule mult_lt_pow32 [OF m m])
  then have "?X < 18446744073709551616"
    by (simp add: power2_eq_square)
  then have mul: "unat ((2 * m - c) * c) = ?X"
    using X by (subst unat_mult_no_overflow) (simp_all add: d)
  then have p: "dwords (snd (mul128 base ((2 * m - c) * c))) (fst (mul128 base ((2 * m - c) * c))) =
      unat base * ?X"
    by (simp only: mul128_product)
  have "0 < (unat c - unat m)\<^sup>2" and "0 < (unat m)\<^sup>2" using lt mpos by simp_all
  then have "?X < (unat m)\<^sup>2" by simp
  then have "unat base * ?X < unat base * (unat m)\<^sup>2" using b by simp
  then have q: "unat base * ?X div (unat m)\<^sup>2 < unat base"
    by (simp add: less_mult_imp_div_less)
  moreover have "unat base < 18446744073709551616" by simp
  ultimately have "unat base * ?X div (unat m * unat m) < 18446744073709551616"
    by (simp only: power2_eq_square)
  then have "dwords (snd (mul128 base ((2 * m - c) * c))) (fst (mul128 base ((2 * m - c) * c)))
      div (unat m * unat m) < 18446744073709551616"
    by (simp only: p)
  from div128_64_twice [OF m0 this] obtain r where r: "Option.bind
        (div128_64 (snd (mul128 base ((2 * m - c) * c))) (fst (mul128 base ((2 * m - c) * c))) m)
        (\<lambda>((qh, ql), _). Option.bind (div128_64 qh ql m) (\<lambda>((rh, rl), _). Some rl)) = Some r"
      and u: "unat r = unat base * ?X div (unat m * unat m)"
    unfolding p by blast
  have "unat r = unat base * ?X div (unat m)\<^sup>2"
    unfolding u by (simp only: power2_eq_square)
  with r q show ?thesis by simp
qed

lemma get_block_reward_cases:
  assumes M: "M = effective_median median_weight version" and small: "M < 4294967296"
  shows "if unat weight \<le> M
    then get_block_reward median_weight weight coins version = Some (base_block_reward coins version)
    else if unat weight \<le> 2 * M
    then \<exists>r. get_block_reward median_weight weight coins version = Some r \<and>
      unat r = unat (base_block_reward coins version) * (M\<^sup>2 - (unat weight - M)\<^sup>2) div M\<^sup>2 \<and>
      unat r < unat (base_block_reward coins version)
    else get_block_reward median_weight weight coins version = None"
proof -
  define m where "m = (if median_weight < get_min_block_weight version
    then get_min_block_weight version else median_weight)"
  have m: "unat m = M"
    by (simp add: m_def M word_less_nat_alt)
  have m2: "unat (2 * m) = 2 * M"
    using small by (subst unat_mult_no_overflow) (simp_all add: m)
  have b: "0 < unat (base_block_reward coins version)"
    using tail_subsidy_le_base [of version coins] tail_subsidy_pos [of version] by linarith
  note gbr = get_block_reward_def [of median_weight weight coins version, unfolded Let_def,
      folded m_def, unfolded word_le_nat_alt word_less_nat_alt m2 m]
  consider (full) "unat weight \<le> M" | (penalty) "M < unat weight" "unat weight \<le> 2 * M"
    | (refused) "\<not> unat weight \<le> M" "2 * M < unat weight"
    by linarith
  then show ?thesis
  proof cases
    case full
    then show ?thesis unfolding gbr by simp
  next
    case penalty
    then have "\<not> unat weight \<le> M" "\<not> 2 * M < unat weight" by simp_all
    with penalised_reward [OF b, of m weight, unfolded m, OF small penalty] penalty show ?thesis
      unfolding gbr by simp
  next
    case refused
    then show ?thesis unfolding gbr by simp
  qed
qed

text \<open>
  C8: the block reward on every branch, for medians below \<open>2 ^ 32\<close> bytes. A block up to the effective
  median earns the subsidy, one up to twice the median earns the subsidy reduced by the square of
  its relative excess, rounded down, and a bigger block is refused.
\<close>

theorem get_block_reward_closed_form:
  assumes small: "effective_median median_weight version < 4294967296"
  shows "if unat weight \<le> effective_median median_weight version
    then get_block_reward median_weight weight coins version = Some (base_block_reward coins version)
    else if unat weight \<le> 2 * effective_median median_weight version
    then \<exists>r. get_block_reward median_weight weight coins version = Some r \<and>
      unat r = unat (base_block_reward coins version) *
        ((effective_median median_weight version)\<^sup>2 -
         (unat weight - effective_median median_weight version)\<^sup>2)
        div (effective_median median_weight version)\<^sup>2 \<and>
      unat r < unat (base_block_reward coins version)
    else get_block_reward median_weight weight coins version = None"
  using get_block_reward_cases [OF refl small] .

theorem get_block_reward_closed_form_witness:
  "effective_median 300000 16 < 4294967296 \<and>
   (\<exists>r. get_block_reward 300000 450000 0 16 = Some r \<and> unat r = 26388279066623)"
proof -
  have min: "unat (get_min_block_weight 16) = 300000"
    by (simp add: get_min_block_weight_def config_defs)
  have base: "unat (base_block_reward 0 16) = 35184372088831"
    by (simp add: unat_base_block_reward tail_subsidy_def emission_shift_def)
  have small: "effective_median 300000 16 < 4294967296"
    by (simp add: min)
  then show ?thesis
    using get_block_reward_closed_form [of 300000 16 450000 0, OF small] by (auto simp: min base)
qed

section \<open>The emission curve\<close>

lemma unat_update_already_generated_coins:
  "unat (update_already_generated_coins coins reward) =
     min (unat coins + unat reward) 18446744073709551615"
proof (cases "reward < MONEY_SUPPLY - coins")
  case True
  then have "unat reward < 18446744073709551615 - unat coins"
    by (simp only: word_less_nat_alt unat_supply_left)
  then show ?thesis
    using True by (simp add: update_already_generated_coins_def unat_add_no_overflow)
next
  case False
  then have "18446744073709551615 - unat coins \<le> unat reward"
    by (simp only: word_less_nat_alt unat_supply_left not_less)
  then show ?thesis
    using False by (simp add: update_already_generated_coins_def MONEY_SUPPLY_def)
qed

lemma base_block_reward_antimono:
  assumes "unat coins \<le> unat coins'"
  shows "unat (base_block_reward coins' version) \<le> unat (base_block_reward coins version)"
proof -
  have "(18446744073709551615 - unat coins') div 2 ^ emission_shift version \<le>
      (18446744073709551615 - unat coins) div 2 ^ emission_shift version"
    using assms by (intro div_le_mono) simp
  then show ?thesis
    unfolding unat_base_block_reward by (intro max.mono) simp_all
qed

lemma emission_run_ge: "unat coins \<le> unat (emission_run version n coins)"
proof (induction n arbitrary: coins)
  case 0
  then show ?case by simp
next
  case (Suc n)
  let ?c = "update_already_generated_coins coins (base_block_reward coins version)"
  have "unat coins \<le> 18446744073709551615"
    using unat_lt_64 [of coins] by linarith
  then have "unat coins \<le> unat ?c"
    unfolding unat_update_already_generated_coins by simp
  also have "\<dots> \<le> unat (emission_run version n ?c)" by (rule Suc.IH)
  finally show ?case by simp
qed

lemma saturating_bounds_step:
  fixes c c' b b' t n e k :: nat
  assumes c': "c' = min (c + b) k" and t: "t \<le> b" and b': "n * b' \<le> n * b"
    and e: "min (c' + n * t) k \<le> e \<and> e \<le> min (c' + n * b') k"
  shows "min (c + Suc n * t) k \<le> e \<and> e \<le> min (c + Suc n * b) k"
proof
  have "min (c + Suc n * t) k \<le> min (c' + n * t) k"
    unfolding c' mult_Suc using t by linarith
  with e show "min (c + Suc n * t) k \<le> e" by linarith
  have "min (c' + n * b') k \<le> min (c + Suc n * b) k"
    unfolding c' mult_Suc using b' by linarith
  with e show "e \<le> min (c + Suc n * b) k" by linarith
qed

text \<open>
  The emission curve. As blocks take the full subsidy the subsidy never rises and never
  falls below the tail subsidy.
\<close>

lemma emission_curve_decays:
  "unat (base_block_reward (emission_run version n coins) version)
     \<le> unat (base_block_reward coins version) \<and>
   tail_subsidy version \<le> unat (base_block_reward (emission_run version n coins) version)"
  using base_block_reward_antimono [OF emission_run_ge] tail_subsidy_le_base by blast


text \<open>
  The first subsidies. With no coins generated, rule version 1, which the schedule puts at
  height 1, pays 17592186044415 atomic units, and the two-minute versions from 2 on pay
  35184372088831; with the supply exhausted they pay 0.3 and 0.6 coins.
\<close>

lemma first_and_last_subsidies:
  "unat (base_block_reward 0 1) = 17592186044415 \<and>
   unat (base_block_reward 0 2) = 35184372088831 \<and>
   10 * unat (base_block_reward MONEY_SUPPLY 1) = 3 * unat COIN \<and>
   10 * unat (base_block_reward MONEY_SUPPLY 16) = 6 * unat COIN"
  by (simp add: unat_base_block_reward tail_subsidy_def emission_shift_def MONEY_SUPPLY_def COIN_def)

end
