(* ===== verification/Difficulty.thy ===== *)
theory Difficulty
  imports Int_Util Config "HOL-Library.Multiset"
begin

text \<open>
  Proof-of-work difficulty: \<open>cryptonote_basic/difficulty.cpp\<close>. The hash check in 64-bit words with
  explicit carries and its 512-bit counterpart are both proved to decide \<open>hash * difficulty < 2 ^ 256\<close>;
  the retargeting rule is given in closed form, with the safety of its index arithmetic, its
  insensitivity to the order of the timestamps, and the agreement of its two implementations.
\<close>

section \<open>Definitions\<close>

type_synonym hash = "u8 list"

text \<open>\<open>((const uint64_t *) &hash)[i]\<close> through \<open>swap64le\<close>: eight bytes, least significant first.\<close>

fun le_word :: "u8 list \<Rightarrow> u64" where
  "le_word [] = 0"
| "le_word (b # bs) = ucast b + 256 * le_word bs"

definition hash_word :: "hash \<Rightarrow> nat \<Rightarrow> u64" where
  "hash_word h i = le_word (take 8 (drop (8 * i) h))"

text \<open>The two bodies of \<open>mul\<close>: on x86-64 through \<open>mul128\<close>, elsewhere the portable one.\<close>

definition mul :: "u64 \<Rightarrow> u64 \<Rightarrow> u64 \<times> u64" where
  "mul a b = mul128 a b"

definition mul_portable :: "u64 \<Rightarrow> u64 \<Rightarrow> u64 \<times> u64" where
  "mul_portable a b =
     (let aLow = a AND 0xFFFFFFFF;
          aHigh = drop_bit 32 a;
          bLow = b AND 0xFFFFFFFF;
          bHigh = drop_bit 32 b;
          res = aLow * bLow;
          lowRes1 = res AND 0xFFFFFFFF;
          carry = drop_bit 32 res;
          res = aHigh * bLow + carry;
          highResHigh1 = drop_bit 32 res;
          highResLow1 = res AND 0xFFFFFFFF;
          res = aLow * bHigh;
          lowRes2 = res AND 0xFFFFFFFF;
          carry = drop_bit 32 res;
          res = aHigh * bHigh + carry;
          highResHigh2 = drop_bit 32 res;
          highResLow2 = res AND 0xFFFFFFFF;
          r = highResLow1 + lowRes2;
          carry = drop_bit 32 r;
          low = push_bit 32 r OR lowRes1;
          r = highResHigh1 + highResLow2 + carry;
          d3 = r AND 0xFFFFFFFF;
          carry = drop_bit 32 r;
          r = highResHigh2 + carry;
          high = d3 OR push_bit 32 r
      in (low, high))"

definition cadd :: "u64 \<Rightarrow> u64 \<Rightarrow> bool" where
  "cadd a b \<longleftrightarrow> a + b < a"

definition cadc :: "u64 \<Rightarrow> u64 \<Rightarrow> bool \<Rightarrow> bool" where
  "cadc a b c \<longleftrightarrow> a + b < a \<or> (c \<and> a + b = - 1)"

definition check_hash_64 :: "hash \<Rightarrow> u64 \<Rightarrow> bool" where
  "check_hash_64 hash difficulty =
     (let (top, high) = mul (hash_word hash 3) difficulty
      in if high \<noteq> 0 then False
         else let (low, cur) = mul (hash_word hash 0) difficulty;
                  (low, high) = mul (hash_word hash 1) difficulty;
                  carry = cadd cur low;
                  cur = high;
                  (low, high) = mul (hash_word hash 2) difficulty;
                  carry = cadc cur low carry;
                  carry = cadc high top carry
              in \<not> carry)"

definition max64bit :: u128 where
  "max64bit = 0xffffffffffffffff"

definition max128bit :: "256 word" where
  "max128bit = 0xffffffffffffffffffffffffffffffff"

definition max256bit :: u512 where
  "max256bit = 0xffffffffffffffffffffffffffffffffffffffffffffffffffffffffffffffff"

text \<open>The loop over the words, most significant first (\<open>FORCE_FULL_128_BITS\<close> is defined).\<close>

definition hash_val_512 :: "hash \<Rightarrow> u512" where
  "hash_val_512 hash =
     fold (\<lambda>i hashVal. push_bit 64 hashVal OR ucast (hash_word hash (3 - i))) [0, 1, 2, 3] 0"

definition check_hash_128 :: "hash \<Rightarrow> u128 \<Rightarrow> bool" where
  "check_hash_128 hash difficulty \<longleftrightarrow> hash_val_512 hash * ucast difficulty \<le> max256bit"

definition check_hash :: "hash \<Rightarrow> u128 \<Rightarrow> bool" where
  "check_hash hash difficulty =
     (if difficulty \<le> max64bit then check_hash_64 hash (ucast difficulty)
      else check_hash_128 hash difficulty)"

text \<open>\<open>std::vector::resize\<close>: cut off or pad with value-initialised elements.\<close>

definition resize :: "nat \<Rightarrow> 'a :: zero list \<Rightarrow> 'a list" where
  "resize n xs = take n xs @ replicate (n - length xs) 0"

definition difficulty_cut :: "nat \<Rightarrow> nat \<times> nat" where
  "difficulty_cut len =
     (if len \<le> DIFFICULTY_WINDOW - 2 * DIFFICULTY_CUT then (0, len)
      else let cut_begin = (len - (DIFFICULTY_WINDOW - 2 * DIFFICULTY_CUT) + 1) div 2
           in (cut_begin, cut_begin + (DIFFICULTY_WINDOW - 2 * DIFFICULTY_CUT)))"

text \<open>
  The time between the outermost timestamps that are kept after sorting, and the work done
  between them. A read past the end of a vector has no defined result: \<open>None\<close>.
\<close>

definition difficulty_time_span :: "u64 list \<Rightarrow> nat \<Rightarrow> nat \<Rightarrow> u64" where
  "difficulty_time_span timestamps cut_begin cut_end =
     (let timestamps' = sort timestamps;
          time_span = timestamps' ! (cut_end - 1) - timestamps' ! cut_begin
      in if time_span = 0 then 1 else time_span)"

definition difficulty_total_work :: "'a :: len word list \<Rightarrow> nat \<Rightarrow> nat \<Rightarrow> 'a word option" where
  "difficulty_total_work cumulative_difficulties cut_begin cut_end =
     (if cut_end \<le> length cumulative_difficulties
      then Some (cumulative_difficulties ! (cut_end - 1) - cumulative_difficulties ! cut_begin)
      else None)"

definition next_difficulty :: "u64 list \<Rightarrow> u128 list \<Rightarrow> u64 \<Rightarrow> u128 option" where
  "next_difficulty timestamps cumulative_difficulties target_seconds =
     (let (timestamps, cumulative_difficulties) =
        (if length timestamps > DIFFICULTY_WINDOW
         then (resize DIFFICULTY_WINDOW timestamps,
               resize DIFFICULTY_WINDOW cumulative_difficulties)
         else (timestamps, cumulative_difficulties))
      in if length timestamps \<le> 1 then Some 1
         else let (cut_begin, cut_end) = difficulty_cut (length timestamps);
                  time_span = difficulty_time_span timestamps cut_begin cut_end
              in map_option (\<lambda>total_work.
                   let res = ((ucast total_work :: 256 word) * ucast target_seconds
                              + ucast time_span - 1) div ucast time_span
                   in if res > max128bit then 0 else ucast res)
                 (difficulty_total_work cumulative_difficulties cut_begin cut_end))"

definition next_difficulty_64 :: "u64 list \<Rightarrow> u64 list \<Rightarrow> u64 \<Rightarrow> u64 option" where
  "next_difficulty_64 timestamps cumulative_difficulties target_seconds =
     (let (timestamps, cumulative_difficulties) =
        (if length timestamps > DIFFICULTY_WINDOW
         then (resize DIFFICULTY_WINDOW timestamps,
               resize DIFFICULTY_WINDOW cumulative_difficulties)
         else (timestamps, cumulative_difficulties))
      in if length timestamps \<le> 1 then Some 1
         else let (cut_begin, cut_end) = difficulty_cut (length timestamps);
                  time_span = difficulty_time_span timestamps cut_begin cut_end
              in map_option (\<lambda>total_work.
                   let (low, high) = mul total_work target_seconds
                   in if high \<noteq> 0 \<or> low + time_span - 1 < low then 0
                      else (low + time_span - 1) div time_span)
                 (difficulty_total_work cumulative_difficulties cut_begin cut_end))"

text \<open>The digits of the loop of \<open>hex\<close>, least significant first, then reversed.\<close>

function hex_digits :: "u128 \<Rightarrow> string" where
  "hex_digits v =
     (if v > 0 then ''0123456789abcdef'' ! unat (v AND 0xf) # hex_digits (drop_bit 4 v) else [])"
  by pat_completeness auto

termination
proof (relation "measure unat")
  show "wf (measure (unat :: u128 \<Rightarrow> nat))" by simp
next
  fix v :: u128
  assume "v > 0"
  then have "0 < unat v" by (simp add: word_less_nat_alt)
  then have "unat v div 2 ^ 4 < unat v" by simp
  then show "(drop_bit 4 v, v) \<in> measure unat"
    by (simp only: in_measure unat_drop_bit)
qed

declare hex_digits.simps [simp del]

definition hex :: "u128 \<Rightarrow> string" where
  "hex v = (let s = hex_digits v; s = (if s = [] then ''0'' else s) in ''0x'' @ rev s)"

section \<open>Little-endian numbers\<close>

fun le_nat :: "u8 list \<Rightarrow> nat" where
  "le_nat [] = 0"
| "le_nat (b # bs) = unat b + 256 * le_nat bs"

lemma le_nat_lt: "le_nat bs < 256 ^ length bs"
proof (induction bs)
  case Nil
  then show ?case by simp
next
  case (Cons b bs)
  have "unat b < 256" by simp
  with Cons have "unat b + 256 * le_nat bs < 256 * 256 ^ length bs" by linarith
  then show ?case by simp
qed

lemma le_nat_append: "le_nat (xs @ ys) = le_nat xs + 256 ^ length xs * le_nat ys"
  by (induction xs) (simp_all add: algebra_simps)

lemma unat_le_word: "length bs \<le> 8 \<Longrightarrow> unat (le_word bs) = le_nat bs"
proof (induction bs)
  case Nil
  then show ?case by simp
next
  case (Cons b bs)
  have IH: "unat (le_word bs) = le_nat bs"
    using Cons by simp
  have "le_nat (b # bs) < 256 ^ length (b # bs)" by (rule le_nat_lt)
  also have "(256 :: nat) ^ length (b # bs) \<le> 256 ^ 8"
    using Cons.prems by (intro power_increasing) simp_all
  finally have lt: "unat b + 256 * le_nat bs < 18446744073709551616" by simp
  have m: "unat (256 * le_word bs) = 256 * le_nat bs"
    using lt by (subst unat_mult_no_overflow) (simp_all add: IH)
  have u: "unat (ucast b :: u64) = unat b" by (simp add: unat_ucast_up)
  show ?case
    using lt by (simp add: unat_add_no_overflow m u)
qed

lemma le_nat_hash:
  assumes "length h = 32"
  shows "le_nat h = unat (hash_word h 0) + unat (hash_word h 1) * 18446744073709551616 +
    unat (hash_word h 2) * 340282366920938463463374607431768211456 +
    unat (hash_word h 3) * 6277101735386680763835789423207666416102355444464034512896"
proof -
  let ?c = "\<lambda>i. take 8 (drop (8 * i) h)"
  have "h = ?c 0 @ ?c 1 @ ?c 2 @ ?c 3"
    using assms by (auto intro: nth_equalityI simp: nth_append)
  then have "le_nat h = le_nat (?c 0 @ ?c 1 @ ?c 2 @ ?c 3)" by simp
  then show ?thesis
    using assms by (simp add: le_nat_append hash_word_def unat_le_word algebra_simps)
qed

section \<open>The proof-of-work check\<close>

lemma cadd_iff: "cadd a b \<longleftrightarrow> 18446744073709551616 \<le> unat a + unat b"
  using add_wraps_iff [of a b] by (simp add: cadd_def)

lemma cadc_iff: "cadc a b c \<longleftrightarrow> 18446744073709551616 \<le> unat a + unat b + of_bool c"
proof (cases "a + b < a")
  case True
  then show ?thesis using add_wraps_iff [of a b] by (simp add: cadc_def)
next
  case False
  then have e: "unat a + unat b = unat (a + b)" using unat_add_carry [of a b] by simp
  have "cadc a b c \<longleftrightarrow> c \<and> a + b = - 1"
    using False by (simp add: cadc_def)
  also have "\<dots> \<longleftrightarrow> c \<and> unat (a + b) = 18446744073709551615"
    by (metis unat_max_64 word_unat_eq_iff)
  also have "\<dots> \<longleftrightarrow> 18446744073709551616 \<le> unat (a + b) + of_bool c"
  proof -
    have "unat (a + b) < 18446744073709551616" by (rule unat_lt_64)
    then show ?thesis by (cases c) (simp_all only: of_bool_eq simp_thms, presburger+)
  qed
  finally show ?thesis by (simp only: e)
qed

text \<open>Propagating the carries through the four partial products decides the 256-bit bound.\<close>

lemma carry_sum:
  fixes l0 l1 l2 l3 h0 h1 h2 h3 s1 s2 s3 k1 k2 k3 :: nat
  assumes "h0 + l1 = s1 + k1 * 18446744073709551616"
    and "h1 + l2 + k1 = s2 + k2 * 18446744073709551616"
    and "h2 + l3 + k2 = s3 + k3 * 18446744073709551616"
  shows "(h0 * 18446744073709551616 + l0) + (h1 * 18446744073709551616 + l1) * 18446744073709551616 +
    (h2 * 18446744073709551616 + l2) * 340282366920938463463374607431768211456 +
    (h3 * 18446744073709551616 + l3) * 6277101735386680763835789423207666416102355444464034512896 =
    l0 + s1 * 18446744073709551616 + s2 * 340282366920938463463374607431768211456 +
    s3 * 6277101735386680763835789423207666416102355444464034512896 +
    (h3 + k3) * 115792089237316195423570985008687907853269984665640564039457584007913129639936"
  using assms by (simp add: algebra_simps)

lemma add_mult_less_iff:
  fixes t x k :: nat
  assumes "t < k"
  shows "t + x * k < k \<longleftrightarrow> x = 0"
  using assms by (cases x) simp_all

lemma carry_chain:
  fixes l0 l1 l2 l3 h0 h1 h2 h3 :: nat
  assumes "l0 < 18446744073709551616" "l1 < 18446744073709551616" "l2 < 18446744073709551616"
    "l3 < 18446744073709551616" "h0 < 18446744073709551616" "h1 < 18446744073709551616"
    "h2 < 18446744073709551616"
    and c1: "c1 \<longleftrightarrow> 18446744073709551616 \<le> h0 + l1"
    and c2: "c2 \<longleftrightarrow> 18446744073709551616 \<le> h1 + l2 + of_bool c1"
    and c3: "c3 \<longleftrightarrow> 18446744073709551616 \<le> h2 + l3 + of_bool c2"
  shows "(h0 * 18446744073709551616 + l0) + (h1 * 18446744073709551616 + l1) * 18446744073709551616 +
    (h2 * 18446744073709551616 + l2) * 340282366920938463463374607431768211456 +
    (h3 * 18446744073709551616 + l3) * 6277101735386680763835789423207666416102355444464034512896
      < 115792089237316195423570985008687907853269984665640564039457584007913129639936
    \<longleftrightarrow> h3 = 0 \<and> \<not> c3"
proof -
  define s1 where "s1 = h0 + l1 - (if c1 then 18446744073709551616 else 0)"
  define s2 where "s2 = h1 + l2 + of_bool c1 - (if c2 then 18446744073709551616 else 0)"
  define s3 where "s3 = h2 + l3 + of_bool c2 - (if c3 then 18446744073709551616 else 0)"
  have s1: "h0 + l1 = s1 + of_bool c1 * 18446744073709551616" "s1 < 18446744073709551616"
    using assms by (cases c1; simp add: s1_def)+
  have s2: "h1 + l2 + of_bool c1 = s2 + of_bool c2 * 18446744073709551616" "s2 < 18446744073709551616"
    using assms by (cases c1; cases c2; simp add: s2_def)+
  have s3: "h2 + l3 + of_bool c2 = s3 + of_bool c3 * 18446744073709551616" "s3 < 18446744073709551616"
    using assms by (cases c2; cases c3; simp add: s3_def)+
  let ?T = "l0 + s1 * 18446744073709551616 + s2 * 340282366920938463463374607431768211456 +
    s3 * 6277101735386680763835789423207666416102355444464034512896"
  have "(h0 * 18446744073709551616 + l0) + (h1 * 18446744073709551616 + l1) * 18446744073709551616 +
    (h2 * 18446744073709551616 + l2) * 340282366920938463463374607431768211456 +
    (h3 * 18446744073709551616 + l3) * 6277101735386680763835789423207666416102355444464034512896 =
    ?T + (h3 + of_bool c3) * 115792089237316195423570985008687907853269984665640564039457584007913129639936"
    by (rule carry_sum [OF s1(1) s2(1) s3(1)])
  moreover have "?T < 115792089237316195423570985008687907853269984665640564039457584007913129639936"
    using assms(1) s1(2) s2(2) s3(2) by linarith
  ultimately show ?thesis
    by (simp only: add_mult_less_iff) simp
qed

lemma check_hash_64_iff:
  assumes "length h = 32"
  shows "check_hash_64 h d \<longleftrightarrow> le_nat h * unat d <
    115792089237316195423570985008687907853269984665640564039457584007913129639936"
proof -
  let ?l = "\<lambda>i. fst (mul128 (hash_word h i) d)" and ?h = "\<lambda>i. snd (mul128 (hash_word h i) d)"
  have p: "unat (hash_word h i) * unat d = unat (?h i) * 18446744073709551616 + unat (?l i)" for i
    by (rule mul128_product [symmetric])
  have "le_nat h * unat d = unat (hash_word h 0) * unat d +
      unat (hash_word h 1) * unat d * 18446744073709551616 +
      unat (hash_word h 2) * unat d * 340282366920938463463374607431768211456 +
      unat (hash_word h 3) * unat d * 6277101735386680763835789423207666416102355444464034512896"
    unfolding le_nat_hash [OF assms] by (simp add: algebra_simps)
  moreover have "check_hash_64 h d \<longleftrightarrow> unat (?h 3) = 0 \<and>
      \<not> cadc (?h 2) (?l 3) (cadc (?h 1) (?l 2) (cadd (?h 0) (?l 1)))"
    by (simp add: check_hash_64_def mul_def Let_def case_prod_beta unat_eq_0)
  ultimately show ?thesis
    unfolding p
    by (simp only: carry_chain [OF unat_lt_64 unat_lt_64 unat_lt_64 unat_lt_64 unat_lt_64 unat_lt_64
        unat_lt_64 cadd_iff cadc_iff cadc_iff])
qed

lemma unat_shift_in_word:
  fixes v :: u512 and w :: u64
  assumes "unat v < 6277101735386680763835789423207666416102355444464034512896"
  shows "unat (push_bit 64 v OR ucast w) = unat v * 18446744073709551616 + unat w"
proof -
  have u: "unat (ucast w :: u512) = unat w" by (simp add: unat_ucast_up)
  have w: "unat w < 18446744073709551616" by simp
  have "unat v * 18446744073709551616 + unat w <
      115792089237316195423570985008687907853269984665640564039457584007913129639936"
    using assms w by linarith
  then have "unat v * 2 ^ 64 + unat (ucast w :: u512) < 2 ^ LENGTH(512)"
    unfolding u by simp
  with w show ?thesis
    using unat_or_push_bit [of "ucast w :: u512" 64 v] by (simp add: u)
qed

lemma unat_hash_val_512:
  assumes "length h = 32"
  shows "unat (hash_val_512 h) = le_nat h"
proof -
  let ?w = "\<lambda>i. unat (hash_word h i)"
  have w: "?w i < 18446744073709551616" for i by simp
  define v1 :: u512 where "v1 = push_bit 64 0 OR ucast (hash_word h 3)"
  define v2 where "v2 = push_bit 64 v1 OR ucast (hash_word h 2)"
  define v3 where "v3 = push_bit 64 v2 OR ucast (hash_word h 1)"
  note b = w [of 0] w [of 1] w [of 2] w [of 3]
  have v1: "unat v1 = ?w 3"
    unfolding v1_def by (subst unat_shift_in_word) simp_all
  have "unat v1 < 6277101735386680763835789423207666416102355444464034512896"
    unfolding v1 using b by linarith
  then have v2: "unat v2 = ?w 3 * 18446744073709551616 + ?w 2"
    unfolding v2_def by (simp only: unat_shift_in_word v1)
  have "unat v2 < 6277101735386680763835789423207666416102355444464034512896"
    unfolding v2 using b by linarith
  then have "unat v3 = (?w 3 * 18446744073709551616 + ?w 2) * 18446744073709551616 + ?w 1"
    unfolding v3_def by (simp only: unat_shift_in_word v2)
  then have v3: "unat v3 = ?w 3 * 340282366920938463463374607431768211456 +
      ?w 2 * 18446744073709551616 + ?w 1"
    by (simp add: add_mult_distrib)
  have "unat v3 < 6277101735386680763835789423207666416102355444464034512896"
    unfolding v3 using b by linarith
  then have "unat (push_bit 64 v3 OR ucast (hash_word h 0)) =
      (?w 3 * 340282366920938463463374607431768211456 + ?w 2 * 18446744073709551616 + ?w 1)
        * 18446744073709551616 + ?w 0"
    by (simp only: unat_shift_in_word v3)
  moreover have "hash_val_512 h = push_bit 64 v3 OR ucast (hash_word h 0)"
    by (simp add: hash_val_512_def v1_def v2_def v3_def)
  ultimately show ?thesis
    unfolding le_nat_hash [OF assms] by (simp add: algebra_simps)
qed

lemma check_hash_128_iff:
  assumes "length h = 32"
  shows "check_hash_128 h d \<longleftrightarrow> le_nat h * unat d <
    115792089237316195423570985008687907853269984665640564039457584007913129639936"
proof -
  have u: "unat (ucast d :: u512) = unat d" by (simp add: unat_ucast_up)
  have "le_nat h < 256 ^ 32" using le_nat_lt [of h] assms by simp
  moreover have "unat d < 2 ^ 128" by simp
  ultimately have "le_nat h * unat d < 256 ^ 32 * 2 ^ 128"
    by (intro mult_strict_mono) simp_all
  then have "unat (hash_val_512 h) * unat (ucast d :: u512) < 2 ^ LENGTH(512)"
    by (simp add: unat_hash_val_512 [OF assms] u)
  then have "unat (hash_val_512 h * ucast d) = le_nat h * unat d"
    by (simp add: unat_mult_no_overflow unat_hash_val_512 [OF assms] u)
  then show ?thesis
    unfolding check_hash_128_def word_le_nat_alt max256bit_def by (simp, linarith)
qed

text \<open>
  C3: the proof-of-work check. For a 32-byte hash and any 128-bit difficulty, whichever branch runs,
  the check accepts exactly the hashes whose product with the difficulty stays below \<open>2 ^ 256\<close>.
\<close>

theorem check_hash_correct:
  assumes "length h = 32"
  shows "check_hash h d \<longleftrightarrow> le_nat h * unat d <
    115792089237316195423570985008687907853269984665640564039457584007913129639936"
proof (cases "d \<le> max64bit")
  case True
  then have "unat d \<le> 18446744073709551615"
    by (simp add: word_le_nat_alt max64bit_def)
  then have "unat (ucast d :: u64) = unat d"
    by (intro unat_ucast_down) simp
  then show ?thesis
    using True check_hash_64_iff [OF assms, of "ucast d"] by (simp add: check_hash_def)
next
  case False
  then show ?thesis
    using check_hash_128_iff [OF assms] by (simp add: check_hash_def)
qed

theorem check_hash_correct_witness:
  "check_hash [0, 0, 0, 0, 0, 0, 0, 0, 0, 0, 0, 0, 0, 0, 0, 0, 0, 0, 0, 0, 0, 0, 0, 0, 0, 0, 0, 0, 0, 0, 0, 1] 255 \<and>
   \<not> check_hash [0, 0, 0, 0, 0, 0, 0, 0, 0, 0, 0, 0, 0, 0, 0, 0, 0, 0, 0, 0, 0, 0, 0, 0, 0, 0, 0, 0, 0, 0, 0, 1] 256"
  using check_hash_correct [of "[0, 0, 0, 0, 0, 0, 0, 0, 0, 0, 0, 0, 0, 0, 0, 0, 0, 0, 0, 0, 0, 0, 0, 0, 0, 0, 0, 0, 0, 0, 0, 1]" 255]
    check_hash_correct [of "[0, 0, 0, 0, 0, 0, 0, 0, 0, 0, 0, 0, 0, 0, 0, 0, 0, 0, 0, 0, 0, 0, 0, 0, 0, 0, 0, 0, 0, 0, 0, 1]" 256]
  by simp

section \<open>The portable multiplication\<close>

lemma portable_product:
  fixes A B C D q1 m1 q2 m2 q3 m3 q4 m4 q5 m5 q6 m6 :: nat
  assumes "B * D = q1 * 4294967296 + m1" and "A * D + q1 = q2 * 4294967296 + m2"
    and "B * C = q3 * 4294967296 + m3" and "A * C + q3 = q4 * 4294967296 + m4"
    and "m2 + m3 = q5 * 4294967296 + m5" and "q2 + m4 + q5 = q6 * 4294967296 + m6"
  shows "(A * 4294967296 + B) * (C * 4294967296 + D) =
    ((q4 + q6) * 4294967296 + m6) * 18446744073709551616 + (m5 * 4294967296 + m1)"
proof -
  have "(A * 4294967296 + B) * (C * 4294967296 + D) =
      A * C * 18446744073709551616 + A * D * 4294967296 + B * C * 4294967296 + B * D"
    by (simp add: algebra_simps)
  also have "\<dots> + (q1 + q3 * 4294967296 + q5 * 18446744073709551616) * 4294967296 =
      ((q4 + q6) * 4294967296 + m6) * 18446744073709551616 + (m5 * 4294967296 + m1) +
      (q1 + q3 * 4294967296 + q5 * 18446744073709551616) * 4294967296"
    using assms by (simp add: algebra_simps)
  finally show ?thesis by simp
qed

lemma dword_step:
  fixes x y c :: u64
  assumes "unat x < 4294967296" "unat y < 4294967296" "unat c < 4294967296"
  shows "unat (x * y + c) = unat x * unat y + unat c"
  using mult_lt_pow32 [OF assms(1,2)] assms
  by (subst unat_add_no_overflow) (simp_all add: dword_mult)

lemma mul_portable_product:
  "dwords (snd (mul_portable x y)) (fst (mul_portable x y)) = unat x * unat y"
proof -
  let ?A = "hi_dword x" and ?B = "lo_dword x" and ?C = "hi_dword y" and ?D = "lo_dword y"
  define r1 where "r1 = ?B * ?D"
  define r2 where "r2 = ?A * ?D + hi_dword r1"
  define r3 where "r3 = ?B * ?C"
  define r4 where "r4 = ?A * ?C + hi_dword r3"
  define r5 where "r5 = lo_dword r2 + lo_dword r3"
  define r6 where "r6 = hi_dword r2 + lo_dword r4 + hi_dword r5"
  define r7 where "r7 = hi_dword r4 + hi_dword r6"
  have u: "unat r1 = unat ?B * unat ?D" "unat r2 = unat ?A * unat ?D + unat (hi_dword r1)"
    "unat r3 = unat ?B * unat ?C" "unat r4 = unat ?A * unat ?C + unat (hi_dword r3)"
    unfolding r1_def r2_def r3_def r4_def
    by (simp_all only: dword_mult dword_step hi_dword_lt lo_dword_lt)
  note lt = hi_dword_lt [of r2] lo_dword_lt [of r2] lo_dword_lt [of r3] lo_dword_lt [of r4]
    hi_dword_lt [of r5]
  have v: "unat r5 = unat (lo_dword r2) + unat (lo_dword r3)"
    unfolding r5_def by (rule unat_add_no_overflow) (use lt in simp)
  have w: "unat r6 = unat (hi_dword r2) + unat (lo_dword r4) + unat (hi_dword r5)"
    unfolding r6_def using lt by (simp add: unat_add_no_overflow)
  note e = dword_split [of r1, unfolded u] dword_split [of r2, unfolded u]
    dword_split [of r3, unfolded u] dword_split [of r4, unfolded u]
    dword_split [of r5, unfolded v] dword_split [of r6, unfolded w]
  have p: "unat x * unat y =
    ((unat (hi_dword r4) + unat (hi_dword r6)) * 4294967296 + unat (lo_dword r6)) * 18446744073709551616
      + (unat (lo_dword r5) * 4294967296 + unat (lo_dword r1))"
    unfolding dword_split [of x] dword_split [of y]
    by (rule portable_product [OF e])
  have "unat x * unat y < 18446744073709551616 * 18446744073709551616"
    by (intro mult_strict_mono) simp_all
  then have "(unat (hi_dword r4) + unat (hi_dword r6)) * 4294967296 + unat (lo_dword r6)
      < 18446744073709551616"
    using high_half_lt [OF p [symmetric]] by simp
  then have s: "unat (hi_dword r4) + unat (hi_dword r6) < 4294967296"
    unfolding add_mult_distrib by linarith
  then have r7: "unat r7 = unat (hi_dword r4) + unat (hi_dword r6)"
    unfolding r7_def by (intro unat_add_no_overflow) simp
  have or: "unat (push_bit 32 a OR lo_dword b) = (unat a mod 4294967296) * 4294967296 + unat (lo_dword b)"
    for a b :: u64
  proof -
    have "push_bit 32 a = push_bit 32 (lo_dword a)"
      by (simp add: word_unat_eq_iff unat_push_bit_32 unat_lo_dword)
    moreover have "unat (push_bit 32 (lo_dword a) OR lo_dword b) =
        unat (lo_dword a) * 2 ^ 32 + unat (lo_dword b)"
      using lo_dword_lt [of a] lo_dword_lt [of b] by (intro unat_or_push_bit) simp_all
    ultimately show ?thesis by (simp add: unat_lo_dword)
  qed
  have "mul_portable x y = (push_bit 32 r5 OR lo_dword r1, lo_dword r6 OR push_bit 32 r7)"
    by (simp add: mul_portable_def Let_def r1_def r2_def r3_def r4_def r5_def r6_def r7_def
        hi_dword_def lo_dword_def)
  moreover have "unat (lo_dword r6 OR push_bit 32 r7) = unat r7 * 4294967296 + unat (lo_dword r6)"
    using s by (simp add: or or.commute [of "lo_dword r6"] r7)
  moreover have "unat (push_bit 32 r5 OR lo_dword r1) =
      unat (lo_dword r5) * 4294967296 + unat (lo_dword r1)"
    by (simp add: or unat_lo_dword [of r5])
  ultimately show ?thesis
    by (simp only: fst_conv snd_conv p r7)
qed

text \<open>
  The portable multiplication of \<open>difficulty.cpp\<close> and the one x86-64 builds use return the same
  halves on all operands, so the check does not depend on the platform.
\<close>

lemma mul_portable_equiv: "mul_portable a b = mul a b"
proof -
  have "dwords (snd (mul_portable a b)) (fst (mul_portable a b)) =
      dwords (snd (mul128 a b)) (fst (mul128 a b))"
    by (simp only: mul_portable_product mul128_product)
  from dwords_inj [OF this] show ?thesis
    by (simp add: mul_def prod_eq_iff)
qed

section \<open>Retargeting\<close>

lemma difficulty_cut_bounds:
  assumes "difficulty_cut n = (b, e)" and "2 \<le> n" and "n \<le> 720"
  shows "b + 2 \<le> e" and "e \<le> n"
proof -
  have "b + 2 \<le> e \<and> e \<le> n"
  proof (cases "n \<le> 600")
    case True
    then show ?thesis using assms by (simp add: difficulty_cut_def config_defs)
  next
    case False
    then have "b = (n - 599) div 2" "e = b + 600"
      using assms(1) by (auto simp: difficulty_cut_def config_defs Let_def)
    moreover have "(n - 599) div 2 + 600 \<le> n" using False assms(3) by presburger
    ultimately show ?thesis by simp
  qed
  then show "b + 2 \<le> e" and "e \<le> n" by simp_all
qed

text \<open>The vectors the rule works on: at most one window long.\<close>

abbreviation window :: "'a list \<Rightarrow> 'a list" where
  "window xs \<equiv> take DIFFICULTY_WINDOW xs"

lemma resize_window: "DIFFICULTY_WINDOW < length xs \<Longrightarrow> resize DIFFICULTY_WINDOW xs = window xs"
  by (simp add: resize_def)

lemma trimmed:
  assumes "length ts = length cds"
  shows "(if length ts > DIFFICULTY_WINDOW
      then (resize DIFFICULTY_WINDOW ts, resize DIFFICULTY_WINDOW cds) else (ts, cds)) =
    (window ts, window cds)"
  using assms by (simp add: resize_window)

lemma unat_time_span:
  assumes "b < e" and "e \<le> length ts"
  shows "unat (difficulty_time_span ts b e) =
    max 1 (unat (sort ts ! (e - 1)) - unat (sort ts ! b))"
proof -
  have "sort ts ! b \<le> sort ts ! (e - 1)"
    using assms by (intro sorted_nth_mono) simp_all
  then have "unat (sort ts ! (e - 1) - sort ts ! b) = unat (sort ts ! (e - 1)) - unat (sort ts ! b)"
    by (simp add: unat_diff_le word_le_nat_alt)
  moreover have "x = 0 \<longleftrightarrow> unat x = 0" for x :: u64
    by (simp add: unat_eq_0)
  ultimately show ?thesis
    by (simp add: difficulty_time_span_def Let_def)
qed

lemma time_span_pos: "0 < unat (difficulty_time_span ts b e)"
  by (simp add: difficulty_time_span_def Let_def unat_gt_0)

text \<open>Rounded-up division in 256-bit arithmetic does not overflow.\<close>

lemma unat_ceil_div_256:
  fixes w :: u128 and t s :: u64
  assumes "0 < unat s"
  shows "unat (((ucast w :: 256 word) * ucast t + ucast s - 1) div ucast s) =
    (unat w * unat t + unat s - 1) div unat s"
proof -
  have u: "unat (ucast w :: 256 word) = unat w" "unat (ucast t :: 256 word) = unat t"
    "unat (ucast s :: 256 word) = unat s"
    by (simp_all add: unat_ucast_up)
  have "unat w * unat t \<le> 340282366920938463463374607431768211456 * 18446744073709551616"
    by (intro mult_le_mono) (simp_all add: less_imp_le)
  then have b: "unat w * unat t + unat s <
      115792089237316195423570985008687907853269984665640564039457584007913129639936"
    using unat_lt_64 [of s] by linarith
  have m: "unat ((ucast w :: 256 word) * ucast t) = unat w * unat t"
    using b by (subst unat_mult_no_overflow) (simp_all add: u)
  have a: "unat ((ucast w :: 256 word) * ucast t + ucast s) = unat w * unat t + unat s"
    using b by (subst unat_add_no_overflow) (simp_all add: u m)
  have "unat ((ucast w :: 256 word) * ucast t + ucast s - 1) = unat w * unat t + unat s - 1"
    using assms by (subst unat_diff_le) (simp_all add: a)
  then show ?thesis by (simp add: unat_div u)
qed

lemma next_difficulty_eq:
  assumes len: "length ts = length cds" and two: "2 \<le> length ts"
    and cut: "difficulty_cut (length (window ts)) = (b, e)"
  shows "\<exists>d. next_difficulty ts cds target = Some d \<and>
    unat d = (let s = unat (difficulty_time_span (window ts) b e);
                  q = (unat (window cds ! (e - 1) - window cds ! b) * unat target + s - 1) div s
              in if q < 340282366920938463463374607431768211456 then q else 0)"
proof -
  let ?s = "difficulty_time_span (window ts) b e"
  let ?w = "window cds ! (e - 1) - window cds ! b"
  let ?r = "((ucast ?w :: 256 word) * ucast target + ucast ?s - 1) div ucast ?s"
  have n: "2 \<le> length (window ts)" "length (window ts) \<le> 720"
    using two by (simp_all add: config_defs)
  have "e \<le> length (window cds)"
    using difficulty_cut_bounds(2) [OF cut n] len by simp
  then have nd: "next_difficulty ts cds target = Some (if ?r > max128bit then 0 else ucast ?r)"
    using n unfolding next_difficulty_def trimmed [OF len]
    by (simp add: cut difficulty_total_work_def Let_def del: length_take)
  have r: "unat ?r = (unat ?w * unat target + unat ?s - 1) div unat ?s"
    by (rule unat_ceil_div_256 [OF time_span_pos])
  have g: "?r > max128bit \<longleftrightarrow> \<not> unat ?r < 340282366920938463463374607431768211456"
    by (simp only: word_less_nat_alt max128bit_def) (simp, linarith)
  have "unat (ucast ?r :: u128) = unat ?r" if "unat ?r < 340282366920938463463374607431768211456"
    using that by (intro unat_ucast_down) simp
  then show ?thesis
    unfolding nd g Let_def r [symmetric] by simp
qed



text \<open>
  Miners cannot move the difficulty by reordering timestamps: within a window the result depends
  on the timestamps only as a multiset.
\<close>

lemma next_difficulty_timestamp_order:
  assumes perm: "mset ts = mset ts'" and short: "length ts \<le> DIFFICULTY_WINDOW"
  shows "next_difficulty ts cds target = next_difficulty ts' cds target"
proof -
  have "sort ts = sort ts'"
    using perm by (intro properties_for_sort) simp_all
  moreover have "length ts = length ts'"
    using perm by (rule mset_eq_length)
  ultimately show ?thesis
    using short by (simp add: next_difficulty_def difficulty_time_span_def)
qed

lemma ceil_div_64:
  fixes w t s :: u64
  assumes s: "0 < unat s" and p: "mul w t = (low, high)" and h: "high = 0"
    and nw: "\<not> low + s - 1 < low"
  shows "unat ((low + s - 1) div s) = (unat w * unat t + unat s - 1) div unat s"
proof -
  have low: "unat low = unat w * unat t"
    using mul128_product [of w t] p h by (simp add: mul_def)
  have s1: "unat (s - 1) = unat s - 1"
    using s by (simp add: unat_diff_le)
  have e: "low + s - 1 = low + (s - 1)" by simp
  with nw have "\<not> low + (s - 1) < low" by simp
  then have "unat low + unat (s - 1) = unat (low + (s - 1))"
    using unat_add_carry [of low "s - 1"] by simp
  then have "unat (low + s - 1) = unat w * unat t + unat s - 1"
    unfolding e using s by (simp add: low s1)
  then show ?thesis by (simp only: unat_div)
qed

lemma next_difficulty_64_eq:
  assumes len: "length ts = length cds" and two: "2 \<le> length ts"
    and cut: "difficulty_cut (length (window ts)) = (b, e)"
    and r: "next_difficulty_64 ts cds target = Some r" "r \<noteq> 0"
  shows "unat r = (let s = unat (difficulty_time_span (window ts) b e) in
    (unat (window cds ! (e - 1) - window cds ! b) * unat target + s - 1) div s)"
proof -
  let ?s = "difficulty_time_span (window ts) b e"
  let ?w = "window cds ! (e - 1) - window cds ! b"
  obtain low high where p: "mul ?w target = (low, high)" by fastforce
  have n: "2 \<le> length (window ts)" "length (window ts) \<le> 720"
    using two by (simp_all add: config_defs)
  have "e \<le> length (window cds)"
    using difficulty_cut_bounds(2) [OF cut n] len by simp
  then have "next_difficulty_64 ts cds target =
      Some (if high \<noteq> 0 \<or> low + ?s - 1 < low then 0 else (low + ?s - 1) div ?s)"
    using n p unfolding next_difficulty_64_def trimmed [OF len]
    by (simp add: cut difficulty_total_work_def Let_def del: length_take)
  then have "high = 0" "\<not> low + ?s - 1 < low" "r = (low + ?s - 1) div ?s"
    using r by (auto split: if_splits)
  then show ?thesis
    using ceil_div_64 [OF time_span_pos p] by (simp add: Let_def)
qed

text \<open>
  The 64-bit and the 128-bit retargeting agree. On non-decreasing cumulative difficulties that fit
  64 bits, whenever the 64-bit rule does not signal overflow the 128-bit rule returns the same number.
\<close>

lemma next_difficulty_64_agrees:
  assumes len: "length ts = length cds" and mono: "sorted cds"
    and r: "next_difficulty_64 ts cds target = Some r" "r \<noteq> 0"
  shows "next_difficulty ts (map ucast cds) target = Some (ucast r)"
proof (cases "2 \<le> length ts")
  case False
  then show ?thesis
    using r by (simp add: next_difficulty_def next_difficulty_64_def config_defs)
next
  case True
  obtain b e where cut: "difficulty_cut (length (window ts)) = (b, e)" by fastforce
  have n: "2 \<le> length (window ts)" "length (window ts) \<le> 720"
    using True by (simp_all add: config_defs)
  have be: "b + 2 \<le> e" "e \<le> length (window cds)"
    using difficulty_cut_bounds [OF cut n] len by simp_all
  then have e1: "b \<le> e - 1" "b < length (window cds)" "e - 1 < length (window cds)" by linarith+
  let ?x = "window cds ! (e - 1)" and ?y = "window cds ! b"
  have "sorted (window cds)" using mono by (rule sorted_wrt_take)
  then have "?y \<le> ?x" using e1 by (intro sorted_nth_mono)
  then have le: "unat ?y \<le> unat ?x" by (simp add: word_le_nat_alt)
  have "window (map ucast cds :: u128 list) ! (e - 1) = ucast ?x"
    "window (map ucast cds :: u128 list) ! b = ucast ?y"
    using e1 by (simp_all only: take_map nth_map)
  then have w: "unat (window (map ucast cds :: u128 list) ! (e - 1) - window (map ucast cds) ! b) =
      unat (?x - ?y)"
    using le by (simp add: unat_diff_le unat_ucast_up)
  obtain d where d: "next_difficulty ts (map ucast cds) target = Some d"
    and du: "unat d = (let s = unat (difficulty_time_span (window ts) b e);
        q = (unat (?x - ?y) * unat target + s - 1) div s
      in if q < 340282366920938463463374607431768211456 then q else 0)"
    using next_difficulty_eq [of ts "map ucast cds", OF _ True cut] len unfolding w by auto
  have ru: "unat r < 18446744073709551616" by simp
  have "unat d = unat r"
    using du next_difficulty_64_eq [OF len True cut r] ru by (simp add: Let_def)
  then have "d = ucast r"
    by (simp add: word_unat_eq_iff unat_ucast_up)
  with d show ?thesis by simp
qed

end
