(* ===== verification/Varint.thy ===== *)
theory Varint
  imports Hmny_Prelude
begin

text \<open>
  Variable-length integers: \<open>common/varint.h\<close>, at the 64-bit type the callers use. Seven bits per byte,
  least significant group first, the top bit of a byte set when more follow. The theorems: reading
  inverts writing and leaves the following bytes, a successful read consumed exactly a written
  varint unless the input ended too early, and the size function counts the written bytes.
\<close>

section \<open>Definitions\<close>

definition EVARINT_OVERFLOW :: int where
  "EVARINT_OVERFLOW = - 1"

definition EVARINT_REPRESENT :: int where
  "EVARINT_REPRESENT = - 2"

function write_varint :: "u64 \<Rightarrow> u8 list" where
  "write_varint i =
     (if i \<ge> 0x80 then ((ucast i AND 0x7f) OR 0x80) # write_varint (drop_bit 7 i)
      else [ucast i])"
  by pat_completeness auto

termination
proof (relation "measure unat")
  show "wf (measure (unat :: u64 \<Rightarrow> nat))" by simp
next
  fix i :: u64
  assume "i \<ge> 0x80"
  then have "unat i div 2 ^ 7 < unat i" by (simp add: word_le_nat_alt)
  then show "(drop_bit 7 i, i) \<in> measure unat"
    by (simp only: in_measure unat_drop_bit)
qed

declare write_varint.simps [simp del]

text \<open>
  The loop of \<open>read_varint\<close>: the bytes from \<open>first\<close> to \<open>last\<close>, the shift, the count and the
  value so far. It returns the count or an error code, and the value written.
\<close>

fun read_varint_loop :: "nat \<Rightarrow> u8 list \<Rightarrow> nat \<Rightarrow> int \<Rightarrow> u64 \<Rightarrow> int \<times> u64" where
  "read_varint_loop bits [] shift read write = (read, write)"
| "read_varint_loop bits (byte # rest) shift read write =
     (if shift + 7 \<ge> bits \<and> unat byte \<ge> 2 ^ (bits - shift) then (EVARINT_OVERFLOW, write)
      else if byte = 0 \<and> shift \<noteq> 0 then (EVARINT_REPRESENT, write)
      else let write' = write OR push_bit shift (ucast (byte AND 0x7f))
           in if byte AND 0x80 = 0 then (read + 1, write')
              else read_varint_loop bits rest (shift + 7) (read + 1) write')"

definition read_varint :: "u8 list \<Rightarrow> int \<times> u64" where
  "read_varint bytes = read_varint_loop 64 bytes 0 0 0"

function get_varint_byte_size :: "u64 \<Rightarrow> nat" where
  "get_varint_byte_size val =
     (let val' = drop_bit 7 val in if val' \<noteq> 0 then Suc (get_varint_byte_size val') else 1)"
  by pat_completeness auto

termination
proof (relation "measure unat")
  show "wf (measure (unat :: u64 \<Rightarrow> nat))" by simp
next
  fix val x :: u64
  assume x: "x = drop_bit 7 val" and nz: "x \<noteq> 0"
  then have "unat val div 2 ^ 7 \<noteq> 0" by (metis unat_drop_bit unat_eq_0)
  then have "unat val div 2 ^ 7 < unat val" by simp
  then show "(x, val) \<in> measure unat"
    by (simp only: in_measure unat_drop_bit x)
qed

declare get_varint_byte_size.simps [simp del]

section \<open>Bytes of a varint\<close>

lemma unat_and_7f [codec_simps]: "unat (b AND 0x7f :: u8) = unat b mod 128"
proof -
  have "b AND 0x7f = take_bit 7 b"
    by (simp add: take_bit_eq_mask mask_eq_exp_minus_1)
  then show ?thesis
    by (simp add: unsigned_take_bit_eq take_bit_eq_mod unat_mod)
qed

lemma and_80_eq_0_iff [codec_simps]: "b AND 0x80 = 0 \<longleftrightarrow> unat (b :: u8) < 128"
proof -
  have "b AND 0x80 = 0 \<longleftrightarrow> \<not> bit b 7"
    using and_exp_eq_0_iff_not_bit [of b 7] by simp
  also have "\<dots> \<longleftrightarrow> even (unat b div 2 ^ 7)"
  proof -
    have "bit b 7 \<longleftrightarrow> bit (unat b) 7" by (simp add: bit_unsigned_iff)
    then show ?thesis by (simp only: bit_iff_odd [of "unat b"] not_not)
  qed
  also have "\<dots> \<longleftrightarrow> unat b < 128"
  proof -
    have "unat b div 128 < 2" using unat_lt_8 [of b] by (simp add: less_mult_imp_div_less)
    then have "unat b div 128 = 0 \<or> unat b div 128 = 1" by linarith
    moreover have "unat b div 128 = 0 \<longleftrightarrow> unat b < 128" by (simp add: div_eq_0_iff)
    ultimately show ?thesis by auto
  qed
  finally show ?thesis .
qed

lemma unat_continuation [codec_simps]:
  "unat ((ucast (i :: u64) AND 0x7f) OR 0x80 :: u8) = 128 + unat i mod 128"
proof -
  let ?x = "ucast i AND 0x7f :: u8"
  have x: "unat ?x = unat i mod 128"
    by (simp add: unat_and_7f unsigned_ucast_eq take_bit_eq_mod mod_mod_cancel)
  have "unat (push_bit 7 1 OR ?x) = unat (1 :: u8) * 2 ^ 7 + unat ?x"
    by (rule unat_or_push_bit) (simp_all only: x, simp_all)
  then show ?thesis
    by (simp add: x or.commute)
qed

lemma write_varint_big: "128 \<le> unat i \<Longrightarrow>
    write_varint i = ((ucast i AND 0x7f) OR 0x80) # write_varint (drop_bit 7 i)"
  by (subst write_varint.simps) (simp add: word_le_nat_alt)

lemma write_varint_small: "unat i < 128 \<Longrightarrow> write_varint i = [ucast i]"
  by (subst write_varint.simps) (simp add: word_le_nat_alt)

lemma unat_place_group:
  fixes acc :: u64 and b :: u8
  assumes a: "unat acc < 2 ^ s" and g: "unat b * 2 ^ s + unat acc < 2 ^ 64"
  shows "unat (acc OR push_bit s (ucast b)) = unat b * 2 ^ s + unat acc"
  using unat_or_push_bit [of acc s "ucast b"] assms by (simp add: unat_ucast_up or.commute)

section \<open>Reading inverts writing\<close>

lemma pow_group_le:
  fixes v :: nat
  assumes "128 \<le> v" and "v < 2 ^ (64 - s)"
  shows "s + 7 < 64"
proof (rule ccontr)
  assume "\<not> s + 7 < 64"
  then have "(2 :: nat) ^ (64 - s) \<le> 2 ^ 7" by (intro power_increasing) simp_all
  with assms show False by simp
qed

lemma pow_split: "s \<le> 64 \<Longrightarrow> (2 :: nat) ^ (64 - s) * 2 ^ s = 2 ^ 64"
  by (simp add: power_add [symmetric])

lemma shifted_lt:
  fixes v a :: nat
  assumes "v < 2 ^ (64 - s)" and "a < 2 ^ s" and "s \<le> 64"
  shows "v * 2 ^ s + a < 2 ^ 64"
proof -
  have "v * 2 ^ s + a < Suc v * 2 ^ s" using assms(2) by simp
  also have "\<dots> \<le> 2 ^ (64 - s) * 2 ^ s" using assms(1) by (intro mult_le_mono) simp_all
  finally show ?thesis using pow_split [OF assms(3)] by simp
qed

lemma group_sum:
  fixes v a :: nat
  shows "v div 128 * 2 ^ (s + 7) + (v mod 128 * 2 ^ s + a) = v * 2 ^ s + a"
proof -
  have "v * 2 ^ s = v div 128 * 128 * 2 ^ s + v mod 128 * 2 ^ s"
    by (metis add_mult_distrib div_mult_mod_eq)
  then show ?thesis by (simp add: power_add)
qed

lemma read_varint_loop_write:
  assumes "unat v < 2 ^ (64 - s)" and "unat acc < 2 ^ s" and "s < 64" and "s = 0 \<or> v \<noteq> 0"
  shows "\<exists>w. read_varint_loop 64 (write_varint v @ rest) s n acc =
      (n + int (length (write_varint v)), w) \<and> unat w = unat v * 2 ^ s + unat acc"
  using assms
proof (induction v arbitrary: s n acc rule: write_varint.induct)
  case (1 v)
  show ?case
  proof (cases "128 \<le> unat v")
    case False
    let ?b = "ucast v :: u8"
    have b: "unat ?b = unat v" using False by (intro unat_ucast_down) simp
    have b7: "unat (?b AND 0x7f) = unat v" using False by (simp add: unat_and_7f b)
    have nz: "\<not> (?b = 0 \<and> s \<noteq> 0)"
    proof
      assume "?b = 0 \<and> s \<noteq> 0"
      then have "unat v = 0" using b by simp
      with \<open>?b = 0 \<and> s \<noteq> 0\<close> "1.prems"(4) show False by (simp add: unat_eq_0)
    qed
    have stop: "?b AND 0x80 = 0" using False by (simp add: and_80_eq_0_iff b)
    have "unat v * 2 ^ s + unat acc < 2 ^ 64"
      using "1.prems"(1,2,3) by (intro shifted_lt) simp_all
    then have "unat (acc OR push_bit s (ucast (?b AND 0x7f))) = unat v * 2 ^ s + unat acc"
      using "1.prems"(2) by (simp only: unat_place_group b7)
    moreover have "\<not> (s + 7 \<ge> 64 \<and> unat ?b \<ge> 2 ^ (64 - s))"
      using "1.prems"(1) b by simp
    ultimately show ?thesis
      using nz stop False by (auto simp: write_varint_small)
  next
    case True
    let ?b = "(ucast v AND 0x7f) OR 0x80 :: u8"
    let ?acc = "acc OR push_bit s (ucast (?b AND 0x7f))"
    let ?v = "drop_bit 7 v"
    have s7: "s + 7 < 64" by (rule pow_group_le [OF True "1.prems"(1)])
    have b: "unat ?b = 128 + unat v mod 128" by (rule unat_continuation)
    have b7: "unat (?b AND 0x7f) = unat v mod 128" by (simp add: unat_and_7f b)
    have dv: "unat ?v = unat v div 128" by (simp add: unat_drop_bit)
    have "unat v mod 128 * 2 ^ s + unat acc \<le> unat v * 2 ^ s + unat acc" by simp
    also have "\<dots> < 2 ^ 64"
      using "1.prems"(1,2,3) by (intro shifted_lt) simp_all
    finally have acc: "unat ?acc = unat v mod 128 * 2 ^ s + unat acc"
      using "1.prems"(2) by (simp only: unat_place_group b7)
    have acc_lt: "unat ?acc < 2 ^ (s + 7)"
    proof -
      have "unat v mod 128 * 2 ^ s + unat acc < Suc (unat v mod 128) * 2 ^ s" using "1.prems"(2) by simp
      also have "\<dots> \<le> 128 * 2 ^ s" by (intro mult_le_mono) (simp_all add: Suc_leI)
      finally show ?thesis by (simp add: acc power_add)
    qed
    have v_lt: "unat ?v < 2 ^ (64 - (s + 7))"
    proof -
      have "(2 :: nat) ^ (64 - s) = 2 ^ (64 - (s + 7)) * 128"
        using s7 power_add [of "2 :: nat" "64 - (s + 7)" 7] by simp
      then show ?thesis using "1.prems"(1) by (simp add: dv less_mult_imp_div_less)
    qed
    have v_nz: "?v \<noteq> 0" using True dv by (metis div_greater_zero_iff not_gr_zero unat_0 zero_less_numeral)
    have "v \<ge> 0x80" using True by (simp add: word_le_nat_alt)
    from "1.IH" [OF this v_lt acc_lt s7, of "n + 1"] v_nz obtain w where
      w: "read_varint_loop 64 (write_varint ?v @ rest) (s + 7) (n + 1) ?acc =
          (n + 1 + int (length (write_varint ?v)), w)"
      and wu: "unat w = unat ?v * 2 ^ (s + 7) + unat ?acc" by blast
    have "unat w = unat v * 2 ^ s + unat acc"
      unfolding wu dv acc by (rule group_sum)
    moreover have "?b \<noteq> 0" using b by (metis add_is_0 unat_0 zero_neq_numeral)
    moreover have "?b AND 0x80 \<noteq> 0" by (simp only: and_80_eq_0_iff b)
    ultimately show ?thesis
      using s7 w by (simp add: write_varint_big [OF True] Let_def)
  qed
qed

lemma read_write_varint:
  "read_varint (write_varint v @ rest) = (int (length (write_varint v)), v)"
proof -
  have "unat v < 2 ^ (64 - 0)" by simp
  then obtain w where "read_varint (write_varint v @ rest) = (int (length (write_varint v)), w)"
    and "unat w = unat v"
    using read_varint_loop_write [of v 0 0 rest 0] by (auto simp: read_varint_def)
  then show ?thesis by (simp add: word_unat_eq_iff)
qed

section \<open>What a successful read consumed\<close>

lemma len64: "LENGTH(64) = 64"
  by simp

lemma write_varint_Cons:
  fixes w :: u64
  assumes b: "128 \<le> unat b" and w: "w \<noteq> 0" "unat w < 2 ^ 57"
  obtains u where "unat u = unat w * 128 + unat b mod 128" and "write_varint u = b # write_varint w"
proof -
  define u :: u64 where "u = of_nat (unat w * 128 + unat b mod 128)"
  have "unat b mod 128 < 128" by simp
  then have "unat w * 128 + unat b mod 128 < 2 ^ 64" using w(2) by simp
  then have u: "unat u = unat w * 128 + unat b mod 128"
    unfolding u_def unat_of_nat by (simp only: len64 mod_less)
  have "0 < unat w" using w(1) by (simp add: unat_gt_0)
  then have big: "128 \<le> unat u" using u by linarith
  have "unat b - 128 < 128" using unat_lt_8 [of b] b by linarith
  then have "128 + unat b mod 128 = unat b" using b by (simp add: le_mod_geq)
  then have "unat ((ucast u AND 0x7f) OR 0x80 :: u8) = unat b"
    by (simp only: unat_continuation u) simp
  then have h: "(ucast u AND 0x7f) OR 0x80 = b" by (simp only: word_unat_eq_iff)
  have "unat (drop_bit 7 u) = unat w"
    by (simp only: unat_drop_bit u) simp
  then have "drop_bit 7 u = w" by (simp only: word_unat_eq_iff)
  with h have "write_varint u = b # write_varint w"
    by (simp only: write_varint_big [OF big])
  with u that show ?thesis by blast
qed

text \<open>
  Every non-error result of the loop is one of two: the input ran out while every byte announced
  another, or the bytes start with the varint of a number whose groups were placed.
\<close>

lemma read_varint_loop_cases:
  assumes "read_varint_loop 64 bs s n acc = (r, v)" and "0 \<le> r" and "s < 64" and "unat acc < 2 ^ s"
    and "0 \<le> n"
  shows "(r = n + int (length bs) \<and> (\<forall>b \<in> set bs. 128 \<le> unat b)) \<or>
    (\<exists>w rest. bs = write_varint w @ rest \<and> r = n + int (length (write_varint w)) \<and>
      unat v = unat w * 2 ^ s + unat acc \<and> unat w < 2 ^ (64 - s) \<and> (s = 0 \<or> w \<noteq> 0))"
  using assms
proof (induction bs arbitrary: s n acc)
  case Nil
  then show ?case by simp
next
  case (Cons b bs)
  let ?acc = "acc OR push_bit s (ucast (b AND 0x7f))"
  have noerr: "\<not> (s + 7 \<ge> 64 \<and> unat b \<ge> 2 ^ (64 - s))" "\<not> (b = 0 \<and> s \<noteq> 0)"
    using Cons.prems(1,2) by (auto simp: EVARINT_OVERFLOW_def EVARINT_REPRESENT_def split: if_splits)
  have b7: "unat (b AND 0x7f) = unat b mod 128" by (rule unat_and_7f)
  have b256: "unat b < 256" by (rule unat_lt_8)
  have g: "unat b mod 128 < 2 ^ (64 - s)"
  proof (cases "s + 7 \<ge> 64")
    case True
    then have "unat b < 2 ^ (64 - s)" using noerr(1) by simp
    then show ?thesis by (meson le_less_trans mod_less_eq_dividend)
  next
    case False
    then have "(2 :: nat) ^ 7 \<le> 2 ^ (64 - s)" by (intro power_increasing) simp_all
    moreover have "unat b mod 128 < 128" by simp
    ultimately show ?thesis by simp
  qed
  have acc: "unat ?acc = unat b mod 128 * 2 ^ s + unat acc"
    using shifted_lt [OF g Cons.prems(4)] Cons.prems(3,4) by (simp only: unat_place_group b7 less_imp_le)
  show ?case
  proof (cases "unat b < 128")
    case True
    then have "r = n + 1" "v = ?acc"
      using Cons.prems(1) noerr by (auto simp: and_80_eq_0_iff Let_def)
    moreover have w: "unat (ucast b :: u64) = unat b" by (simp add: unat_ucast_up)
    moreover have "write_varint (ucast b) = [b]"
      using True w by (simp add: write_varint_small ucast_up_ucast_id is_up_def target_size_def source_size_def)
    moreover have "s = 0 \<or> (ucast b :: u64) \<noteq> 0"
      using noerr(2) w by (metis unat_0 word_unat_eq_iff)
    ultimately show ?thesis
      using True acc g by (intro disjI2 exI [of _ "ucast b"] exI [of _ bs]) simp
  next
    case False
    have s7: "s + 7 < 64"
    proof (rule ccontr)
      assume c: "\<not> s + 7 < 64"
      then have "(2 :: nat) ^ (64 - s) \<le> 2 ^ 7" by (intro power_increasing) simp_all
      with c False noerr(1) show False by simp
    qed
    have acc_lt: "unat ?acc < 2 ^ (s + 7)"
    proof -
      have "unat b mod 128 * 2 ^ s + unat acc < Suc (unat b mod 128) * 2 ^ s" using Cons.prems(4) by simp
      also have "\<dots> \<le> 128 * 2 ^ s" by (intro mult_le_mono) (simp_all add: Suc_leI)
      finally show ?thesis by (simp add: acc power_add)
    qed
    have "read_varint_loop 64 bs (s + 7) (n + 1) ?acc = (r, v)"
      using Cons.prems(1) noerr False by (auto simp: and_80_eq_0_iff Let_def)
    from Cons.IH [OF this Cons.prems(2) s7 acc_lt] Cons.prems(5)
    consider (short) "r = n + 1 + int (length bs)" "\<forall>b \<in> set bs. 128 \<le> unat b"
      | (full) w rest where "bs = write_varint w @ rest" "r = n + 1 + int (length (write_varint w))"
        "unat v = unat w * 2 ^ (s + 7) + unat ?acc" "unat w < 2 ^ (64 - (s + 7))" "w \<noteq> 0"
      by fastforce
    then show ?thesis
    proof cases
      case short
      then show ?thesis using False by simp
    next
      case full
      have "(2 :: nat) ^ (64 - (s + 7)) \<le> 2 ^ 57" by (intro power_increasing) simp_all
      with full(4) have "unat w < 2 ^ 57" by linarith
      with False full(5) obtain u where u: "unat u = unat w * 128 + unat b mod 128"
        and wu: "write_varint u = b # write_varint w"
        by (meson not_less write_varint_Cons)
      have "unat v = unat u div 128 * 2 ^ (s + 7) + (unat u mod 128 * 2 ^ s + unat acc)"
        by (simp add: full(3) acc u)
      then have "unat v = unat u * 2 ^ s + unat acc" by (simp only: group_sum)
      moreover have "unat u < 2 ^ (64 - s)"
      proof -
        have "(2 :: nat) ^ (64 - s) = 2 ^ (64 - (s + 7)) * 128"
          using s7 power_add [of "2 :: nat" "64 - (s + 7)" 7] by simp
        moreover have "unat b mod 128 < 128" by simp
        ultimately show ?thesis unfolding u using full(4) by linarith
      qed
      moreover have "u \<noteq> 0" using full(5) u by (auto simp: unat_eq_0)
      ultimately show ?thesis
        using full(1,2) wu by (intro disjI2 exI [of _ u] exI [of _ rest]) simp
    qed
  qed
qed

section \<open>Sizes\<close>

lemma write_varint_nonempty: "write_varint v \<noteq> []"
  by (cases "128 \<le> unat v") (simp_all add: write_varint_big write_varint_small)

lemma length_write_varint: "length (write_varint v) = get_varint_byte_size v"
proof (induction v rule: get_varint_byte_size.induct)
  case (1 v)
  have d: "drop_bit 7 v \<noteq> 0 \<longleftrightarrow> 128 \<le> unat v"
  proof -
    have "drop_bit 7 v \<noteq> 0 \<longleftrightarrow> unat v div 2 ^ 7 \<noteq> 0"
      by (metis unat_drop_bit unat_eq_0)
    then show ?thesis by (simp add: div_greater_zero_iff)
  qed
  show ?case
  proof (cases "128 \<le> unat v")
    case True
    with 1 d have "length (write_varint (drop_bit 7 v)) = get_varint_byte_size (drop_bit 7 v)" by blast
    with True d show ?thesis
      by (simp add: write_varint_big get_varint_byte_size.simps [of v] Let_def)
  next
    case False
    with d show ?thesis
      by (simp add: write_varint_small get_varint_byte_size.simps [of v] Let_def)
  qed
qed

lemma length_write_varint_le: "unat v < 2 ^ (7 * Suc k) \<Longrightarrow> length (write_varint v) \<le> Suc k"
proof (induction k arbitrary: v)
  case 0
  then show ?case by (simp add: write_varint_small)
next
  case (Suc k)
  show ?case
  proof (cases "128 \<le> unat v")
    case True
    have "(2 :: nat) ^ (7 * Suc (Suc k)) = 2 ^ (7 * Suc k) * 128"
      by (simp add: power_add)
    then have "unat v div 128 < 2 ^ (7 * Suc k)"
      using Suc.prems by (intro less_mult_imp_div_less) simp
    then have "unat (drop_bit 7 v) < 2 ^ (7 * Suc k)"
      by (simp only: unat_drop_bit) simp
    from Suc.IH [OF this] True show ?thesis by (simp add: write_varint_big)
  next
    case False
    then show ?thesis by (simp add: write_varint_small)
  qed
qed

lemma length_write_varint_le_10: "length (write_varint v) \<le> 10"
proof -
  have "unat v < 2 ^ (7 * Suc 9)"
    by (rule less_le_trans [OF unat_lt_64]) simp
  from length_write_varint_le [OF this] show ?thesis by simp
qed

lemma write_varint_continuation:
  "write_varint v = p @ q \<Longrightarrow> q \<noteq> [] \<Longrightarrow> b \<in> set p \<Longrightarrow> 128 \<le> unat b"
proof (induction v arbitrary: p rule: write_varint.induct)
  case (1 v)
  show ?case
  proof (cases "128 \<le> unat v")
    case True
    then have g: "v \<ge> 0x80" by (simp add: word_le_nat_alt)
    from "1.prems"(3) obtain c p' where p: "p = c # p'" by (cases p) auto
    with "1.prems"(1) True have c: "c = (ucast v AND 0x7f) OR 0x80"
      and p': "write_varint (drop_bit 7 v) = p' @ q"
      by (simp_all add: write_varint_big)
    show ?thesis
    proof (cases "b = c")
      case True
      then show ?thesis by (simp add: c unat_continuation)
    next
      case False
      with "1.prems"(3) p have "b \<in> set p'" by simp
      with "1.IH" [OF g p' "1.prems"(2)] show ?thesis by blast
    qed
  next
    case False
    with "1.prems" show ?thesis by (auto simp: write_varint_small append_eq_Cons_conv Cons_eq_append_conv)
  qed
qed

lemma read_varint_loop_short:
  assumes "\<forall>b \<in> set p. 128 \<le> unat b" and "s + 7 * length p \<le> 63"
  shows "\<exists>w. read_varint_loop 64 p s n acc = (n + int (length p), w)"
  using assms
proof (induction p arbitrary: s n acc)
  case Nil
  then show ?case by simp
next
  case (Cons b p)
  have b: "128 \<le> unat b" using Cons.prems(1) by simp
  then have "b \<noteq> 0" "b AND 0x80 \<noteq> 0" by (auto simp: and_80_eq_0_iff)
  moreover have "\<not> s + 7 \<ge> 64" using Cons.prems(2) by simp
  moreover have "\<exists>w. read_varint_loop 64 p (s + 7) (n + 1) (acc OR push_bit s (ucast (b AND 0x7f))) =
      (n + 1 + int (length p), w)"
    using Cons.prems by (intro Cons.IH) simp_all
  ultimately show ?case by (simp add: Let_def add.assoc)
qed

lemma read_varint_consumed:
  assumes "read_varint bytes = (read, i)" and "0 \<le> read"
  obtains (short) "read = int (length bytes)" "\<forall>b \<in> set bytes. 128 \<le> unat b"
    | (full) "bytes = write_varint i @ drop (nat read) bytes" "read = int (length (write_varint i))"
proof -
  have "read_varint_loop 64 bytes 0 0 0 = (read, i)"
    using assms(1) by (simp add: read_varint_def)
  from read_varint_loop_cases [OF this assms(2)]
  consider "read = int (length bytes)" "\<forall>b \<in> set bytes. 128 \<le> unat b"
    | w rest where "bytes = write_varint w @ rest" "read = int (length (write_varint w))"
      "unat i = unat w"
    by auto
  then show thesis
  proof cases
    case 1
    then show thesis by (rule short)
  next
    case 2
    then have "i = w" by (simp add: word_unat_eq_iff)
    with 2 show thesis by (intro full) simp_all
  qed
qed

lemma read_varint_prefix:
  assumes "read_varint bytes = (read, i)" and "0 \<le> read" and "drop (nat read) bytes \<noteq> []"
  shows "bytes = write_varint i @ drop (nat read) bytes"
  by (rule read_varint_consumed [OF assms(1,2)]) (use assms(3) in simp_all)

section \<open>Properties\<close>

interpretation varint: codec "\<lambda>_. True" "\<lambda>i. Some (write_varint i)"
  "\<lambda>bytes. case read_varint bytes of (read, i) \<Rightarrow> if read \<le> 0 then None else Some i"
proof
  fix v e
  assume "Some (write_varint v) = Some e"
  then have e: "e = write_varint v" by simp
  show "(case read_varint e of (read, i) \<Rightarrow> if read \<le> 0 then None else Some i) = Some v"
    unfolding e using read_write_varint [of v "[]"] write_varint_nonempty [of v] by simp
qed simp

text \<open>
  C32: varints round-trip. Whatever follows the encoding, reading returns the number written and
  the count of its bytes, which is what the size function says and is at most ten.
\<close>

theorem varint_roundtrip:
  "read_varint (write_varint v @ rest) = (int (get_varint_byte_size v), v) \<and>
   0 < get_varint_byte_size v \<and> get_varint_byte_size v \<le> 10"
  using read_write_varint [of v rest] length_write_varint_le_10 [of v] write_varint_nonempty [of v]
  by (simp add: length_write_varint [symmetric])

text \<open>
  C33: no number has two encodings. A read that reports success consumed exactly the bytes the writer
  produces for the number it returns, or else it ran off the end of an input in which every byte
  announced a continuation.
\<close>

theorem read_varint_canonical:
  assumes "read_varint bytes = (read, i)" and "0 \<le> read"
  shows "bytes = write_varint i @ drop (nat read) bytes \<and> read = int (length (write_varint i)) \<or>
    read = int (length bytes) \<and> (\<forall>b \<in> set bytes. 128 \<le> unat b)"
  using read_varint_consumed [OF assms] by blast

theorem read_varint_canonical_witness:
  "read_varint [0xac, 0x02, 0x07] = (2, 300) \<and>
   [0xac, 0x02, 0x07] = write_varint 300 @ drop 2 [0xac, 0x02, 0x07]"
proof -
  have r: "read_varint [0xac, 0x02, 0x07] = (2, 300)"
    by (simp add: read_varint_def)
  with read_varint_canonical [of "[0xac, 0x02, 0x07]" 2 300] show ?thesis by simp
qed

text \<open>
  A truncated varint is not an error. Cut anywhere before its last byte, an encoding is read
  with the count of the bytes present, so the callers' test for a positive count accepts it.
\<close>

lemma read_varint_truncated:
  assumes "write_varint v = p @ q" and "p \<noteq> []" and "q \<noteq> []"
  shows "\<exists>i. read_varint p = (int (length p), i) \<and> 0 < int (length p)"
proof -
  have cont: "\<forall>b \<in> set p. 128 \<le> unat b"
    using write_varint_continuation [OF assms(1,3)] by blast
  have "length p + length q \<le> 10"
    using length_write_varint_le_10 [of v] assms(1) by simp
  moreover have "0 < length q" using assms(3) by simp
  ultimately have "0 + 7 * length p \<le> 63" by linarith
  from read_varint_loop_short [OF cont this, of 0 0] assms(2) show ?thesis
    by (simp add: read_varint_def)
qed

end
