(* ===== verification/Base58.thy ===== *)
theory Base58
  imports Int_Util Varint
begin

text \<open>
  The base-58 text encoding of addresses: \<open>common/base58.cpp\<close>. Data are cut into blocks of eight
  bytes, each written as eleven symbols, with a shorter last block. \<open>encode\<close> and \<open>decode\<close> are proved to
  be inverse to each other in both directions, so an encoded text has exactly one spelling, and the
  checksummed \<open>encode_addr\<close> and \<open>decode_addr\<close> inherit this. The hash function of the checksum is
  a parameter: what is used of it is that it returns at least four bytes.
\<close>

section \<open>Definitions\<close>

definition alphabet :: string where
  "alphabet = ''123456789ABCDEFGHJKLMNPQRSTUVWXYZabcdefghijkmnopqrstuvwxyz''"

definition alphabet_size :: nat where
  "alphabet_size = 58"

definition encoded_block_sizes :: "nat list" where
  "encoded_block_sizes = [0, 2, 3, 5, 6, 7, 9, 10, 11]"

definition full_block_size :: nat where
  "full_block_size = 8"

definition full_encoded_block_size :: nat where
  "full_encoded_block_size = 11"

definition addr_checksum_size :: nat where
  "addr_checksum_size = 4"

text \<open>The table of \<open>reverse_alphabet\<close>, from the first symbol to the last, and its lookup.\<close>

definition reverse_alphabet_data :: "int list" where
  "reverse_alphabet_data =
     fold (\<lambda>i m_data. m_data[of_char (alphabet ! i) - of_char (alphabet ! 0) := int i])
       [0..<alphabet_size]
       (replicate (of_char (alphabet ! (alphabet_size - 1)) - of_char (alphabet ! 0) + 1) (- 1))"

definition reverse_alphabet :: "char \<Rightarrow> int" where
  "reverse_alphabet letter =
     (if (of_char (alphabet ! 0) :: nat) \<le> of_char letter \<and>
         of_char letter - of_char (alphabet ! 0) < length reverse_alphabet_data
      then reverse_alphabet_data ! (of_char letter - of_char (alphabet ! 0)) else - 1)"

definition decoded_block_sizes_data :: "int list" where
  "decoded_block_sizes_data =
     fold (\<lambda>i m_data. m_data[encoded_block_sizes ! i := int i]) [0..<full_block_size + 1]
       (replicate (full_encoded_block_size + 1) (- 1))"

definition decoded_block_sizes :: "nat \<Rightarrow> int" where
  "decoded_block_sizes encoded_block_size = decoded_block_sizes_data ! encoded_block_size"

text \<open>Big-endian bytes to a word and back: the copies through \<open>SWAP64BE\<close>.\<close>

definition uint_8be_to_64 :: "u8 list \<Rightarrow> u64" where
  "uint_8be_to_64 data = foldl (\<lambda>res b. res * 256 + ucast b) 0 data"

definition uint_64_to_8be :: "u64 \<Rightarrow> nat \<Rightarrow> u8 list" where
  "uint_64_to_8be num sz = map (\<lambda>i. ucast (drop_bit (8 * i) num)) (rev [0..<sz])"

text \<open>
  The loop of \<open>encode_block\<close> over the output buffer, filled from its end. A write before the
  buffer has no defined result: \<open>None\<close>.
\<close>

function encode_block_loop :: "u64 \<Rightarrow> int \<Rightarrow> string \<Rightarrow> string option" where
  "encode_block_loop num i res =
     (if 0 < num
      then if i < 0 then None
           else encode_block_loop (num div 58) (i - 1) (res[nat i := alphabet ! unat (num mod 58)])
      else Some res)"
  by pat_completeness auto

termination
proof (relation "measure (\<lambda>(num, i, res). unat num)")
  fix num :: u64 and i :: int and res :: string
  assume "0 < num"
  then have "unat num div 58 < unat num" by (simp add: word_less_nat_alt)
  then show "((num div 58, i - 1, res[nat i := alphabet ! unat (num mod 58)]), num, i, res)
      \<in> measure (\<lambda>(num, i, res). unat num)"
    by (simp add: unat_div)
qed simp

declare encode_block_loop.simps [simp del]

definition encode_block :: "u8 list \<Rightarrow> string \<Rightarrow> string option" where
  "encode_block block res =
     encode_block_loop (uint_8be_to_64 block) (int (encoded_block_sizes ! length block) - 1) res"

text \<open>The loop of \<open>decode_block\<close>; the symbols come last to first.\<close>

fun decode_block_loop :: "string \<Rightarrow> u64 \<Rightarrow> u64 \<Rightarrow> u64 option" where
  "decode_block_loop [] res_num order = Some res_num"
| "decode_block_loop (c # cs) res_num order =
     (let digit = reverse_alphabet c
      in if digit < 0 then None
         else let (lo, product_hi) = mul128 order (word_of_int digit);
                  tmp = res_num + lo
              in if tmp < res_num \<or> product_hi \<noteq> 0 then None
                 else decode_block_loop cs tmp (order * 58))"

definition decode_block :: "string \<Rightarrow> u8 list option" where
  "decode_block block =
     (let res_size = decoded_block_sizes (length block)
      in if res_size \<le> 0 then None
         else Option.bind (decode_block_loop (rev block) 0 1) (\<lambda>res_num.
           if nat res_size < full_block_size \<and> push_bit (8 * nat res_size) 1 \<le> res_num then None
           else Some (uint_64_to_8be res_num (nat res_size))))"

text \<open>Blocks one after the other; the loop over full blocks and then the rest.\<close>

fun encode_blocks :: "u8 list \<Rightarrow> nat \<Rightarrow> string option" where
  "encode_blocks data 0 =
     (if 0 < length data
      then encode_block data (replicate (encoded_block_sizes ! length data) (alphabet ! 0))
      else Some [])"
| "encode_blocks data (Suc n) =
     Option.bind (encode_block (take full_block_size data)
         (replicate full_encoded_block_size (alphabet ! 0))) (\<lambda>res.
       map_option ((@) res) (encode_blocks (drop full_block_size data) n))"

definition encode :: "u8 list \<Rightarrow> string option" where
  "encode data = (if data = [] then Some [] else encode_blocks data (length data div full_block_size))"

fun decode_blocks :: "string \<Rightarrow> nat \<Rightarrow> u8 list option" where
  "decode_blocks enc 0 = (if 0 < length enc then decode_block enc else Some [])"
| "decode_blocks enc (Suc n) =
     Option.bind (decode_block (take full_encoded_block_size enc)) (\<lambda>data.
       map_option ((@) data) (decode_blocks (drop full_encoded_block_size enc) n))"

definition decode :: "string \<Rightarrow> u8 list option" where
  "decode enc =
     (if enc = [] then Some []
      else if decoded_block_sizes (length enc mod full_encoded_block_size) < 0 then None
      else decode_blocks enc (length enc div full_encoded_block_size))"

definition encode_addr :: "(u8 list \<Rightarrow> u8 list) \<Rightarrow> u64 \<Rightarrow> u8 list \<Rightarrow> string option" where
  "encode_addr cn_fast_hash tag data =
     (let buf = write_varint tag @ data
      in encode (buf @ take addr_checksum_size (cn_fast_hash buf)))"

definition decode_addr :: "(u8 list \<Rightarrow> u8 list) \<Rightarrow> string \<Rightarrow> (u64 \<times> u8 list) option" where
  "decode_addr cn_fast_hash addr =
     Option.bind (decode addr) (\<lambda>addr_data.
       if length addr_data \<le> addr_checksum_size then None
       else let checksum = drop (length addr_data - addr_checksum_size) addr_data;
                addr_data = take (length addr_data - addr_checksum_size) addr_data
            in if take addr_checksum_size (cn_fast_hash addr_data) \<noteq> checksum then None
               else let (read, tag) = read_varint addr_data
                    in if read \<le> 0 then None else Some (tag, drop (nat read) addr_data))"

text \<open>
  The reference: the \<open>k\<close> symbols of a number, most significant first, and the number that symbols
  stand for, least significant first.
\<close>

fun digits58 :: "nat \<Rightarrow> nat \<Rightarrow> string" where
  "digits58 0 n = []"
| "digits58 (Suc k) n = digits58 k (n div 58) @ [alphabet ! (n mod 58)]"

fun val58 :: "string \<Rightarrow> nat option" where
  "val58 [] = Some 0"
| "val58 (c # cs) =
     (if reverse_alphabet c < 0 then None
      else map_option (\<lambda>v. nat (reverse_alphabet c) + 58 * v) (val58 cs))"

abbreviation encode_one :: "u8 list \<Rightarrow> string option" where
  "encode_one block \<equiv> encode_block block (replicate (encoded_block_sizes ! length block) (alphabet ! 0))"

section \<open>Symbols\<close>

lemma reverse_alphabet_data_eq: "reverse_alphabet_data =
     [0, 1, 2, 3, 4, 5, 6, 7, 8, - 1, - 1, - 1, - 1, - 1, - 1, - 1, 9, 10, 11, 12, 13, 14, 15,
      16, - 1, 17, 18, 19, 20, 21, - 1, 22, 23, 24, 25, 26, 27, 28, 29, 30, 31, 32, - 1, - 1, -
      1, - 1, - 1, - 1, 33, 34, 35, 36, 37, 38, 39, 40, 41, 42, 43, - 1, 44, 45, 46, 47, 48, 49,
      50, 51, 52, 53, 54, 55, 56, 57]"
  by code_simp

lemma reverse_alphabet_data_length: "length reverse_alphabet_data = 74"
  by (simp add: reverse_alphabet_data_eq)

lemma alphabet_0: "alphabet ! 0 = CHR ''1''"
  by (simp add: alphabet_def)

lemma alphabet_reverse_table:
  "list_all (\<lambda>i. reverse_alphabet (alphabet ! i) = int i) [0..<58]"
  unfolding reverse_alphabet_def alphabet_0 reverse_alphabet_data_eq by code_simp

lemma reverse_alphabet_table:
  "list_all (\<lambda>j. reverse_alphabet_data ! j < 0 \<or>
     nat (reverse_alphabet_data ! j) < 58 \<and>
     of_char (alphabet ! nat (reverse_alphabet_data ! j)) = j + 49) [0..<74]"
  unfolding reverse_alphabet_data_eq by code_simp

lemma reverse_alphabet_alphabet: "i < 58 \<Longrightarrow> reverse_alphabet (alphabet ! i) = int i"
  using alphabet_reverse_table unfolding list_all_iff by simp

lemma reverse_alphabet_nonneg:
  assumes "\<not> reverse_alphabet c < 0"
  shows "nat (reverse_alphabet c) < 58 \<and> alphabet ! nat (reverse_alphabet c) = c"
proof -
  let ?j = "of_char c - 49 :: nat"
  have r: "reverse_alphabet c = reverse_alphabet_data ! ?j" and j: "?j < 74" "49 \<le> (of_char c :: nat)"
    using assms unfolding reverse_alphabet_def alphabet_0 reverse_alphabet_data_length
    by (simp_all split: if_splits)
  have "?j \<in> set [0..<74]" using j(1) by simp
  then have "nat (reverse_alphabet c) < 58 \<and>
      of_char (alphabet ! nat (reverse_alphabet c)) = ?j + 49"
    using reverse_alphabet_table assms unfolding list_all_iff r by blast
  then show ?thesis using j(2) by simp
qed

section \<open>Numbers in base 58\<close>

lemma length_digits58 [simp]: "length (digits58 k n) = k"
  by (induction k arbitrary: n) simp_all

lemma digits58_zero: "digits58 k 0 = replicate k (alphabet ! 0)"
  by (induction k) (simp_all add: replicate_append_same)

lemma val58_digits58: "n < 58 ^ k \<Longrightarrow> val58 (rev (digits58 k n)) = Some n"
proof (induction k arbitrary: n)
  case (Suc k)
  then have "n div 58 < 58 ^ k" by (simp add: less_mult_imp_div_less mult.commute)
  from Suc.IH [OF this] show ?case
    by (simp add: reverse_alphabet_alphabet)
qed simp

lemma digits58_val58: "val58 cs = Some v \<Longrightarrow> rev cs = digits58 (length cs) v"
proof (induction cs arbitrary: v)
  case (Cons c cs)
  then obtain w where c: "\<not> reverse_alphabet c < 0" and w: "val58 cs = Some w"
    and v: "v = nat (reverse_alphabet c) + 58 * w"
    by (auto split: if_splits)
  have "v div 58 = w" "v mod 58 = nat (reverse_alphabet c)"
    using reverse_alphabet_nonneg [OF c] v by simp_all
  then show ?case
    using Cons.IH [OF w] reverse_alphabet_nonneg [OF c] by simp
qed simp

lemma val58_less: "val58 cs = Some v \<Longrightarrow> v < 58 ^ length cs"
proof (induction cs arbitrary: v)
  case (Cons c cs)
  then obtain w where c: "\<not> reverse_alphabet c < 0" and w: "val58 cs = Some w"
    and v: "v = nat (reverse_alphabet c) + 58 * w"
    by (auto split: if_splits)
  then show ?case
    using Cons.IH [OF w] reverse_alphabet_nonneg [OF c] by simp
qed simp

section \<open>The loops over a block\<close>

lemma list_update_replicate_end:
  "(replicate (Suc k) a @ suf)[k := c] = replicate k a @ c # suf"
  by (induction k) simp_all

lemma encode_block_loop_digits58:
  "unat num < 58 ^ k \<Longrightarrow>
   encode_block_loop num (int k - 1) (replicate k (alphabet ! 0) @ suf) = Some (digits58 k (unat num) @ suf)"
proof (induction k arbitrary: num suf)
  case 0
  then have "num = 0" by (simp add: unat_eq_0)
  then show ?case by (simp add: encode_block_loop.simps)
next
  case (Suc k)
  show ?case
  proof (cases "num = 0")
    case True
    then show ?thesis by (simp add: encode_block_loop.simps digits58_zero del: replicate.simps digits58.simps)
  next
    case False
    let ?c = "alphabet ! unat (num mod 58)"
    have "unat num div 58 < 58 ^ k" using Suc.prems by (simp add: less_mult_imp_div_less mult.commute)
    then have lt: "unat (num div 58) < 58 ^ k" by (simp add: unat_div)
    have upd: "(replicate (Suc k) (alphabet ! 0) @ suf)[k := ?c] = replicate k (alphabet ! 0) @ (?c # suf)"
      by (rule list_update_replicate_end)
    have "encode_block_loop num (int (Suc k) - 1) (replicate (Suc k) (alphabet ! 0) @ suf) =
        encode_block_loop (num div 58) (int k - 1) (replicate k (alphabet ! 0) @ (?c # suf))"
      using False upd by (subst encode_block_loop.simps) (simp add: word_neq_0_conv del: replicate.simps)
    also have "\<dots> = Some (digits58 (Suc k) (unat num) @ suf)"
      using Suc.IH [OF lt] by (simp add: unat_div unat_mod)
    finally show ?thesis .
  qed
qed

lemma unat_order58:
  assumes "j \<le> 10"
  shows "unat ((58 :: u64) ^ j) = 58 ^ j"
proof -
  have "(58 :: nat) ^ j \<le> 58 ^ 10" using assms by (intro power_increasing) simp_all
  then have "(58 :: nat) ^ j < 2 ^ 64" by simp
  moreover have "(58 :: u64) ^ j = of_nat (58 ^ j)" by simp
  ultimately show ?thesis by (simp only: unat_of_nat) simp
qed

lemma unat_digit58:
  assumes "\<not> d < 0" and "nat d < 58"
  shows "unat (word_of_int d :: u64) = nat d"
proof -
  have "word_of_int d = (of_nat (nat d) :: u64)" using assms(1) by simp
  then show ?thesis using assms(2) by (simp only: unat_of_nat) simp
qed

lemma mul128_add_overflow:
  assumes "mul128 x y = (lo, hi)"
  shows "r + lo < r \<or> hi \<noteq> 0 \<longleftrightarrow> 2 ^ 64 \<le> unat r + unat x * unat y"
    and "\<not> (r + lo < r \<or> hi \<noteq> 0) \<Longrightarrow> unat (r + lo) = unat r + unat x * unat y"
proof -
  have p: "dwords hi lo = unat x * unat y" using mul128_product [of x y] assms by simp
  have w: "r + lo < r \<longleftrightarrow> 2 ^ 64 \<le> unat r + unat lo" using add_wraps_iff [of r lo] by simp
  have z: "hi = 0 \<longleftrightarrow> unat hi = 0" by (simp add: unat_eq_0)
  show "r + lo < r \<or> hi \<noteq> 0 \<longleftrightarrow> 2 ^ 64 \<le> unat r + unat x * unat y"
  proof (cases "unat hi = 0")
    case True
    then show ?thesis using p w z by simp
  next
    case False
    then have "18446744073709551616 \<le> unat hi * 18446744073709551616" by simp
    then show ?thesis using p z False by simp
  qed
  assume n: "\<not> (r + lo < r \<or> hi \<noteq> 0)"
  then have "unat r + unat lo < 2 ^ LENGTH(64)" using w by simp
  then have "unat (r + lo) = unat r + unat lo" by (rule unat_add_no_overflow)
  then show "unat (r + lo) = unat r + unat x * unat y" using p n by simp
qed

lemma decode_block_loop_val58:
  "length cs + j \<le> 11 \<Longrightarrow>
   decode_block_loop cs r (58 ^ j) =
     Option.bind (val58 cs) (\<lambda>v. if unat r + 58 ^ j * v < 2 ^ 64 then Some (r + of_nat (58 ^ j * v)) else None)"
proof (induction cs arbitrary: r j)
  case Nil
  then show ?case by simp
next
  case (Cons c cs)
  show ?case
  proof (cases "reverse_alphabet c < 0")
    case True
    then show ?thesis by simp
  next
    case False
    let ?d = "nat (reverse_alphabet c)"
    obtain lo hi where m: "mul128 (58 ^ j) (word_of_int (reverse_alphabet c)) = (lo, hi)"
      by (cases "mul128 (58 ^ j) (word_of_int (reverse_alphabet c))")
    have j: "j \<le> 10" "length cs + Suc j \<le> 11" using Cons.prems by simp_all
    have d: "unat (word_of_int (reverse_alphabet c) :: u64) = ?d"
      using False reverse_alphabet_nonneg [OF False] by (intro unat_digit58) simp_all
    note ov = mul128_add_overflow [OF m, of r, unfolded d unat_order58 [OF j(1)]]
    show ?thesis
    proof (cases "r + lo < r \<or> hi \<noteq> 0")
      case True
      then have big: "2 ^ 64 \<le> unat r + 58 ^ j * ?d" using ov(1) by blast
      have "\<not> unat r + 58 ^ j * (?d + 58 * v) < 2 ^ 64" for v
        unfolding add_mult_distrib2 using big by linarith
      then show ?thesis using True False m by (auto simp: Let_def split: Option.bind_splits)
    next
      case n: False
      have "decode_block_loop (c # cs) r (58 ^ j) = decode_block_loop cs (r + lo) (58 ^ Suc j)"
        using n False m by (simp add: Let_def mult.commute)
      also have "\<dots> = Option.bind (val58 cs) (\<lambda>v. if unat (r + lo) + 58 ^ Suc j * v < 2 ^ 64
          then Some (r + lo + of_nat (58 ^ Suc j * v)) else None)"
        by (rule Cons.IH [OF j(2)])
      also have "\<dots> = Option.bind (val58 (c # cs))
          (\<lambda>v. if unat r + 58 ^ j * v < 2 ^ 64 then Some (r + of_nat (58 ^ j * v)) else None)"
      proof -
        have e1: "unat r + 58 ^ j * ?d + 58 ^ Suc j * v = unat r + 58 ^ j * (?d + 58 * v)" for v
          by (simp add: algebra_simps)
        have e2: "r + lo + of_nat (58 ^ Suc j * v) = r + of_nat (58 ^ j * (?d + 58 * v))" for v
        proof -
          have "r + lo = of_nat (unat (r + lo))" by simp
          also have "\<dots> = of_nat (unat r + 58 ^ j * ?d)" by (simp only: ov(2) [OF n])
          finally show ?thesis by (simp add: algebra_simps)
        qed
        show ?thesis
          by (cases "val58 cs") (simp_all only: val58.simps False if_False option.map
            Option.bind.simps ov(2) [OF n] e1 e2)
      qed
      finally show ?thesis .
    qed
  qed
qed

section \<open>Bytes of a block\<close>

lemma uint_8be_to_64_Nil [simp]: "uint_8be_to_64 [] = 0"
  by (simp add: uint_8be_to_64_def)

lemma uint_8be_to_64_snoc: "uint_8be_to_64 (bs @ [b]) = uint_8be_to_64 bs * 256 + ucast b"
  by (simp add: uint_8be_to_64_def)

lemma length_uint_64_to_8be [simp]: "length (uint_64_to_8be num n) = n"
  by (simp add: uint_64_to_8be_def)

lemma uint_64_to_8be_Suc:
  "uint_64_to_8be num (Suc n) = uint_64_to_8be (drop_bit 8 num) n @ [ucast num]"
proof -
  have "[0..<Suc n] = 0 # map Suc [0..<n]"
    by (simp add: map_Suc_upt upt_conv_Cons del: upt_Suc)
  then show ?thesis
    unfolding uint_64_to_8be_def by (simp add: rev_map add.commute del: upt_Suc)
qed

lemma pow256: "(256 :: nat) ^ n = 2 ^ (8 * n)"
  by (simp add: power_mult)

lemma unat_uint_8be_to_64_snoc:
  assumes "length bs < 8" and "unat (uint_8be_to_64 bs) < 256 ^ length bs"
  shows "unat (uint_8be_to_64 (bs @ [b])) = unat (uint_8be_to_64 bs) * 256 + unat b"
proof -
  have "(256 :: nat) ^ length bs \<le> 256 ^ 7" using assms(1) by (intro power_increasing) simp_all
  then have lt: "unat (uint_8be_to_64 bs) * 256 < 18446744073709551361"
    using assms(2) by simp
  have m: "unat (uint_8be_to_64 bs * 256) = unat (uint_8be_to_64 bs) * 256"
    using lt by (subst unat_mult_no_overflow) simp_all
  have u: "unat (ucast b :: u64) = unat b" by (rule unat_ucast_up) simp
  have "unat (uint_8be_to_64 bs) * 256 + unat b < 18446744073709551616"
    using lt unat_lt_8 [of b] by linarith
  then have "unat (uint_8be_to_64 bs) * 256 + unat b < 2 ^ LENGTH(64)" by simp
  then show ?thesis
    unfolding uint_8be_to_64_snoc by (subst unat_add_no_overflow) (simp_all only: m u)
qed

lemma uint_8be_to_64_less:
  "length bs \<le> 8 \<Longrightarrow> unat (uint_8be_to_64 bs) < 256 ^ length bs"
proof (induction bs rule: rev_induct)
  case (snoc b bs)
  then have IH: "unat (uint_8be_to_64 bs) < 256 ^ length bs" by simp
  have "unat (uint_8be_to_64 (bs @ [b])) = unat (uint_8be_to_64 bs) * 256 + unat b"
    using snoc.prems IH by (intro unat_uint_8be_to_64_snoc) simp_all
  moreover have "(unat (uint_8be_to_64 bs) + 1) * 256 \<le> 256 ^ length bs * 256"
    using IH by (intro mult_right_mono) simp_all
  then have "unat (uint_8be_to_64 bs) * 256 + 256 \<le> 256 ^ length bs * 256"
    by (simp only: add_mult_distrib mult_1)
  ultimately have "unat (uint_8be_to_64 (bs @ [b])) < 256 ^ length bs * 256"
    using unat_lt_8 [of b] by linarith
  then show ?case by (simp only: length_append length_Cons list.size add_0 add_Suc_right power_Suc2 add_0_right)
qed simp

lemma uint_64_to_8be_to_64: "length bs \<le> 8 \<Longrightarrow> uint_64_to_8be (uint_8be_to_64 bs) (length bs) = bs"
proof (induction bs rule: rev_induct)
  case (snoc b bs)
  let ?n = "uint_8be_to_64 (bs @ [b])"
  have n: "unat ?n = unat (uint_8be_to_64 bs) * 256 + unat b"
    using snoc.prems by (intro unat_uint_8be_to_64_snoc uint_8be_to_64_less) simp_all
  have "unat (drop_bit 8 ?n) = unat (uint_8be_to_64 bs)"
    unfolding unat_drop_bit n by simp
  then have h: "drop_bit 8 ?n = uint_8be_to_64 bs" by (simp only: word_unat_eq_iff)
  have "unat (ucast ?n :: u8) = unat b"
    unfolding unsigned_ucast_eq take_bit_eq_mod n by simp
  then have t: "ucast ?n = b" by (simp only: word_unat_eq_iff)
  show ?case using snoc by (simp add: uint_64_to_8be_Suc h t)
qed (simp add: uint_64_to_8be_def)

lemma uint_8be_to_64_to_8be:
  "n \<le> 8 \<Longrightarrow> unat num < 256 ^ n \<Longrightarrow> uint_8be_to_64 (uint_64_to_8be num n) = num"
proof (induction n arbitrary: num)
  case 0
  then show ?case by (simp add: uint_64_to_8be_def unat_eq_0)
next
  case (Suc n)
  have "unat num div 256 < 256 ^ n"
    using Suc.prems(2) by (simp add: less_mult_imp_div_less mult.commute)
  then have "unat (drop_bit 8 num) < 256 ^ n" by (simp only: unat_drop_bit) simp
  then have IH: "uint_8be_to_64 (uint_64_to_8be (drop_bit 8 num) n) = drop_bit 8 num"
    using Suc by simp
  have "unat (uint_8be_to_64 (uint_64_to_8be num (Suc n))) = unat num div 2 ^ 8 * 256 + unat (ucast num :: u8)"
    unfolding uint_64_to_8be_Suc unat_drop_bit [symmetric]
    by (subst unat_uint_8be_to_64_snoc) (use Suc.prems(1) \<open>unat (drop_bit 8 num) < 256 ^ n\<close> IH in simp_all)
  also have "\<dots> = unat num"
    unfolding unsigned_ucast_eq take_bit_eq_mod by simp
  finally show ?case by (simp only: word_unat_eq_iff)
qed

section \<open>One block\<close>

lemma decoded_block_sizes_data_eq:
  "decoded_block_sizes_data = [0, - 1, 1, 2, - 1, 3, 4, 5, - 1, 6, 7, 8]"
  by code_simp

text \<open>The sizes of a block and of its encoding determine each other, and the encoding has room.\<close>

lemma encoded_size_cases:
  assumes "n \<le> 8"
  shows "decoded_block_sizes (encoded_block_sizes ! n) = int n \<and> encoded_block_sizes ! n \<le> 11 \<and>
    256 ^ n \<le> (58 :: nat) ^ (encoded_block_sizes ! n)"
proof -
  have "n = 0 \<or> n = 1 \<or> n = 2 \<or> n = 3 \<or> n = 4 \<or> n = 5 \<or> n = 6 \<or> n = 7 \<or> n = 8"
    using assms by linarith
  then show ?thesis
    by (elim disjE) (simp_all add: decoded_block_sizes_def decoded_block_sizes_data_eq encoded_block_sizes_def)
qed

lemma decoded_size_cases:
  assumes "m \<le> 11" and "\<not> decoded_block_sizes m < 0"
  shows "nat (decoded_block_sizes m) \<le> 8 \<and> encoded_block_sizes ! nat (decoded_block_sizes m) = m"
proof -
  have "list_all (\<lambda>m. decoded_block_sizes m < 0 \<or> nat (decoded_block_sizes m) \<le> 8 \<and>
      encoded_block_sizes ! nat (decoded_block_sizes m) = m) [0..<12]"
    unfolding decoded_block_sizes_def decoded_block_sizes_data_eq by code_simp
  moreover have "m \<in> set [0..<12]" using assms(1) by simp
  ultimately show ?thesis using assms(2) unfolding list_all_iff by blast
qed

lemma encode_one_digits58:
  assumes "length block \<le> 8"
  shows "encode_one block =
    Some (digits58 (encoded_block_sizes ! length block) (unat (uint_8be_to_64 block)))"
proof -
  have "unat (uint_8be_to_64 block) < 58 ^ (encoded_block_sizes ! length block)"
    using uint_8be_to_64_less [OF assms] encoded_size_cases [OF assms] by linarith
  from encode_block_loop_digits58 [OF this, of "[]"] show ?thesis
    by (simp add: encode_block_def)
qed

lemma decode_block_eq:
  assumes "length s \<le> 11"
  shows "decode_block s =
    (let n = decoded_block_sizes (length s)
     in if n \<le> 0 then None
        else Option.bind (val58 (rev s)) (\<lambda>v.
          if v < 2 ^ 64 \<and> v < 256 ^ nat n then Some (uint_64_to_8be (of_nat v) (nat n)) else None))"
proof (cases "decoded_block_sizes (length s) \<le> 0")
  case True
  then show ?thesis by (simp add: decode_block_def)
next
  case False
  let ?n = "nat (decoded_block_sizes (length s))"
  have n8: "?n \<le> 8" using decoded_size_cases [OF assms] False by simp
  have guard: "?n < full_block_size \<and> push_bit (8 * ?n) 1 \<le> (of_nat v :: u64) \<longleftrightarrow> \<not> v < 256 ^ ?n"
    if "v < 2 ^ 64" for v
  proof -
    have v: "unat (of_nat v :: u64) = v" using that unfolding unat_of_nat by simp
    show ?thesis
    proof (cases "?n = 8")
      case True
      then show ?thesis using that by (simp add: full_block_size_def)
    next
      case less: False
      then have "8 * ?n < 64" using n8 by linarith
      then have "(2 :: nat) ^ (8 * ?n) < 2 ^ 64" by (intro power_strict_increasing) simp_all
      then have "unat (push_bit (8 * ?n) 1 :: u64) = 2 ^ (8 * ?n)"
        using unat_or_push_bit [of "0 :: u64" "8 * ?n" 1] by simp
      then show ?thesis
        using less n8 by (simp add: word_le_nat_alt v pow256 full_block_size_def not_less)
    qed
  qed
  have "decode_block_loop (rev s) 0 1 =
      Option.bind (val58 (rev s)) (\<lambda>v. if v < 2 ^ 64 then Some (of_nat v) else None)"
    using decode_block_loop_val58 [of "rev s" 0 0] assms by (simp cong: if_cong)
  then show ?thesis
    using False guard by (cases "val58 (rev s)") (simp_all add: decode_block_def Let_def)
qed

lemma decode_encode_one:
  assumes "length block \<le> 8" and "block \<noteq> []" and "encode_one block = Some s"
  shows "decode_block s = Some block"
proof -
  have s: "s = digits58 (encoded_block_sizes ! length block) (unat (uint_8be_to_64 block))"
    using assms(3) encode_one_digits58 [OF assms(1)] by simp
  note sz = encoded_size_cases [OF assms(1)] and lt = uint_8be_to_64_less [OF assms(1)]
  have "val58 (rev s) = Some (unat (uint_8be_to_64 block))"
    unfolding s using sz lt by (intro val58_digits58) linarith
  then show ?thesis
    using s sz lt assms(1,2) uint_64_to_8be_to_64 [OF assms(1)] unat_lt_64 [of "uint_8be_to_64 block"]
    by (simp add: decode_block_eq Let_def)
qed

lemma encode_decode_one:
  assumes "length s \<le> 11" and "decode_block s = Some block"
  shows "0 < length block \<and> length block \<le> 8 \<and> encoded_block_sizes ! length block = length s \<and>
    encode_one block = Some s"
proof -
  let ?n = "nat (decoded_block_sizes (length s))"
  from assms(2) obtain v where pos: "\<not> decoded_block_sizes (length s) \<le> 0"
    and v: "val58 (rev s) = Some v" "v < 2 ^ 64" "v < 256 ^ ?n"
    and b: "block = uint_64_to_8be (of_nat v) ?n"
    unfolding decode_block_eq [OF assms(1)] Let_def
    by (auto split: if_splits Option.bind_splits)
  have sz: "?n \<le> 8" "encoded_block_sizes ! ?n = length s"
    using decoded_size_cases [OF assms(1)] pos by simp_all
  have "unat (of_nat v :: u64) = v" using v(2) unfolding unat_of_nat by simp
  then have "unat (uint_8be_to_64 block) = v"
    using sz(1) v(3) b by (simp add: uint_8be_to_64_to_8be)
  moreover have "s = digits58 (length s) v" using digits58_val58 [OF v(1)] by simp
  ultimately show ?thesis
    using encode_one_digits58 [of block] sz b pos by simp
qed

section \<open>Sequences of blocks\<close>

lemma encoded_block_sizes_8: "encoded_block_sizes ! 8 = 11"
  by (simp add: encoded_block_sizes_def)

lemma encoded_block_sizes_lt: "n < 8 \<Longrightarrow> encoded_block_sizes ! n < 11"
proof -
  assume "n < 8"
  then have "n = 0 \<or> n = 1 \<or> n = 2 \<or> n = 3 \<or> n = 4 \<or> n = 5 \<or> n = 6 \<or> n = 7" by linarith
  then show ?thesis by (elim disjE) (simp_all add: encoded_block_sizes_def)
qed

lemma encoded_block_sizes_pos: "0 < n \<Longrightarrow> n \<le> 8 \<Longrightarrow> 0 < encoded_block_sizes ! n"
proof -
  assume "0 < n" "n \<le> 8"
  then have "n = 1 \<or> n = 2 \<or> n = 3 \<or> n = 4 \<or> n = 5 \<or> n = 6 \<or> n = 7 \<or> n = 8" by linarith
  then show ?thesis by (elim disjE) (simp_all add: encoded_block_sizes_def)
qed

lemma decode_encode_blocks:
  "length data div 8 = n \<Longrightarrow>
   \<exists>e. encode_blocks data n = Some e \<and> decode_blocks e n = Some data \<and>
     length e = 11 * n + encoded_block_sizes ! (length data mod 8)"
proof (induction n arbitrary: data)
  case 0
  then have len: "length data \<le> 8" "length data mod 8 = length data" by (simp_all add: div_eq_0_iff)
  show ?case
  proof (cases "data = []")
    case True
    then show ?thesis by (simp add: encoded_block_sizes_def)
  next
    case False
    let ?e = "digits58 (encoded_block_sizes ! length data) (unat (uint_8be_to_64 data))"
    have e: "encode_one data = Some ?e" by (rule encode_one_digits58 [OF len(1)])
    have "decode_block ?e = Some data" by (rule decode_encode_one [OF len(1) False e])
    moreover have "0 < encoded_block_sizes ! length data"
      using encoded_block_sizes_pos [of "length data"] len(1) False by simp
    ultimately show ?thesis using e False len(2) by (intro exI [of _ ?e]) (simp del: length_greater_0_conv)
  qed
next
  case (Suc n)
  let ?b = "take 8 data" and ?r = "drop 8 data"
  have ge: "8 \<le> length data" using Suc.prems by (intro leI notI) simp
  have r: "length ?r div 8 = n" "length ?r mod 8 = length data mod 8"
    using Suc.prems ge by (simp_all add: le_div_geq le_mod_geq)
  obtain e where e: "encode_blocks ?r n = Some e" "decode_blocks e n = Some ?r"
      "length e = 11 * n + encoded_block_sizes ! (length data mod 8)"
    using Suc.IH [OF r(1)] unfolding r(2) by blast
  have lb: "length ?b = 8" "?b \<noteq> []" using ge by auto
  let ?s = "digits58 11 (unat (uint_8be_to_64 ?b))"
  have b: "encode_one ?b = Some ?s"
    using encode_one_digits58 [of ?b] lb(1) by (simp add: encoded_block_sizes_8 del: length_take)
  then have d: "decode_block ?s = Some ?b"
    using lb by (intro decode_encode_one) (simp_all del: length_take)
  have "encode_blocks data (Suc n) = Some (?s @ e)"
    using b e(1) unfolding lb(1) encoded_block_sizes_8
    by (simp add: full_block_size_def full_encoded_block_size_def)
  moreover have "decode_blocks (?s @ e) (Suc n) = Some data"
    using d e(2) by (simp add: full_encoded_block_size_def)
  ultimately show ?case using e(3) by (intro exI [of _ "?s @ e"]) simp
qed

lemma encode_decode_blocks:
  "length e div 11 = n \<Longrightarrow> decode_blocks e n = Some data \<Longrightarrow>
   length data div 8 = n \<and> encode_blocks data n = Some e"
proof (induction n arbitrary: e data)
  case 0
  then have le: "length e < 11" by (simp add: div_eq_0_iff)
  show ?case
  proof (cases "e = []")
    case True
    then show ?thesis using "0.prems"(2) by simp
  next
    case False
    then have "decode_block e = Some data" using "0.prems"(2) by simp
    with encode_decode_one [of e data] le
    have o: "0 < length data" "length data \<le> 8" "encoded_block_sizes ! length data = length e"
      "encode_one data = Some e" by (blast intro: less_imp_le)+
    then have "length data < 8" using le encoded_block_sizes_8
      by (metis le_neq_implies_less less_irrefl)
    then show ?thesis using o by simp
  qed
next
  case (Suc n)
  let ?b = "take 11 e" and ?r = "drop 11 e"
  have ge: "11 \<le> length e" using Suc.prems(1) by (intro leI notI) simp
  have r: "length ?r div 11 = n" using Suc.prems(1) ge by (simp add: le_div_geq)
  from Suc.prems(2) obtain d1 d2 where d: "decode_block ?b = Some d1" "decode_blocks ?r n = Some d2"
      "data = d1 @ d2"
    by (auto simp: full_encoded_block_size_def split: Option.bind_splits)
  have lb: "length ?b = 11" using ge by simp
  have "length ?b \<le> 11" by simp
  note o = encode_decode_one [OF this d(1), unfolded lb, THEN conjunct2]
  have l8: "length d1 = 8"
    using o encoded_block_sizes_lt [of "length d1"] by (metis le_neq_implies_less less_irrefl)
  note IH = Suc.IH [OF r d(2)]
  have "encode_blocks data (Suc n) = Some (?b @ ?r)"
    using o IH d(3)
    by (simp add: l8 encoded_block_sizes_8 full_block_size_def full_encoded_block_size_def del: append_take_drop_id)
  moreover have "length data div 8 = Suc n" using IH d(3) by (simp add: l8 le_div_geq)
  ultimately show ?case by (simp only: append_take_drop_id simp_thms)
qed

lemma encode_eq: "encode data = encode_blocks data (length data div 8)"
  by (simp add: encode_def full_block_size_def)

lemma decode_encode:
  assumes "encode data = Some e"
  shows "decode e = Some data"
proof -
  obtain e' where e: "encode_blocks data (length data div 8) = Some e'"
      "decode_blocks e' (length data div 8) = Some data"
      "length e' = 11 * (length data div 8) + encoded_block_sizes ! (length data mod 8)"
    using decode_encode_blocks [OF refl] by blast
  have ee: "e' = e" using e(1) assms encode_eq by simp
  let ?k = "length data mod 8"
  have lt: "encoded_block_sizes ! ?k < 11" by (rule encoded_block_sizes_lt) simp
  then have "length e div 11 = length data div 8" "length e mod 11 = encoded_block_sizes ! ?k"
    using e(3) ee by simp_all
  moreover have "decoded_block_sizes (encoded_block_sizes ! ?k) = int ?k"
    using encoded_size_cases [of ?k] by simp
  ultimately show ?thesis
    using e(2) ee by (cases "e = []") (simp_all add: decode_def full_encoded_block_size_def)
qed

lemma encode_decode:
  assumes "decode e = Some data"
  shows "encode data = Some e"
proof (cases "e = []")
  case True
  then show ?thesis using assms by (simp add: decode_def encode_def)
next
  case False
  then have "decode_blocks e (length e div 11) = Some data"
    using assms by (simp add: decode_def full_encoded_block_size_def split: if_splits)
  from encode_decode_blocks [OF refl this] show ?thesis by (simp add: encode_eq)
qed

lemma encode_total: "\<exists>e. encode data = Some e \<and>
    length e = 11 * (length data div 8) + encoded_block_sizes ! (length data mod 8)"
  using decode_encode_blocks [OF refl, of data] by (auto simp: encode_eq)

interpretation base58: canonical_codec "\<lambda>_. True" encode decode
  by unfold_locales (use encode_total decode_encode encode_decode in blast)+

section \<open>Properties\<close>

text \<open>
  C11: base 58 is total and invertible. Every byte string encodes without a write outside the
  output buffer, to the length the code reserves, and decodes to itself.
\<close>

theorem base58_roundtrip:
  "\<exists>e. encode data = Some e \<and> decode e = Some data \<and>
     length e = 11 * (length data div 8) + encoded_block_sizes ! (length data mod 8)"
  using encode_total [of data] base58.dec_enc [OF TrueI] by blast

text \<open>
  C5: base 58 has one spelling per value. A text that decodes is the encoding of what it decodes to,
  so the overflow checks of \<open>decode_block\<close> reject every other text.
\<close>

theorem base58_canonical:
  "decode e = Some data \<longleftrightarrow> encode data = Some e"
  using base58.dec_eq_Some_iff [of e data] by simp

text \<open>
  Addresses. For a hash of at least four bytes, an encoded address decodes to its tag
  and payload.
\<close>

lemma addr_roundtrip:
  assumes "\<And>bytes. 4 \<le> length (cn_fast_hash bytes)"
  shows "\<exists>a. encode_addr cn_fast_hash tag data = Some a \<and> decode_addr cn_fast_hash a = Some (tag, data)"
proof -
  let ?buf = "write_varint tag @ data"
  let ?sum = "take addr_checksum_size (cn_fast_hash ?buf)"
  have l: "length ?sum = addr_checksum_size" using assms [of ?buf] by (simp add: addr_checksum_size_def)
  obtain a where a: "encode (?buf @ ?sum) = Some a" using encode_total by blast
  have "decode a = Some (?buf @ ?sum)" by (rule decode_encode [OF a])
  moreover have "0 < length (write_varint tag)" using write_varint_nonempty [of tag] by simp
  ultimately have "decode_addr cn_fast_hash a = Some (tag, data)"
    unfolding decode_addr_def using l read_write_varint [of tag data]
    by (simp add: Let_def del: length_take)
  then show ?thesis using a by (simp add: encode_addr_def Let_def)
qed

text \<open>
  An address has one spelling. Whatever the hash, a text accepted as an address with a
  nonempty payload is exactly what \<open>encode_addr\<close> produces for its tag and payload; in particular its
  checksum is the hash of the rest.
\<close>

lemma addr_canonical:
  assumes "decode_addr cn_fast_hash a = Some (tag, data)" and "data \<noteq> []"
  shows "encode_addr cn_fast_hash tag data = Some a"
proof -
  from assms(1) obtain bytes where d: "decode a = Some bytes" and l: "addr_checksum_size < length bytes"
    and rest: "decode_addr cn_fast_hash a = Some (tag, data)"
    by (auto simp: decode_addr_def split: Option.bind_splits if_splits)
  let ?m = "length bytes - addr_checksum_size"
  let ?buf = "take ?m bytes" and ?sum = "drop ?m bytes"
  obtain rd i where rv: "read_varint ?buf = (rd, i)" by (cases "read_varint ?buf")
  have c: "take addr_checksum_size (cn_fast_hash ?buf) = ?sum" and p: "0 < rd" "i = tag"
    and dr: "data = drop (nat rd) ?buf"
    using assms(1) d l rv by (auto simp: decode_addr_def Let_def split: if_splits)
  have "?buf = write_varint tag @ data"
    using read_varint_prefix [OF rv] p dr assms(2) by simp
  then have "encode_addr cn_fast_hash tag data = encode (?buf @ ?sum)"
    using c by (simp add: encode_addr_def Let_def)
  also have "\<dots> = Some a" using encode_decode [OF d] by simp
  finally show ?thesis .
qed

end
