(* ===== verification/Hardfork.thy ===== *)
theory Hardfork
  imports Config
begin

text \<open>
  Hard forks: the schedules of \<open>hardforks/hardforks.cpp\<close>, the voting object of
  \<open>cryptonote_basic/hardfork.cpp\<close> and the places where \<open>blockchain_db.cpp\<close> and \<open>blockchain.cpp\<close>
  drive it. The object holds the database by reference; here the database is a field, with what the
  object uses of it: the headers of the stored blocks and the version recorded for each height.
  An exception of the database and an access outside a container are \<open>None\<close>.
\<close>

section \<open>Definitions\<close>

subsection \<open>Schedules\<close>

record hardfork_t =
  hf_version :: u8
  hf_height :: u64
  hf_threshold :: u8
  hf_time :: int

definition hardfork :: "u8 \<Rightarrow> u64 \<Rightarrow> u8 \<Rightarrow> int \<Rightarrow> hardfork_t" where
  "hardfork v h threshold t = \<lparr>hf_version = v, hf_height = h, hf_threshold = threshold, hf_time = t\<rparr>"

definition mainnet_hard_forks :: "hardfork_t list" where
  "mainnet_hard_forks =
    [hardfork 1 1 0 1747730000,
     hardfork 2 2 0 1747730001,
     hardfork 3 3 0 1747730002,
     hardfork 4 4 0 1747730003,
     hardfork 5 5 0 1747730004,
     hardfork 6 6 0 1747730005,
     hardfork 7 7 0 1747730006,
     hardfork 8 8 0 1747730007,
     hardfork 9 9 0 1747730008,
     hardfork 10 10 0 1747730009,
     hardfork 11 11 0 1747730010,
     hardfork 12 12 0 1747730011,
     hardfork 13 13 0 1747730012,
     hardfork 14 14 0 1747730013,
     hardfork 15 15 0 1747730014,
     hardfork 16 16 0 1747730015]"

definition mainnet_hard_fork_version_1_till :: u64 where
  "mainnet_hard_fork_version_1_till = 0"

definition testnet_hard_forks :: "hardfork_t list" where
  "testnet_hard_forks =
    [hardfork 1 1 0 1747730000,
     hardfork 2 2 0 1747730001,
     hardfork 3 3 0 1747730002,
     hardfork 4 4 0 1747730003,
     hardfork 5 5 0 1747730004,
     hardfork 6 6 0 1747730005,
     hardfork 7 7 0 1747730006,
     hardfork 8 8 0 1747730007,
     hardfork 9 9 0 1747730008,
     hardfork 10 10 0 1747730009,
     hardfork 11 11 0 1747730010,
     hardfork 12 12 0 1747730011,
     hardfork 13 13 0 1747730012,
     hardfork 14 14 0 1747730013,
     hardfork 15 15 0 1747730014,
     hardfork 16 16 0 1747730015]"

definition testnet_hard_fork_version_1_till :: u64 where
  "testnet_hard_fork_version_1_till = 0"

definition stagenet_hard_forks :: "hardfork_t list" where
  "stagenet_hard_forks =
    [hardfork 1 1 0 1341378000,
     hardfork 2 32000 0 1521000000,
     hardfork 3 33000 0 1521120000,
     hardfork 4 34000 0 1521240000,
     hardfork 5 35000 0 1521360000,
     hardfork 6 36000 0 1521480000,
     hardfork 7 37000 0 1521600000,
     hardfork 8 176456 0 1537821770,
     hardfork 9 177176 0 1537821771,
     hardfork 10 269000 0 1550153694,
     hardfork 11 269720 0 1550225678,
     hardfork 12 454721 0 1571419280,
     hardfork 13 675405 0 1598180817,
     hardfork 14 676125 0 1598180818,
     hardfork 15 1151000 0 1656629117,
     hardfork 16 1151720 0 1656629118]"

subsection \<open>Blocks and database\<close>

record block_header =
  major_version :: u8
  minor_version :: u8
  timestamp :: u64
  prev_id :: "u8 list"
  nonce :: u32

record BlockchainDB =
  db_blocks :: "block_header list"
  db_hf_versions :: "u64 \<Rightarrow> u8 option"

definition db_height :: "BlockchainDB \<Rightarrow> u64" where
  "db_height d = of_nat (length (db_blocks d))"

definition get_block_from_height :: "BlockchainDB \<Rightarrow> u64 \<Rightarrow> block_header option" where
  "get_block_from_height d h =
     (if unat h < length (db_blocks d) then Some (db_blocks d ! unat h) else None)"

definition set_hard_fork_version :: "u64 \<Rightarrow> u8 \<Rightarrow> BlockchainDB \<Rightarrow> BlockchainDB" where
  "set_hard_fork_version h v d = d\<lparr>db_hf_versions := (db_hf_versions d)(h := Some v)\<rparr>"

definition get_hard_fork_version :: "BlockchainDB \<Rightarrow> u64 \<Rightarrow> u8 option" where
  "get_hard_fork_version d h = db_hf_versions d h"

subsection \<open>The voting object\<close>

datatype State = LikelyForked | UpdateNeeded | Ready

definition DEFAULT_FORKED_TIME :: int where
  "DEFAULT_FORKED_TIME = 31557600"

definition DEFAULT_UPDATE_TIME :: int where
  "DEFAULT_UPDATE_TIME = 31557600 div 2"

definition DEFAULT_WINDOW_SIZE :: u64 where
  "DEFAULT_WINDOW_SIZE = 10080"

definition DEFAULT_THRESHOLD_PERCENT :: u8 where
  "DEFAULT_THRESHOLD_PERCENT = 80"

record HardFork =
  db :: BlockchainDB
  forked_time :: int
  update_time :: int
  window_size :: u64
  default_threshold_percent :: u8
  original_version :: u8
  original_version_till_height :: u64
  heights :: "hardfork_t list"
  versions :: "u8 list"
  last_versions :: "u8 \<Rightarrow> u32"
  current_fork_index :: u32

definition get_block_vote :: "block_header \<Rightarrow> u8" where
  "get_block_vote b = (if minor_version b = 0 then 1 else minor_version b)"

definition get_block_version :: "block_header \<Rightarrow> u8" where
  "get_block_version b = major_version b"

text \<open>The constructor; it throws on an empty window or a threshold above 100 percent.\<close>

definition HardFork_new ::
  "BlockchainDB \<Rightarrow> u8 \<Rightarrow> u64 \<Rightarrow> int \<Rightarrow> int \<Rightarrow> u64 \<Rightarrow> u8 \<Rightarrow> HardFork option" where
  "HardFork_new d orig till forked update window threshold =
     (if window = 0 then None
      else if threshold > 100 then None
      else Some \<lparr>db = d, forked_time = forked, update_time = update, window_size = window,
        default_threshold_percent = threshold, original_version = orig,
        original_version_till_height = till, heights = [], versions = [],
        last_versions = (\<lambda>_. 0), current_fork_index = 0\<rparr>)"

definition add_fork_threshold :: "u8 \<Rightarrow> u64 \<Rightarrow> u8 \<Rightarrow> int \<Rightarrow> HardFork \<Rightarrow> bool \<times> HardFork" where
  "add_fork_threshold v h threshold t hf =
     (if v = 0 then (False, hf)
      else if heights hf \<noteq> [] \<and> v \<le> hf_version (last (heights hf)) then (False, hf)
      else if heights hf \<noteq> [] \<and> h \<le> hf_height (last (heights hf)) then (False, hf)
      else if heights hf \<noteq> [] \<and> t \<le> hf_time (last (heights hf)) then (False, hf)
      else if threshold > 100 then (False, hf)
      else (True, hf\<lparr>heights := heights hf @ [hardfork v h threshold t]\<rparr>))"

definition add_fork :: "u8 \<Rightarrow> u64 \<Rightarrow> int \<Rightarrow> HardFork \<Rightarrow> bool \<times> HardFork" where
  "add_fork v h t hf = add_fork_threshold v h (default_threshold_percent hf) t hf"

definition get_effective_version :: "HardFork \<Rightarrow> u8 \<Rightarrow> u8" where
  "get_effective_version hf voting_version =
     (if heights hf \<noteq> [] \<and> voting_version > hf_version (last (heights hf))
      then hf_version (last (heights hf)) else voting_version)"

text \<open>The entry of the schedule in force.\<close>

definition current_fork :: "HardFork \<Rightarrow> hardfork_t option" where
  "current_fork hf =
     (if unat (current_fork_index hf) < length (heights hf)
      then Some (heights hf ! unat (current_fork_index hf)) else None)"

definition do_check :: "HardFork \<Rightarrow> u8 \<Rightarrow> u8 \<Rightarrow> bool option" where
  "do_check hf block_version voting_version =
     map_option (\<lambda>f. block_version = hf_version f \<and> voting_version \<ge> hf_version f) (current_fork hf)"

definition HardFork_check :: "HardFork \<Rightarrow> block_header \<Rightarrow> bool option" where
  "HardFork_check hf b = do_check hf (get_block_version b) (get_block_vote b)"

text \<open>The loop of \<open>get_voted_fork_index\<close> over the schedule from its end; \<open>n\<close> entries are left.\<close>

fun voted_loop :: "HardFork \<Rightarrow> u64 \<Rightarrow> nat \<Rightarrow> u32 \<Rightarrow> nat" where
  "voted_loop hf h 0 accumulated_votes = unat (current_fork_index hf)"
| "voted_loop hf h (Suc n) accumulated_votes =
     (let f = heights hf ! n;
          accumulated_votes' = accumulated_votes + last_versions hf (hf_version f);
          threshold = ucast ((window_size hf * ucast (hf_threshold f) + 99) div 100)
      in if h \<ge> hf_height f \<and> accumulated_votes' \<ge> threshold then n
         else voted_loop hf h n accumulated_votes')"

definition get_voted_fork_index :: "HardFork \<Rightarrow> u64 \<Rightarrow> nat" where
  "get_voted_fork_index hf h = voted_loop hf h (length (heights hf)) 0"

definition do_check_for_height :: "HardFork \<Rightarrow> u8 \<Rightarrow> u8 \<Rightarrow> u64 \<Rightarrow> bool option" where
  "do_check_for_height hf block_version voting_version h =
     (let fork_index = get_voted_fork_index hf h
      in if fork_index < length (heights hf)
         then Some (block_version = hf_version (heights hf ! fork_index) \<and>
           voting_version \<ge> hf_version (heights hf ! fork_index))
         else None)"

definition check_for_height :: "HardFork \<Rightarrow> block_header \<Rightarrow> u64 \<Rightarrow> bool option" where
  "check_for_height hf b h = do_check_for_height hf (get_block_version b) (get_block_vote b) h"

text \<open>The window of votes: a deque with the count of each version in it.\<close>

definition clear_votes :: "HardFork \<Rightarrow> HardFork" where
  "clear_votes hf = hf\<lparr>versions := [], last_versions := (\<lambda>_. 0)\<rparr>"

definition push_back_vote :: "u8 \<Rightarrow> HardFork \<Rightarrow> HardFork" where
  "push_back_vote v hf =
     hf\<lparr>last_versions := (last_versions hf)(v := last_versions hf v + 1),
       versions := versions hf @ [v]\<rparr>"

definition push_front_vote :: "u8 \<Rightarrow> HardFork \<Rightarrow> HardFork" where
  "push_front_vote v hf =
     hf\<lparr>versions := v # versions hf,
       last_versions := (last_versions hf)(v := last_versions hf v + 1)\<rparr>"

definition pop_front_vote :: "HardFork \<Rightarrow> HardFork option" where
  "pop_front_vote hf =
     (case versions hf of [] \<Rightarrow> None
      | v # vs \<Rightarrow> Some (hf\<lparr>last_versions := (last_versions hf)(v := last_versions hf v - 1),
          versions := vs\<rparr>))"

definition pop_back_vote :: "HardFork \<Rightarrow> HardFork option" where
  "pop_back_vote hf =
     (if versions hf = [] then None
      else let v = last (versions hf)
           in Some (hf\<lparr>last_versions := (last_versions hf)(v := last_versions hf v - 1),
               versions := butlast (versions hf)\<rparr>))"

text \<open>\<open>while (versions.size() >= window_size)\<close>, at most once per stored vote.\<close>

fun trim_window :: "nat \<Rightarrow> HardFork \<Rightarrow> HardFork option" where
  "trim_window 0 hf = (if length (versions hf) \<ge> unat (window_size hf) then None else Some hf)"
| "trim_window (Suc n) hf =
     (if length (versions hf) \<ge> unat (window_size hf)
      then Option.bind (pop_front_vote hf) (trim_window n) else Some hf)"

definition raise_fork_index :: "u64 \<Rightarrow> HardFork \<Rightarrow> HardFork" where
  "raise_fork_index h hf =
     (let voted = (of_nat (get_voted_fork_index hf h) :: u8)
      in if ucast voted > current_fork_index hf then hf\<lparr>current_fork_index := ucast voted\<rparr> else hf)"

definition HardFork_add :: "u8 \<Rightarrow> u8 \<Rightarrow> u64 \<Rightarrow> HardFork \<Rightarrow> (bool \<times> HardFork) option" where
  "HardFork_add block_version voting_version h hf =
     Option.bind (do_check hf block_version voting_version) (\<lambda>ok.
       if \<not> ok then Some (False, hf)
       else Option.bind (current_fork hf) (\<lambda>f.
         let hf1 = hf\<lparr>db := set_hard_fork_version h (hf_version f) (db hf)\<rparr>;
             vote = get_effective_version hf1 voting_version
         in Option.bind (trim_window (length (versions hf1)) hf1) (\<lambda>hf2.
              Some (True, raise_fork_index (h + 1) (push_back_vote vote hf2)))))"

definition HardFork_add_block :: "block_header \<Rightarrow> u64 \<Rightarrow> HardFork \<Rightarrow> (bool \<times> HardFork) option" where
  "HardFork_add_block b h hf = HardFork_add (get_block_version b) (get_block_vote b) h hf"

text \<open>The loops that read \<open>n\<close> stored blocks from height \<open>h\<close> on into the window, or add them again.\<close>

fun scan_votes :: "nat \<Rightarrow> u64 \<Rightarrow> HardFork \<Rightarrow> HardFork option" where
  "scan_votes 0 h hf = Some hf"
| "scan_votes (Suc n) h hf =
     Option.bind (get_block_from_height (db hf) h) (\<lambda>b.
       scan_votes n (h + 1) (push_back_vote (get_effective_version hf (get_block_vote b)) hf))"

fun readd_blocks :: "nat \<Rightarrow> u64 \<Rightarrow> HardFork \<Rightarrow> HardFork option" where
  "readd_blocks 0 h hf = Some hf"
| "readd_blocks (Suc n) h hf =
     Option.bind (get_block_from_height (db hf) h) (\<lambda>b.
       Option.bind (HardFork_add_block b h hf) (\<lambda>(_, hf'). readd_blocks n (h + 1) hf'))"

fun seek_fork_index :: "u8 \<Rightarrow> hardfork_t list \<Rightarrow> nat" where
  "seek_fork_index lastv (f # g # fs) =
     (if hf_version f \<noteq> lastv then Suc (seek_fork_index lastv (g # fs)) else 0)"
| "seek_fork_index lastv fs = 0"

definition rescan_from_block_height :: "u64 \<Rightarrow> HardFork \<Rightarrow> (bool \<times> HardFork) option" where
  "rescan_from_block_height h hf =
     (if h \<ge> db_height (db hf) then Some (False, hf)
      else Option.bind (scan_votes (unat (db_height (db hf) - h)) h (clear_votes hf)) (\<lambda>hf1.
        Option.bind (get_hard_fork_version (db hf1) (db_height (db hf1) - 1)) (\<lambda>lastv.
          Some (True, raise_fork_index (db_height (db hf1))
            (hf1\<lparr>current_fork_index := of_nat (seek_fork_index lastv (heights hf1))\<rparr>)))))"

definition rescan_from_chain_height :: "u64 \<Rightarrow> HardFork \<Rightarrow> (bool \<times> HardFork) option" where
  "rescan_from_chain_height h hf =
     (if h = 0 then Some (False, hf) else rescan_from_block_height (h - 1) hf)"

definition HardFork_init :: "HardFork \<Rightarrow> HardFork option" where
  "HardFork_init hf =
     (let hf1 = (if heights hf = [] then hf\<lparr>heights := [hardfork (original_version hf) 0 0 0]\<rparr> else hf);
          hf2 = (clear_votes hf1)\<lparr>current_fork_index := 0\<rparr>;
          h = db_height (db hf2);
          h' = (if h > window_size hf2 then h - (window_size hf2 - 1) else 1)
      in map_option snd (rescan_from_chain_height h' hf2))"

definition block_version_at :: "u64 \<Rightarrow> HardFork \<Rightarrow> u8 option" where
  "block_version_at h hf =
     (if h \<le> original_version_till_height hf then Some (original_version hf)
      else map_option get_block_version (get_block_from_height (db hf) h))"

text \<open>\<open>while (current_fork_index > 0 && heights[current_fork_index].version > start_version)\<close>.\<close>

fun lower_fork_index :: "hardfork_t list \<Rightarrow> u8 \<Rightarrow> nat \<Rightarrow> nat" where
  "lower_fork_index fs start_version 0 = 0"
| "lower_fork_index fs start_version (Suc n) =
     (if hf_version (fs ! Suc n) > start_version then lower_fork_index fs start_version n else Suc n)"

definition reorganize_from_block_height :: "u64 \<Rightarrow> HardFork \<Rightarrow> (bool \<times> HardFork) option" where
  "reorganize_from_block_height h hf =
     (if h \<ge> db_height (db hf) then Some (False, hf)
      else let rescan_height = (if h \<ge> window_size hf - 1 then h - (window_size hf - 1) else 0)
           in Option.bind (if h = 0 then Some (original_version hf) else get_hard_fork_version (db hf) h)
             (\<lambda>start_version.
               if 0 < current_fork_index hf \<and> unat (current_fork_index hf) \<ge> length (heights hf) then None
               else let hf1 = (clear_votes hf)\<lparr>current_fork_index :=
                          of_nat (lower_fork_index (heights hf) start_version (unat (current_fork_index hf)))\<rparr>
                    in Option.bind (scan_votes (unat h - unat rescan_height + 1) rescan_height hf1) (\<lambda>hf2.
                      map_option (Pair True)
                        (readd_blocks (unat (db_height (db hf2)) - (unat h + 1)) (h + 1)
                          (raise_fork_index (h + 1) hf2)))))"

definition reorganize_from_chain_height :: "u64 \<Rightarrow> HardFork \<Rightarrow> (bool \<times> HardFork) option" where
  "reorganize_from_chain_height h hf =
     (if h = 0 then Some (False, hf) else reorganize_from_block_height (h - 1) hf)"

text \<open>
  The loop of \<open>on_block_popped\<close>. Its counter is unsigned, so with an empty chain the test never
  fails; a loop that does not end is \<open>None\<close>.
\<close>

partial_function (option) pop_votes :: "u64 \<Rightarrow> u64 \<Rightarrow> HardFork \<Rightarrow> HardFork option" where
  "pop_votes h new_chain_height hf =
     (if h \<ge> new_chain_height
      then Option.bind (pop_back_vote hf) (\<lambda>hf1.
        Option.bind (get_hard_fork_version (db hf1) h) (\<lambda>v.
          pop_votes (h - 1) new_chain_height (push_front_vote v hf1)))
      else Some hf)"

declare pop_votes.simps [code]

fun scheduled_index :: "hardfork_t list \<Rightarrow> u64 \<Rightarrow> nat \<Rightarrow> nat" where
  "scheduled_index fs h 0 = 0"
| "scheduled_index fs h (Suc n) = (if h \<ge> hf_height (fs ! Suc n) then Suc n else scheduled_index fs h n)"

definition on_block_popped :: "u64 \<Rightarrow> HardFork \<Rightarrow> HardFork option" where
  "on_block_popped nblocks hf =
     (if nblocks = 0 then None
      else let new_chain_height = db_height (db hf);
               old_chain_height = new_chain_height + nblocks
           in Option.bind (pop_votes (old_chain_height - 1) new_chain_height hf) (\<lambda>hf1.
             if heights hf1 = [] then None
             else Some (hf1\<lparr>current_fork_index :=
               of_nat (scheduled_index (heights hf1) new_chain_height (length (heights hf1) - 1))\<rparr>)))"

definition get_state :: "int \<Rightarrow> HardFork \<Rightarrow> State" where
  "get_state t hf =
     (if length (heights hf) \<le> 1 then Ready
      else let t_last_fork = hf_time (last (heights hf))
           in if t \<ge> t_last_fork + forked_time hf then LikelyForked
              else if t \<ge> t_last_fork + update_time hf then UpdateNeeded
              else Ready)"

definition get_current_version :: "HardFork \<Rightarrow> u8 option" where
  "get_current_version hf = map_option hf_version (current_fork hf)"

definition HardFork_get :: "u64 \<Rightarrow> HardFork \<Rightarrow> u8 option" where
  "HardFork_get h hf =
     (if h > db_height (db hf) then Some 255
      else if h = db_height (db hf) then get_current_version hf
      else get_hard_fork_version (db hf) h)"

definition get_latest_ideal_version :: "HardFork \<Rightarrow> u8 option" where
  "get_latest_ideal_version hf =
     (if heights hf = [] then None else Some (hf_version (last (heights hf))))"

fun ideal_version_loop :: "HardFork \<Rightarrow> u64 \<Rightarrow> nat \<Rightarrow> u8" where
  "ideal_version_loop hf h 0 = original_version hf"
| "ideal_version_loop hf h (Suc n) =
     (if h \<ge> hf_height (heights hf ! Suc n) then hf_version (heights hf ! Suc n)
      else ideal_version_loop hf h n)"

definition get_ideal_version :: "u64 \<Rightarrow> HardFork \<Rightarrow> u8 option" where
  "get_ideal_version h hf =
     (if heights hf = [] then None else Some (ideal_version_loop hf h (length (heights hf) - 1)))"

fun earliest_height_loop :: "u8 \<Rightarrow> hardfork_t list \<Rightarrow> u64 \<Rightarrow> u64" where
  "earliest_height_loop v [] h = h"
| "earliest_height_loop v (f # fs) h =
     (if hf_version f \<ge> v then earliest_height_loop v fs (hf_height f) else h)"

definition get_earliest_ideal_height_for_version :: "u8 \<Rightarrow> HardFork \<Rightarrow> u64" where
  "get_earliest_ideal_height_for_version v hf = earliest_height_loop v (rev (heights hf)) (- 1)"

text \<open>Over the schedule from its end, with the entry that comes after.\<close>

fun next_version_loop :: "u64 \<Rightarrow> u8 \<Rightarrow> hardfork_t list \<Rightarrow> hardfork_t option \<Rightarrow> u8" where
  "next_version_loop h orig [] later = orig"
| "next_version_loop h orig (f # fs) later =
     (if h \<ge> hf_height f then hf_version (case later of None \<Rightarrow> f | Some g \<Rightarrow> g)
      else next_version_loop h orig fs (Some f))"

definition get_next_version :: "HardFork \<Rightarrow> u8" where
  "get_next_version hf =
     next_version_loop (db_height (db hf)) (original_version hf) (rev (heights hf)) None"

record voting_info =
  vi_enabled :: bool
  vi_window :: u32
  vi_votes :: u32
  vi_threshold :: u32
  vi_earliest_height :: u64
  vi_voting :: u8

definition get_voting_info :: "u8 \<Rightarrow> HardFork \<Rightarrow> voting_info option" where
  "get_voting_info v hf =
     map_option (\<lambda>f.
       let window = of_nat (length (versions hf)) :: u32
       in \<lparr>vi_enabled = (hf_version f \<ge> v),
           vi_window = window,
           vi_votes = foldl (\<lambda>votes n. votes + last_versions hf (of_nat n)) 0 [unat v..<256],
           vi_threshold = (window * ucast (hf_threshold f) + 99) div 100,
           vi_earliest_height = get_earliest_ideal_height_for_version v hf,
           vi_voting = hf_version (last (heights hf))\<rparr>)
       (current_fork hf)"

subsection \<open>The callers\<close>

text \<open>
  \<open>Blockchain::init\<close>: the object for a network, its schedule and the restored state. The test
  network takes versions and heights from its options, up to a version 0.
\<close>

definition test_hard_forks :: "(u8 \<times> u64) list \<Rightarrow> hardfork_t list" where
  "test_hard_forks options =
     map (\<lambda>(n, v, h). hardfork v h 0 (int n + 1)) (enumerate 0 (takeWhile (\<lambda>(v, h). v \<noteq> 0) options))"

definition hard_fork_table :: "network_type \<Rightarrow> (u8 \<times> u64) list \<Rightarrow> hardfork_t list" where
  "hard_fork_table nettype options =
     (if nettype = FAKECHAIN then test_hard_forks options
      else if nettype = TESTNET then testnet_hard_forks
      else if nettype = STAGENET then stagenet_hard_forks
      else mainnet_hard_forks)"

definition original_till :: "network_type \<Rightarrow> u64" where
  "original_till nettype =
     (if nettype = FAKECHAIN \<or> nettype = STAGENET then 0
      else if nettype = TESTNET then testnet_hard_fork_version_1_till
      else mainnet_hard_fork_version_1_till)"

definition add_forks :: "hardfork_t list \<Rightarrow> HardFork \<Rightarrow> HardFork" where
  "add_forks fs hf =
     fold (\<lambda>f hf. snd (add_fork_threshold (hf_version f) (hf_height f) (hf_threshold f) (hf_time f) hf)) fs hf"

definition Blockchain_init_hardfork :: "network_type \<Rightarrow> (u8 \<times> u64) list \<Rightarrow> BlockchainDB \<Rightarrow> HardFork option" where
  "Blockchain_init_hardfork nettype options d =
     Option.bind (HardFork_new d 1 (original_till nettype) DEFAULT_FORKED_TIME DEFAULT_UPDATE_TIME
         DEFAULT_WINDOW_SIZE DEFAULT_THRESHOLD_PERCENT) (\<lambda>hf.
       HardFork_init (add_forks (hard_fork_table nettype options) hf))"

text \<open>
  A block that enters the main chain: the version check of \<open>handle_block_to_main_chain\<close>, the
  block stored, the object told. A block that leaves it: never the genesis block.
\<close>

definition add_main_chain_block :: "block_header \<Rightarrow> HardFork \<Rightarrow> (bool \<times> HardFork) option" where
  "add_main_chain_block b hf =
     Option.bind (HardFork_check hf b) (\<lambda>ok.
       if \<not> ok then Some (False, hf)
       else let prev_height = db_height (db hf)
            in Option.bind
              (HardFork_add_block b prev_height
                (hf\<lparr>db := (db hf)\<lparr>db_blocks := db_blocks (db hf) @ [b]\<rparr>\<rparr>))
              (\<lambda>(_, hf'). Some (True, hf')))"

definition pop_block_from_blockchain :: "HardFork \<Rightarrow> HardFork option" where
  "pop_block_from_blockchain hf =
     (if db_height (db hf) > 1
      then on_block_popped 1 (hf\<lparr>db := (db hf)\<lparr>db_blocks := butlast (db_blocks (db hf))\<rparr>\<rparr>)
      else None)"

subsection \<open>Invariant and reachable states\<close>

text \<open>The window with given votes and the counts that belong to them.\<close>

definition set_votes :: "u8 list \<Rightarrow> HardFork \<Rightarrow> HardFork" where
  "set_votes vs hf = hf\<lparr>versions := vs, last_versions := (\<lambda>v. of_nat (count_list vs v))\<rparr>"

definition fork_less :: "hardfork_t \<Rightarrow> hardfork_t \<Rightarrow> bool" where
  "fork_less f g \<longleftrightarrow> hf_version f < hf_version g \<and> hf_height f < hf_height g \<and> hf_time f < hf_time g"

definition schedule_ok :: "hardfork_t list \<Rightarrow> bool" where
  "schedule_ok fs \<longleftrightarrow> sorted_wrt fork_less fs \<and> (\<forall>f \<in> set fs. hf_threshold f \<le> 100)"

definition hf_inv :: "HardFork \<Rightarrow> bool" where
  "hf_inv hf \<longleftrightarrow> heights hf \<noteq> [] \<and> schedule_ok (heights hf) \<and> window_size hf \<noteq> 0 \<and>
     unat (current_fork_index hf) < length (heights hf) \<and>
     length (versions hf) \<le> unat (window_size hf) \<and>
     last_versions hf = (\<lambda>v. of_nat (count_list (versions hf) v))"

text \<open>
  The states the object can be in: set up with any schedule and initialised, then driven by its
  operations in any order, with the rest of the node free to change the database in between.
\<close>

inductive hf_reach :: "HardFork \<Rightarrow> bool" where
  new: "HardFork_new d orig till ft ut w th = Some hf \<Longrightarrow>
    HardFork_init (add_forks fs hf) = Some hf' \<Longrightarrow> hf_reach hf'"
| initialised: "hf_reach hf \<Longrightarrow> HardFork_init hf = Some hf' \<Longrightarrow> hf_reach hf'"
| added: "hf_reach hf \<Longrightarrow> HardFork_add bv vv h hf = Some (r, hf') \<Longrightarrow> hf_reach hf'"
| reorganized: "hf_reach hf \<Longrightarrow> reorganize_from_block_height h hf = Some (r, hf') \<Longrightarrow> hf_reach hf'"
| popped: "hf_reach hf \<Longrightarrow> on_block_popped n hf = Some hf' \<Longrightarrow> hf_reach hf'"
| database: "hf_reach hf \<Longrightarrow> hf_reach (hf\<lparr>db := d\<rparr>)"

text \<open>
  The main chain of a network, from an empty database: blocks are appended while they pass the
  version check, and popped. Heights stay below the limit of the configuration.
\<close>

inductive main_chain :: "network_type \<Rightarrow> HardFork \<Rightarrow> bool" for nettype where
  start: "db_blocks d = [] \<Longrightarrow> Blockchain_init_hardfork nettype options d = Some hf \<Longrightarrow> main_chain nettype hf"
| append: "main_chain nettype hf \<Longrightarrow> length (db_blocks (db hf)) < unat CRYPTONOTE_MAX_BLOCK_NUMBER \<Longrightarrow>
    add_main_chain_block b hf = Some (r, hf') \<Longrightarrow> main_chain nettype hf'"
| pop: "main_chain nettype hf \<Longrightarrow> pop_block_from_blockchain hf = Some hf' \<Longrightarrow> main_chain nettype hf'"

text \<open>Chains that only grew, under any schedule.\<close>

inductive grown_chain :: "HardFork \<Rightarrow> bool" where
  start: "HardFork_new d orig till ft ut w th = Some hf \<Longrightarrow> db_blocks d = [] \<Longrightarrow>
    HardFork_init (add_forks fs hf) = Some hf' \<Longrightarrow> grown_chain hf'"
| append: "grown_chain hf \<Longrightarrow> length (db_blocks (db hf)) < unat CRYPTONOTE_MAX_BLOCK_NUMBER \<Longrightarrow>
    add_main_chain_block b hf = Some (r, hf') \<Longrightarrow> grown_chain hf'"

end
