(* ===== verification/Hardfork_Correct.thy ===== *)
theory Hardfork_Correct
  imports Hardfork
begin

text \<open>
  Correctness of the hard fork voting object: the window of votes as an abstract deque, the invariant of every
  reachable state, the effect of adding a block, the schedules of the networks, what a restart
  restores and what popping does.
\<close>

section \<open>Specification\<close>

text \<open>What the schedule requires for the entry \<open>k\<close> to be in force at a height, given the votes.\<close>

definition fork_votes :: "HardFork \<Rightarrow> nat \<Rightarrow> nat" where
  "fork_votes hf k =
     length (filter (\<lambda>v. v \<in> hf_version ` set (drop k (heights hf))) (versions hf))"

definition fork_threshold :: "HardFork \<Rightarrow> nat \<Rightarrow> nat" where
  "fork_threshold hf k = (unat (window_size hf) * unat (hf_threshold (heights hf ! k)) + 99) div 100"

definition fork_active :: "HardFork \<Rightarrow> u64 \<Rightarrow> nat \<Rightarrow> bool" where
  "fork_active hf h k \<longleftrightarrow> hf_height (heights hf ! k) \<le> h \<and> fork_threshold hf k \<le> fork_votes hf k"

text \<open>The window after a vote: the last \<open>window_size\<close> votes.\<close>

definition slide_window :: "nat \<Rightarrow> 'a list \<Rightarrow> 'a \<Rightarrow> 'a list" where
  "slide_window w vs v = drop (length vs + 1 - w) (vs @ [v])"

text \<open>A schedule whose forks need no votes, and its entry for a height.\<close>

definition unvoted :: "hardfork_t list \<Rightarrow> bool" where
  "unvoted fs \<longleftrightarrow> fs \<noteq> [] \<and> schedule_ok fs \<and> list_all (\<lambda>f. hf_threshold f = 0 \<and> hf_version f \<noteq> 0) fs"

definition scheduled_fork :: "hardfork_t list \<Rightarrow> u64 \<Rightarrow> hardfork_t" where
  "scheduled_fork fs h = fs ! scheduled_index fs h (length fs - 1)"

abbreviation chain_height :: "HardFork \<Rightarrow> nat" where
  "chain_height hf \<equiv> length (db_blocks (db hf))"

text \<open>The state and the database of a chain that followed such a schedule.\<close>

definition follows_schedule :: "hardfork_t list \<Rightarrow> HardFork \<Rightarrow> bool" where
  "follows_schedule fs hf \<longleftrightarrow> hf_inv hf \<and> heights hf = fs \<and> original_version hf = 1 \<and>
     unat (window_size hf) < 4294967296 \<and> chain_height hf \<le> 500000000 \<and>
     (db_blocks (db hf) = [] \<or> versions hf \<noteq> []) \<and>
     unat (current_fork_index hf) = scheduled_index fs (of_nat (chain_height hf)) (length fs - 1) \<and>
     (\<forall>h < chain_height hf. db_hf_versions (db hf) (of_nat h) = Some (hf_version (scheduled_fork fs (of_nat h))) \<and>
       major_version (db_blocks (db hf) ! h) = hf_version (scheduled_fork fs (of_nat h)))"

text \<open>The votes of the stored blocks, capped at the latest version.\<close>

abbreviation stored_votes :: "HardFork \<Rightarrow> u8 list" where
  "stored_votes hf \<equiv> map (\<lambda>b. get_effective_version hf (get_block_vote b)) (db_blocks (db hf))"

text \<open>
  States that a restart reproduces: the window is that of the stored blocks, and the index was raised
  from the entry whose version is recorded for the last block.
\<close>

definition restorable :: "HardFork \<Rightarrow> bool" where
  "restorable hf \<longleftrightarrow> hf_inv hf \<and> chain_height hf \<le> 500000000 \<and>
     versions hf = drop (chain_height hf - unat (window_size hf)) (stored_votes hf) \<and>
     (if chain_height hf = 0 then current_fork_index hf = 0
      else \<exists>j < length (heights hf).
        db_hf_versions (db hf) (of_nat (chain_height hf - 1)) = Some (hf_version (heights hf ! j)) \<and>
        hf = raise_fork_index (of_nat (chain_height hf)) (hf\<lparr>current_fork_index := of_nat j\<rparr>))"

section \<open>The window of votes\<close>

text \<open>
  A deque with counts, as an interface: \<open>mk vs s\<close> is the state \<open>s\<close> with the window \<open>vs\<close> and counts that
  fit; the operations act on the window as on a list and keep the counts.
\<close>

locale vote_window =
  fixes mk :: "'v list \<Rightarrow> 's \<Rightarrow> 's"
    and votes :: "'s \<Rightarrow> 'v list"
    and clear :: "'s \<Rightarrow> 's"
    and push_back push_front :: "'v \<Rightarrow> 's \<Rightarrow> 's"
    and pop_front pop_back :: "'s \<Rightarrow> 's option"
  assumes votes_mk: "votes (mk vs s) = vs"
    and clear_mk: "clear s = mk [] s"
    and push_back_mk: "push_back v (mk vs s) = mk (vs @ [v]) s"
    and push_front_mk: "push_front v (mk vs s) = mk (v # vs) s"
    and pop_front_mk: "pop_front (mk (v # vs) s) = Some (mk vs s)"
    and pop_back_mk: "pop_back (mk (vs @ [v]) s) = Some (mk vs s)"
begin

lemma mk_votes: "mk (votes s) s = s \<Longrightarrow> \<exists>vs s'. s = mk vs s'"
  by metis

lemma refill: "fold push_back vs (clear s) = mk vs s"
proof -
  have "fold push_back vs (mk us s) = mk (us @ vs) s" for us
    by (induction vs arbitrary: us) (simp_all add: push_back_mk)
  from this [of "[]"] show ?thesis by (simp add: clear_mk)
qed

lemma slide: "map_option (push_back w) (pop_front (mk (v # vs) s)) = Some (mk (vs @ [w]) s)"
  by (simp add: pop_front_mk push_back_mk)

lemma slide_back: "map_option (push_front w) (pop_back (mk (vs @ [v]) s)) = Some (mk (w # vs) s)"
  by (simp add: pop_back_mk push_front_mk)

end

lemma set_votes_simps [simp]:
  "versions (set_votes vs hf) = vs"
  "last_versions (set_votes vs hf) v = of_nat (count_list vs v)"
  "heights (set_votes vs hf) = heights hf"
  "db (set_votes vs hf) = db hf"
  "window_size (set_votes vs hf) = window_size hf"
  "current_fork_index (set_votes vs hf) = current_fork_index hf"
  "original_version (set_votes vs hf) = original_version hf"
  "set_votes us (set_votes vs hf) = set_votes us hf"
  "(set_votes vs hf)\<lparr>db := d\<rparr> = set_votes vs (hf\<lparr>db := d\<rparr>)"
  "(set_votes vs hf)\<lparr>current_fork_index := i\<rparr> = set_votes vs (hf\<lparr>current_fork_index := i\<rparr>)"
  by (simp_all add: set_votes_def)

interpretation votes: vote_window set_votes versions clear_votes push_back_vote push_front_vote
  pop_front_vote pop_back_vote
  by unfold_locales
    (auto simp: set_votes_def clear_votes_def push_back_vote_def push_front_vote_def
      pop_front_vote_def pop_back_vote_def Let_def fun_eq_iff)

lemma trim_window_set_votes:
  "window_size hf \<noteq> 0 \<Longrightarrow> length vs \<le> n \<Longrightarrow>
   trim_window n (set_votes vs hf) = Some (set_votes (drop (length vs + 1 - unat (window_size hf)) vs) hf)"
proof (induction n arbitrary: vs)
  case 0
  then show ?case by (simp add: unat_eq_0)
next
  case (Suc n)
  show ?case
  proof (cases "length vs \<ge> unat (window_size hf)")
    case True
    have "0 < unat (window_size hf)" using Suc.prems(1) by (simp add: unat_gt_0)
    with True obtain v us where vs: "vs = v # us" by (cases vs) auto
    have "trim_window (Suc n) (set_votes vs hf) = trim_window n (set_votes us hf)"
      using True vs by (simp add: votes.pop_front_mk)
    also have "\<dots> = Some (set_votes (drop (length us + 1 - unat (window_size hf)) us) hf)"
      using Suc vs by simp
    finally show ?thesis using True vs by (simp add: Suc_diff_le)
  qed simp
qed

section \<open>The schedule\<close>

lemma schedule_distinct: "schedule_ok fs \<Longrightarrow> distinct (map hf_version fs)"
proof -
  assume "schedule_ok fs"
  then have "sorted_wrt fork_less fs" by (simp add: schedule_ok_def)
  then show ?thesis
    by (induction fs) (auto simp: fork_less_def)
qed

lemma schedule_length: "schedule_ok fs \<Longrightarrow> length fs \<le> 256"
proof -
  assume "schedule_ok fs"
  then have "length fs = card (set (map hf_version fs))"
    using schedule_distinct [of fs] distinct_card [of "map hf_version fs"] by simp
  also have "\<dots> \<le> card (UNIV :: u8 set)" by (intro card_mono) simp_all
  also have "\<dots> = 256" by (simp add: card_word)
  finally show ?thesis .
qed

lemma schedule_less:
  assumes "schedule_ok fs" and "i < j" and "j < length fs"
  shows "hf_version (fs ! i) < hf_version (fs ! j)" and "hf_height (fs ! i) < hf_height (fs ! j)"
  using assms sorted_wrt_nth_less [of fork_less fs i j] by (simp_all add: schedule_ok_def fork_less_def)

lemma add_fork_schedule:
  assumes "schedule_ok (heights hf)"
  shows "schedule_ok (heights (snd (add_fork_threshold v h th t hf)))"
proof (cases "heights hf = []")
  case True
  then show ?thesis
    by (simp add: add_fork_threshold_def schedule_ok_def hardfork_def linorder_not_less)
next
  case False
  let ?l = "last (heights hf)"
  have "fork_less f ?l \<or> f = ?l" if "f \<in> set (heights hf)" for f
    using assms that False unfolding schedule_ok_def
    by (metis append_butlast_last_id in_set_conv_decomp_last set_ConsD sorted_wrt_append
        list.set_intros(1) Un_iff empty_iff empty_set set_append)
  then have "fork_less f (hardfork v h th t)"
    if "f \<in> set (heights hf)" "\<not> v \<le> hf_version ?l" "\<not> h \<le> hf_height ?l" "\<not> t \<le> hf_time ?l" for f
    using that by (fastforce simp: fork_less_def hardfork_def)
  then show ?thesis
    using assms False
    by (auto simp: add_fork_threshold_def schedule_ok_def sorted_wrt_append hardfork_def)
qed

lemma add_fork_frame:
  "snd (add_fork_threshold v h th t hf) = hf\<lparr>heights := heights (snd (add_fork_threshold v h th t hf))\<rparr>"
  by (simp add: add_fork_threshold_def)

lemma add_forks_frame:
  "\<exists>fs'. add_forks fs hf = hf\<lparr>heights := fs'\<rparr> \<and> (schedule_ok (heights hf) \<longrightarrow> schedule_ok fs')"
proof (induction fs arbitrary: hf)
  case Nil
  then show ?case by (intro exI [of _ "heights hf"]) (simp add: add_forks_def)
next
  case (Cons f fs)
  let ?a = "snd (add_fork_threshold (hf_version f) (hf_height f) (hf_threshold f) (hf_time f) hf)"
  obtain fs' where fs': "add_forks fs ?a = ?a\<lparr>heights := fs'\<rparr>"
      "schedule_ok (heights ?a) \<longrightarrow> schedule_ok fs'"
    using Cons.IH [of ?a] by blast
  have "?a\<lparr>heights := fs'\<rparr> = hf\<lparr>heights := fs'\<rparr>"
    by (subst add_fork_frame) simp
  then show ?case
    using fs' add_fork_schedule [of hf] by (auto simp: add_forks_def)
qed

section \<open>Votes and the fork index\<close>

lemma voted_loop_range: "voted_loop hf h n acc < n \<or> voted_loop hf h n acc = unat (current_fork_index hf)"
  by (induction n arbitrary: acc) (auto simp: Let_def less_Suc_eq)

lemma get_voted_lt:
  "unat (current_fork_index hf) < length (heights hf) \<Longrightarrow> get_voted_fork_index hf h < length (heights hf)"
  using voted_loop_range [of hf h "length (heights hf)" 0] by (auto simp: get_voted_fork_index_def)

text \<open>The 8-bit variable of the callers holds every index of a schedule.\<close>

lemma raise_fork_index_eq:
  assumes "schedule_ok (heights hf)" and "unat (current_fork_index hf) < length (heights hf)"
  shows "raise_fork_index h hf =
    hf\<lparr>current_fork_index := of_nat (max (unat (current_fork_index hf)) (get_voted_fork_index hf h))\<rparr>"
proof -
  let ?v = "get_voted_fork_index hf h"
  have v: "?v < 256" using get_voted_lt [OF assms(2)] schedule_length [OF assms(1)] by (rule less_le_trans)
  then have "unat (of_nat ?v :: u8) = ?v" unfolding unat_of_nat by simp
  then have u: "unat (ucast (of_nat ?v :: u8) :: u32) = ?v"
    by (subst unat_ucast_up) simp_all
  have "unat (of_nat ?v :: u32) = ?v" using v unfolding unat_of_nat by simp
  then have w: "(ucast (of_nat ?v :: u8) :: u32) = of_nat ?v"
    using u by (simp only: word_unat_eq_iff)
  show ?thesis
    unfolding raise_fork_index_def Let_def word_less_nat_alt u
    by (simp add: max_def w)
qed

lemma fork_votes_Suc:
  assumes "schedule_ok (heights hf)" and "k < length (heights hf)"
  shows "fork_votes hf k = fork_votes hf (Suc k) + count_list (versions hf) (hf_version (heights hf ! k))"
proof -
  let ?v = "hf_version (heights hf ! k)" and ?S = "hf_version ` set (drop (Suc k) (heights hf))"
  have "drop k (heights hf) = heights hf ! k # drop (Suc k) (heights hf)"
    using assms(2) by (simp add: Cons_nth_drop_Suc)
  then have S: "hf_version ` set (drop k (heights hf)) = insert ?v ?S" by simp
  have "distinct (map hf_version (drop k (heights hf)))"
    using schedule_distinct [OF assms(1)] by (simp add: drop_map [symmetric])
  then have nin: "?v \<notin> ?S" using \<open>drop k (heights hf) = _\<close> by simp
  have "length (filter (\<lambda>v. v \<in> insert ?v ?S) vs) = length (filter (\<lambda>v. v \<in> ?S) vs) + count_list vs ?v" for vs
    using nin by (induction vs) auto
  then show ?thesis unfolding fork_votes_def S .
qed

lemma fork_votes_end: "fork_votes hf (length (heights hf)) = 0"
  by (simp add: fork_votes_def)

lemma fork_votes_le: "fork_votes hf k \<le> length (versions hf)"
  by (simp add: fork_votes_def)

lemma unat_fork_threshold:
  assumes "unat w < 4294967296" and "unat (th :: u8) \<le> 100"
  shows "unat (ucast (((w :: u64) * ucast th + 99) div 100) :: u32) = (unat w * unat th + 99) div 100"
proof -
  have p: "unat w * unat th \<le> 4294967295 * 100"
    using assms by (intro mult_mono) simp_all
  have u: "unat (ucast th :: u64) = unat th" by (rule unat_ucast_up) simp
  have m: "unat (w * ucast th) = unat w * unat th"
    using p u by (subst unat_mult_no_overflow) simp_all
  have a: "unat (w * ucast th + 99) = unat w * unat th + 99"
    using p m by (subst unat_add_no_overflow) simp_all
  have d: "unat ((w * ucast th + 99) div 100) = (unat w * unat th + 99) div 100"
    unfolding unat_div a by simp
  have "(unat w * unat th + 99) div 100 < 2 ^ LENGTH(32)"
    using p by simp
  then show ?thesis by (subst unat_ucast_down) (simp_all only: d)
qed

lemma hf_inv_votes: "hf_inv hf \<Longrightarrow> set_votes (versions hf) hf = hf"
  by (cases hf) (simp add: hf_inv_def set_votes_def)

lemma voted_loop_active:
  assumes inv: "hf_inv hf" and w: "unat (window_size hf) < 4294967296"
  shows "n \<le> length (heights hf) \<Longrightarrow>
    voted_loop hf h n (of_nat (fork_votes hf n)) =
    (case find (fork_active hf h) (rev [0..<n]) of None \<Rightarrow> unat (current_fork_index hf) | Some k \<Rightarrow> k)"
proof (induction n)
  case 0
  then show ?case by simp
next
  case (Suc n)
  let ?f = "heights hf ! n"
  have ok: "schedule_ok (heights hf)" and len: "length (versions hf) \<le> unat (window_size hf)"
    and tally: "last_versions hf v = of_nat (count_list (versions hf) v)" for v
    using inv by (simp_all add: hf_inv_def)
  then have acc: "of_nat (fork_votes hf (Suc n)) + last_versions hf (hf_version ?f) =
      (of_nat (fork_votes hf n) :: u32)"
    using fork_votes_Suc [OF ok, of n] Suc.prems by simp
  have "unat (hf_threshold ?f) \<le> 100"
    using ok Suc.prems by (simp add: schedule_ok_def word_le_nat_alt)
  from unat_fork_threshold [OF w this]
  have th: "unat (ucast ((window_size hf * ucast (hf_threshold ?f) + 99) div 100) :: u32) = fork_threshold hf n"
    by (simp add: fork_threshold_def)
  have "fork_votes hf n < 4294967296" using fork_votes_le [of hf n] len w by linarith
  then have vt: "unat (of_nat (fork_votes hf n) :: u32) = fork_votes hf n"
    unfolding unat_of_nat by simp
  have "voted_loop hf h (Suc n) (of_nat (fork_votes hf (Suc n))) =
      (if fork_active hf h n then n else voted_loop hf h n (of_nat (fork_votes hf n)))"
    unfolding voted_loop.simps Let_def acc word_le_nat_alt [of "ucast _"] th vt
    by (simp add: fork_active_def)
  then show ?case using Suc by simp
qed

lemma max_find_rev:
  "max i (case find P (rev [0..<n]) of None \<Rightarrow> i | Some k \<Rightarrow> k) = Max (insert i {k. k < n \<and> P k})"
proof (induction n)
  case (Suc n)
  show ?case
  proof (cases "P n")
    case True
    then have "{k. k < Suc n \<and> P k} = insert n {k. k < n \<and> P k}" by auto
    moreover have "Max (insert i (insert n {k. k < n \<and> P k})) = max i n"
      by (rule Max_eqI) (auto simp: max_def)
    ultimately show ?thesis using True by simp
  next
    case False
    then have "{k. k < Suc n \<and> P k} = {k. k < n \<and> P k}" by (auto simp: less_Suc_eq)
    then show ?thesis using False Suc by simp
  qed
qed simp

lemma voted_active:
  assumes "hf_inv hf" and "unat (window_size hf) < 4294967296"
  shows "max (unat (current_fork_index hf)) (get_voted_fork_index hf h) =
    Max (insert (unat (current_fork_index hf)) {k. k < length (heights hf) \<and> fork_active hf h k})"
  using voted_loop_active [OF assms order_refl, of h] max_find_rev
  by (simp add: get_voted_fork_index_def fork_votes_end)

section \<open>The operations\<close>

lemma current_fork_Some:
  "hf_inv hf \<Longrightarrow> current_fork hf = Some (heights hf ! unat (current_fork_index hf))"
  by (simp add: current_fork_def hf_inv_def)

lemma length_slide_window: "0 < w \<Longrightarrow> length vs \<le> w \<Longrightarrow> length (slide_window w vs v) \<le> w"
  by (simp add: slide_window_def)

lemma HardFork_add_eq:
  fixes hf :: HardFork
  assumes inv: "hf_inv hf"
  defines "f \<equiv> heights hf ! unat (current_fork_index hf)"
  shows "HardFork_add bv vv h hf = Some
    (if bv = hf_version f \<and> vv \<ge> hf_version f
     then (True, raise_fork_index (h + 1)
       (set_votes (slide_window (unat (window_size hf)) (versions hf) (get_effective_version hf vv))
         (hf\<lparr>db := set_hard_fork_version h (hf_version f) (db hf)\<rparr>)))
     else (False, hf))"
proof -
  let ?hf1 = "hf\<lparr>db := set_hard_fork_version h (hf_version f) (db hf)\<rparr>"
  let ?k = "length (versions hf) + 1 - unat (window_size hf)"
  have w: "0 < unat (window_size hf)" using inv by (simp add: hf_inv_def unat_gt_0)
  have "hf_inv ?hf1" using inv by (simp add: hf_inv_def)
  from hf_inv_votes [OF this] have "set_votes (versions hf) ?hf1 = ?hf1" by simp
  then have "trim_window (length (versions hf)) ?hf1 = Some (set_votes (drop ?k (versions hf)) ?hf1)"
    using trim_window_set_votes [of ?hf1 "versions hf" "length (versions hf)"] inv
    by (simp add: hf_inv_def)
  moreover have "push_back_vote v (set_votes (drop ?k (versions hf)) ?hf1) =
      set_votes (slide_window (unat (window_size hf)) (versions hf) v) ?hf1" for v
    using w by (simp add: votes.push_back_mk slide_window_def)
  moreover have "get_effective_version ?hf1 vv = get_effective_version hf vv"
    by (simp add: get_effective_version_def)
  ultimately show ?thesis
    using current_fork_Some [OF inv] by (simp add: HardFork_add_def do_check_def Let_def f_def)
qed

lemma hf_inv_set_votes:
  "hf_inv hf \<Longrightarrow> length vs \<le> unat (window_size hf) \<Longrightarrow> hf_inv (set_votes vs hf)"
  by (simp add: hf_inv_def fun_eq_iff)

lemma hf_inv_db [simp]: "hf_inv (hf\<lparr>db := d\<rparr>) = hf_inv hf"
  by (simp add: hf_inv_def)

lemma hf_inv_index:
  assumes "hf_inv hf" and "i < length (heights hf)"
  shows "hf_inv (hf\<lparr>current_fork_index := of_nat i\<rparr>)"
    and "unat (of_nat i :: u32) = i"
proof -
  have "i < 256" using assms schedule_length [of "heights hf"] by (simp add: hf_inv_def)
  then show i: "unat (of_nat i :: u32) = i" unfolding unat_of_nat by simp
  show "hf_inv (hf\<lparr>current_fork_index := of_nat i\<rparr>)"
    using assms i by (simp add: hf_inv_def)
qed

lemma hf_inv_raise:
  assumes "hf_inv hf"
  shows "hf_inv (raise_fork_index h hf)"
proof -
  have i: "unat (current_fork_index hf) < length (heights hf)" and s: "schedule_ok (heights hf)"
    using assms by (simp_all add: hf_inv_def)
  have "max (unat (current_fork_index hf)) (get_voted_fork_index hf h) < length (heights hf)"
    using i get_voted_lt [OF i, of h] by simp
  then show ?thesis
    unfolding raise_fork_index_eq [OF s i] by (rule hf_inv_index [OF assms])
qed

lemma hf_inv_add:
  assumes "hf_inv hf" and "HardFork_add bv vv h hf = Some (r, hf')"
  shows "hf_inv hf'"
proof -
  have w: "0 < unat (window_size hf)" "length (versions hf) \<le> unat (window_size hf)"
    using assms(1) by (simp_all add: hf_inv_def unat_gt_0)
  show ?thesis
    using assms(2) length_slide_window [OF w] assms(1)
    by (auto simp: HardFork_add_eq [OF assms(1)] split: if_splits
        intro!: hf_inv_raise hf_inv_set_votes)
qed

lemma raise_fork_index_frame:
  "\<exists>i. raise_fork_index h hf = hf\<lparr>current_fork_index := i\<rparr>"
proof -
  have "raise_fork_index h hf = hf\<lparr>current_fork_index := current_fork_index (raise_fork_index h hf)\<rparr>"
    by (cases hf) (simp add: raise_fork_index_def Let_def)
  then show ?thesis by blast
qed

lemma scan_votes_length:
  "scan_votes n h (set_votes vs hf) = Some hf' \<Longrightarrow>
   \<exists>ws. length ws = n \<and> hf' = set_votes (vs @ ws) hf"
proof (induction n arbitrary: h vs)
  case (Suc n)
  then obtain b where "scan_votes n (h + 1)
      (set_votes (vs @ [get_effective_version (set_votes vs hf) (get_block_vote b)]) hf) = Some hf'"
    by (auto simp: votes.push_back_mk split: Option.bind_splits)
  from Suc.IH [OF this] obtain ws where "length ws = n"
    "hf' = set_votes ((vs @ [get_effective_version (set_votes vs hf) (get_block_vote b)]) @ ws) hf"
    by blast
  then show ?case
    by (intro exI [of _ "get_effective_version (set_votes vs hf) (get_block_vote b) # ws"]) simp
qed simp

lemma seek_fork_index_lt: "fs \<noteq> [] \<Longrightarrow> seek_fork_index v fs < length fs"
  by (induction v fs rule: seek_fork_index.induct) auto

lemma lower_fork_index_le: "lower_fork_index fs v n \<le> n"
  by (induction n) auto

lemma scheduled_index_le: "scheduled_index fs h n \<le> n"
  by (induction n) auto

lemma hf_inv_clear: "hf_inv hf \<Longrightarrow> hf_inv (clear_votes hf)"
  unfolding votes.clear_mk by (rule hf_inv_set_votes) simp_all

lemma hf_inv_rescan:
  assumes inv: "hf_inv hf" and "rescan_from_block_height h hf = Some (r, hf')"
    and "unat (db_height (db hf) - h) \<le> unat (window_size hf)"
  shows "hf_inv hf'"
proof (cases "h \<ge> db_height (db hf)")
  case True
  then show ?thesis using assms by (simp add: rescan_from_block_height_def)
next
  case False
  let ?n = "unat (db_height (db hf) - h)"
  from assms(2) False obtain hf1 lastv where scan: "scan_votes ?n h (clear_votes hf) = Some hf1"
    and hf': "hf' = raise_fork_index (db_height (db hf1))
      (hf1\<lparr>current_fork_index := of_nat (seek_fork_index lastv (heights hf1))\<rparr>)"
    by (auto simp: rescan_from_block_height_def split: Option.bind_splits)
  obtain ws where ws: "length ws = ?n" "hf1 = set_votes ws hf"
    using scan_votes_length [OF scan [unfolded votes.clear_mk]] by auto
  have "hf_inv hf1" unfolding ws(2) using inv assms(3) ws(1) by (intro hf_inv_set_votes) simp_all
  then show ?thesis
    unfolding hf' by (intro hf_inv_raise hf_inv_index seek_fork_index_lt) (simp_all add: hf_inv_def)
qed

lemma hf_inv_init:
  assumes "schedule_ok (heights hf)" and "window_size hf \<noteq> 0" and "HardFork_init hf = Some hf'"
  shows "hf_inv hf'"
proof -
  let ?hf1 = "if heights hf = [] then hf\<lparr>heights := [hardfork (original_version hf) 0 0 0]\<rparr> else hf"
  let ?hf2 = "(clear_votes ?hf1)\<lparr>current_fork_index := 0\<rparr>"
  let ?h = "db_height (db hf)" and ?w = "window_size hf"
  have inv: "hf_inv ?hf2"
    using assms(1,2) by (auto simp: hf_inv_def votes.clear_mk fun_eq_iff schedule_ok_def hardfork_def)
  have db: "db ?hf2 = db hf" "window_size ?hf2 = ?w" by (simp_all add: clear_votes_def)
  let ?h' = "if ?h > ?w then ?h - (?w - 1) else 1"
  from assms(3) obtain r where res: "rescan_from_chain_height ?h' ?hf2 = Some (r, hf')"
    unfolding HardFork_init_def Let_def db by auto
  have "unat (?h - (?h' - 1)) \<le> unat ?w"
    by (auto simp: algebra_simps word_le_nat_alt [symmetric])
  then show ?thesis
    using res inv hf_inv_rescan [OF inv, of "?h' - 1" r hf']
    by (auto simp: rescan_from_chain_height_def db simp del: db_height_def split: if_splits)
qed

lemma hf_inv_readd: "hf_inv hf \<Longrightarrow> readd_blocks n h hf = Some hf' \<Longrightarrow> hf_inv hf'"
proof (induction n arbitrary: h hf)
  case (Suc n)
  then obtain b r hf1 where a: "HardFork_add_block b h hf = Some (r, hf1)"
    and n: "readd_blocks n (h + 1) hf1 = Some hf'"
    by (auto split: Option.bind_splits)
  have "hf_inv hf1"
    using hf_inv_add [OF Suc.prems(1)] a by (auto simp: HardFork_add_block_def)
  from Suc.IH [OF this n] show ?case .
qed simp

lemma reorganize_window_le:
  assumes "(w :: u64) \<noteq> 0"
  shows "unat h - unat (if h \<ge> w - 1 then h - (w - 1) else 0) + 1 \<le> unat w"
proof -
  have w: "0 < unat w" using assms by (simp add: unat_gt_0)
  have w1: "unat (w - 1) = unat w - 1" using w by (subst unat_diff_le) simp_all
  show ?thesis
  proof (cases "h \<ge> w - 1")
    case True
    then have "unat (h - (w - 1)) = unat h - (unat w - 1)"
      using w1 by (subst unat_diff_le) (simp_all add: word_le_nat_alt)
    then show ?thesis using True w w1 by (simp add: word_le_nat_alt)
  next
    case False
    then show ?thesis using w w1 by (simp add: word_le_nat_alt)
  qed
qed

lemma hf_inv_reorganize:
  assumes inv: "hf_inv hf" and "reorganize_from_block_height h hf = Some (r, hf')"
  shows "hf_inv hf'"
proof (cases "h \<ge> db_height (db hf)")
  case True
  then show ?thesis using assms by (simp add: reorganize_from_block_height_def)
next
  case False
  let ?w = "window_size hf"
  let ?s = "if h \<ge> ?w - 1 then h - (?w - 1) else 0"
  from assms(2) False obtain sv hf2 where
    scan: "scan_votes (unat h - unat ?s + 1) ?s ((clear_votes hf)\<lparr>current_fork_index :=
        of_nat (lower_fork_index (heights hf) sv (unat (current_fork_index hf)))\<rparr>) = Some hf2"
    and readd: "readd_blocks (unat (db_height (db hf2)) - (unat h + 1)) (h + 1)
        (raise_fork_index (h + 1) hf2) = Some hf'"
    unfolding reorganize_from_block_height_def Let_def
    by (auto split: Option.bind_splits if_splits)
  let ?i = "lower_fork_index (heights hf) sv (unat (current_fork_index hf))"
  let ?hf1 = "hf\<lparr>current_fork_index := of_nat ?i\<rparr>"
  have "?i < length (heights hf)"
    using lower_fork_index_le [of "heights hf" sv "unat (current_fork_index hf)"] inv
    by (simp add: hf_inv_def)
  then have inv1: "hf_inv ?hf1" by (rule hf_inv_index [OF inv])
  obtain ws where ws: "length ws = unat h - unat ?s + 1" "hf2 = set_votes ws ?hf1"
    using scan_votes_length [OF scan [unfolded votes.clear_mk set_votes_simps]] by auto
  have "hf_inv hf2"
    unfolding ws(2) using inv1 ws(1) reorganize_window_le [of ?w h] inv
    by (intro hf_inv_set_votes) (simp_all add: hf_inv_def)
  then show ?thesis by (rule hf_inv_readd [OF hf_inv_raise readd])
qed

lemma pop_votes_step:
  assumes "hf_inv hf" and "pop_back_vote hf = Some hf1"
  shows "\<exists>vs. versions hf = butlast (versions hf) @ [last (versions hf)] \<and>
    push_front_vote v hf1 = set_votes (v # butlast (versions hf)) hf \<and> db hf1 = db hf"
proof -
  let ?vs = "butlast (versions hf)"
  have ne: "versions hf = ?vs @ [last (versions hf)]"
    using assms(2) by (auto simp: pop_back_vote_def split: if_splits)
  have "pop_back_vote (set_votes (?vs @ [last (versions hf)]) hf) = Some (set_votes ?vs hf)"
    by (rule votes.pop_back_mk)
  then have "hf1 = set_votes ?vs hf"
    using assms(2) ne hf_inv_votes [OF assms(1)] by simp
  then show ?thesis using ne by (simp add: votes.push_front_mk)
qed

lemma hf_inv_pop_votes:
  assumes "pop_votes h n hf = Some hf'"
  shows "hf_inv hf \<longrightarrow> hf_inv hf' \<and> heights hf' = heights hf"
proof (rule pop_votes.raw_induct [OF _ assms])
  fix pop h n hf hf'
  assume IH: "\<And>h n hf hf'. pop h n hf = Some hf' \<Longrightarrow> hf_inv hf \<longrightarrow> hf_inv hf' \<and> heights hf' = heights hf"
    and body: "(if n \<le> h then Option.bind (pop_back_vote hf) (\<lambda>hf1.
        Option.bind (get_hard_fork_version (db hf1) h) (\<lambda>v. pop (h - 1) n (push_front_vote v hf1)))
      else Some hf) = Some hf'"
  show "hf_inv hf \<longrightarrow> hf_inv hf' \<and> heights hf' = heights hf"
  proof (intro impI, cases "n \<le> h")
    case True
    assume inv: "hf_inv hf"
    from body True obtain hf1 v where p: "pop_back_vote hf = Some hf1"
      and r: "pop (h - 1) n (push_front_vote v hf1) = Some hf'"
      by (auto split: Option.bind_splits)
    let ?hf2 = "set_votes (v # butlast (versions hf)) hf"
    have e: "push_front_vote v hf1 = ?hf2" and ne: "versions hf = butlast (versions hf) @ [last (versions hf)]"
      using pop_votes_step [OF inv p, of v] by auto
    have "length (v # butlast (versions hf)) = length (versions hf)" by (subst (2) ne) simp
    then have "hf_inv ?hf2" using inv by (intro hf_inv_set_votes) (simp_all add: hf_inv_def)
    then show "hf_inv hf' \<and> heights hf' = heights hf" using IH [OF r] unfolding e by simp
  next
    case False
    assume "hf_inv hf"
    then show "hf_inv hf' \<and> heights hf' = heights hf" using body False by simp
  qed
qed

lemma hf_inv_popped:
  assumes "hf_inv hf" and "on_block_popped n hf = Some hf'"
  shows "hf_inv hf'"
proof -
  from assms(2) obtain hf1 where p: "pop_votes (db_height (db hf) + n - 1) (db_height (db hf)) hf = Some hf1"
    and ne: "heights hf1 \<noteq> []"
    and hf': "hf' = hf1\<lparr>current_fork_index :=
      of_nat (scheduled_index (heights hf1) (db_height (db hf)) (length (heights hf1) - 1))\<rparr>"
    by (auto simp: on_block_popped_def Let_def split: if_splits Option.bind_splits)
  have "hf_inv hf1" using hf_inv_pop_votes [OF p] assms(1) by simp
  moreover have "scheduled_index (heights hf1) (db_height (db hf)) (length (heights hf1) - 1) < length (heights hf1)"
    using scheduled_index_le [of "heights hf1" "db_height (db hf)" "length (heights hf1) - 1"] ne
    by (simp add: le_less_trans)
  ultimately show ?thesis unfolding hf' by (rule hf_inv_index)
qed

lemma hf_reach_inv: "hf_reach hf \<Longrightarrow> hf_inv hf"
proof (induction rule: hf_reach.induct)
  case (new d orig till ft ut w th hf fs hf')
  have h: "heights hf = []" "window_size hf \<noteq> 0"
    using new.hyps(1) by (auto simp: HardFork_new_def split: if_splits)
  obtain fs' where "add_forks fs hf = hf\<lparr>heights := fs'\<rparr>" "schedule_ok fs'"
    using add_forks_frame [of fs hf] h by (auto simp: schedule_ok_def)
  then show ?case using hf_inv_init [OF _ _ new.hyps(2)] h(2) by simp
next
  case (initialised hf hf')
  then show ?case using hf_inv_init [of hf hf'] by (simp add: hf_inv_def)
next
  case (added hf bv vv h r hf')
  then show ?case using hf_inv_add by blast
next
  case (reorganized hf h r hf')
  then show ?case using hf_inv_reorganize by blast
next
  case (popped hf n hf')
  then show ?case using hf_inv_popped by blast
next
  case (database hf d)
  then show ?case by simp
qed

section \<open>Schedules without votes\<close>

lemma scheduled_index_Max:
  "scheduled_index fs h n = Max (insert 0 {k. k \<le> n \<and> hf_height (fs ! k) \<le> h})"
proof (induction n)
  case 0
  show ?case by (rule sym, rule Max_eqI) auto
next
  case (Suc n)
  show ?case
  proof (cases "hf_height (fs ! Suc n) \<le> h")
    case True
    then have "Max (insert 0 {k. k \<le> Suc n \<and> hf_height (fs ! k) \<le> h}) = Suc n"
      by (intro Max_eqI) auto
    then show ?thesis using True by simp
  next
    case False
    then have "{k. k \<le> Suc n \<and> hf_height (fs ! k) \<le> h} = {k. k \<le> n \<and> hf_height (fs ! k) \<le> h}"
      by (auto simp: le_Suc_eq)
    then show ?thesis using False Suc by simp
  qed
qed

lemma Max_insert_Max:
  fixes A B :: "nat set"
  assumes "finite B" and "A \<subseteq> B"
  shows "Max (insert (Max (insert 0 A)) B) = Max (insert 0 B)"
proof (cases "B = {}")
  case True
  then show ?thesis using assms(2) by simp
next
  case False
  have "Max (insert 0 A) \<le> Max (insert 0 B)" using assms by (intro Max_mono) auto
  then show ?thesis using False assms(1) by simp
qed

lemma unvoted_active:
  assumes "unvoted (heights hf)" and "k < length (heights hf)"
  shows "fork_active hf h k \<longleftrightarrow> hf_height (heights hf ! k) \<le> h"
  using assms by (simp add: fork_active_def fork_threshold_def unvoted_def list_all_length)

lemma scheduled_index_zero:
  assumes "schedule_ok fs"
  shows "n < length fs \<Longrightarrow> scheduled_index fs 0 n = 0"
proof (induction n)
  case (Suc n)
  have "hf_height (fs ! 0) < hf_height (fs ! Suc n)"
    using schedule_less(2) [OF assms, of 0 "Suc n"] Suc.prems by simp
  then have "\<not> hf_height (fs ! Suc n) \<le> 0" by (auto simp: word_le_nat_alt word_less_nat_alt)
  then show ?case using Suc by simp
qed simp

text \<open>Under such a schedule the index moves on with the height, whatever the votes.\<close>

lemma unvoted_raise:
  assumes inv: "hf_inv hf" and u: "unvoted (heights hf)" and w: "unat (window_size hf) < 4294967296"
    and i: "unat (current_fork_index hf) = scheduled_index (heights hf) h (length (heights hf) - 1)"
    and le: "h \<le> h'"
  shows "raise_fork_index h' hf =
    hf\<lparr>current_fork_index := of_nat (scheduled_index (heights hf) h' (length (heights hf) - 1))\<rparr>"
proof -
  let ?fs = "heights hf"
  let ?A = "\<lambda>h. {k. k \<le> length ?fs - 1 \<and> hf_height (?fs ! k) \<le> h}"
  have ok: "schedule_ok ?fs" "unat (current_fork_index hf) < length ?fs" using inv by (simp_all add: hf_inv_def)
  have "{k. k < length ?fs \<and> fork_active hf h' k} = ?A h'"
    using unvoted_active [OF u] ok(2) by auto
  then have "max (unat (current_fork_index hf)) (get_voted_fork_index hf h') =
      Max (insert (Max (insert 0 (?A h))) (?A h'))"
    using voted_active [OF inv w, of h'] i by (simp add: scheduled_index_Max)
  also have "\<dots> = Max (insert 0 (?A h'))"
    using le by (intro Max_insert_Max) auto
  finally show ?thesis
    unfolding raise_fork_index_eq [OF ok] by (simp add: scheduled_index_Max)
qed

lemma add_forks_unvoted:
  assumes "sorted_wrt fork_less (gs @ fs)" and "list_all (\<lambda>f. hf_threshold f = 0 \<and> hf_version f \<noteq> 0) fs"
    and "heights hf = gs"
  shows "add_forks fs hf = hf\<lparr>heights := gs @ fs\<rparr>"
  using assms
proof (induction fs arbitrary: gs hf)
  case Nil
  then show ?case by (simp add: add_forks_def)
next
  case (Cons f fs)
  have "fork_less (last gs) f" if "gs \<noteq> []"
    using Cons.prems(1) that by (simp add: sorted_wrt_append)
  then have "snd (add_fork_threshold (hf_version f) (hf_height f) (hf_threshold f) (hf_time f) hf) =
      hf\<lparr>heights := gs @ [f]\<rparr>"
    using Cons.prems(2,3) by (auto simp: add_fork_threshold_def fork_less_def hardfork_def)
  then show ?case
    using Cons.IH [of "gs @ [f]" "hf\<lparr>heights := gs @ [f]\<rparr>"] Cons.prems by (simp add: add_forks_def)
qed

lemma unvoted_tables:
  "unvoted mainnet_hard_forks" "unvoted testnet_hard_forks" "unvoted stagenet_hard_forks"
  by (simp_all add: unvoted_def schedule_ok_def fork_less_def hardfork_def
      mainnet_hard_forks_def testnet_hard_forks_def stagenet_hard_forks_def)

lemma unvoted_table: "nettype \<noteq> FAKECHAIN \<Longrightarrow> unvoted (hard_fork_table nettype options)"
  by (simp add: hard_fork_table_def unvoted_tables)

lemma table_first: "nettype \<noteq> FAKECHAIN \<Longrightarrow> hf_version (hard_fork_table nettype options ! 0) = 1"
  by (simp add: hard_fork_table_def hardfork_def
      mainnet_hard_forks_def testnet_hard_forks_def stagenet_hard_forks_def)

lemma HardFork_init_empty:
  assumes "heights hf \<noteq> []" and "db_blocks (db hf) = []"
  shows "HardFork_init hf = Some (set_votes [] (hf\<lparr>current_fork_index := 0\<rparr>))"
  using assms
  by (simp add: HardFork_init_def Let_def rescan_from_chain_height_def rescan_from_block_height_def
      db_height_def votes.clear_mk)

section \<open>The main chain of a network\<close>

lemma follows_start:
  assumes "db_blocks d = []" and "Blockchain_init_hardfork nettype options d = Some hf" and "nettype \<noteq> FAKECHAIN"
  shows "follows_schedule (hard_fork_table nettype options) hf"
proof -
  let ?fs = "hard_fork_table nettype options"
  have u: "unvoted ?fs" by (rule unvoted_table [OF assms(3)])
  from assms(2) obtain hf0 where n: "HardFork_new d 1 (original_till nettype) DEFAULT_FORKED_TIME
      DEFAULT_UPDATE_TIME DEFAULT_WINDOW_SIZE DEFAULT_THRESHOLD_PERCENT = Some hf0"
    and i: "HardFork_init (add_forks ?fs hf0) = Some hf"
    by (auto simp: Blockchain_init_hardfork_def split: Option.bind_splits)
  have hf0: "heights hf0 = []" "db hf0 = d" "window_size hf0 = 10080" "original_version hf0 = 1"
    using n by (auto simp: HardFork_new_def DEFAULT_WINDOW_SIZE_def split: if_splits)
  have a: "add_forks ?fs hf0 = hf0\<lparr>heights := ?fs\<rparr>"
    using add_forks_unvoted [of "[]" ?fs hf0] u hf0(1) by (simp add: unvoted_def schedule_ok_def)
  have hf: "hf = set_votes [] (hf0\<lparr>heights := ?fs, current_fork_index := 0\<rparr>)"
    using i u hf0(2) assms(1) unfolding a
    by (subst (asm) HardFork_init_empty) (simp_all add: unvoted_def)
  have "scheduled_index ?fs 0 n = 0" if "n < length ?fs" for n
    using scheduled_index_zero [of ?fs] u that by (simp add: unvoted_def)
  then show ?thesis
    using u hf0 assms(1) by (simp add: follows_schedule_def hf hf_inv_def unvoted_def fun_eq_iff)
qed

text \<open>Recording a version and reading it back.\<close>

lemma set_hard_fork_version_simps [simp]:
  "db_blocks (set_hard_fork_version h v d) = db_blocks d"
  "db_hf_versions (set_hard_fork_version h v d) h' = (if h' = h then Some v else db_hf_versions d h')"
  by (simp_all add: set_hard_fork_version_def)

lemma of_nat_height_eq:
  "h \<le> 500000000 \<Longrightarrow> h' \<le> 500000000 \<Longrightarrow> (of_nat h :: u64) = of_nat h' \<longleftrightarrow> h = h'"
  by (simp add: word_unat_eq_iff unat_of_nat)

text \<open>What an accepted block does to the state.\<close>

lemma add_main_chain_block_cases:
  assumes inv: "hf_inv hf" and "add_main_chain_block b hf = Some (r, hf')"
  defines "f \<equiv> heights hf ! unat (current_fork_index hf)"
  obtains (rejected) "hf' = hf" "\<not> r"
  | (accepted) "r" "major_version b = hf_version f"
      "hf' = raise_fork_index (db_height (db hf) + 1)
        (set_votes (slide_window (unat (window_size hf)) (versions hf)
            (get_effective_version hf (get_block_vote b)))
          (hf\<lparr>db := set_hard_fork_version (db_height (db hf)) (hf_version f)
            ((db hf)\<lparr>db_blocks := db_blocks (db hf) @ [b]\<rparr>)\<rparr>))"
proof -
  let ?hf1 = "hf\<lparr>db := (db hf)\<lparr>db_blocks := db_blocks (db hf) @ [b]\<rparr>\<rparr>"
  have inv1: "hf_inv ?hf1" using inv by simp
  have e: "get_effective_version ?hf1 v = get_effective_version hf v" for v
    by (simp add: get_effective_version_def)
  note check = current_fork_Some [OF inv, folded f_def]
  show thesis
  proof (cases "major_version b = hf_version f \<and> hf_version f \<le> get_block_vote b")
    case True
    then have "r" "hf' = raise_fork_index (db_height (db hf) + 1)
        (set_votes (slide_window (unat (window_size hf)) (versions hf)
            (get_effective_version hf (get_block_vote b)))
          (?hf1\<lparr>db := set_hard_fork_version (db_height (db hf)) (hf_version f) (db ?hf1)\<rparr>))"
      using assms(2) check HardFork_add_eq [OF inv1, of "major_version b" "get_block_vote b" "db_height (db hf)"]
      by (auto simp: add_main_chain_block_def HardFork_check_def do_check_def get_block_version_def
          HardFork_add_block_def e f_def)
    then show thesis using True by (intro accepted) simp_all
  next
    case False
    then show thesis
      using assms(2) check
      by (intro rejected) (auto simp: add_main_chain_block_def HardFork_check_def do_check_def get_block_version_def)
  qed
qed

lemma slide_window_nonempty: "0 < w \<Longrightarrow> slide_window w vs v \<noteq> []"
proof -
  assume "0 < w"
  then have "length vs + 1 - w < length (vs @ [v])" by simp
  then show ?thesis unfolding slide_window_def by (simp only: drop_eq_Nil not_le)
qed

lemma follows_append:
  assumes u: "unvoted fs" and fol: "follows_schedule fs hf" and lt: "chain_height hf < 500000000"
    and add: "add_main_chain_block b hf = Some (r, hf')"
  shows "follows_schedule fs hf'"
proof -
  let ?n = "chain_height hf"
  let ?f = "heights hf ! unat (current_fork_index hf)"
  have inv: "hf_inv hf" and fs: "heights hf = fs" and w: "unat (window_size hf) < 4294967296"
    and i: "unat (current_fork_index hf) = scheduled_index fs (of_nat ?n) (length fs - 1)"
    using fol by (simp_all add: follows_schedule_def)
  have f: "?f = scheduled_fork fs (of_nat ?n)" by (simp add: fs i scheduled_fork_def)
  from inv add show ?thesis
  proof (cases rule: add_main_chain_block_cases)
    case rejected
    then show ?thesis using fol by simp
  next
    case accepted
    let ?d = "set_hard_fork_version (of_nat ?n) (hf_version ?f)
      ((db hf)\<lparr>db_blocks := db_blocks (db hf) @ [b]\<rparr>)"
    let ?vs = "slide_window (unat (window_size hf)) (versions hf) (get_effective_version hf (get_block_vote b))"
    let ?hf1 = "set_votes ?vs (hf\<lparr>db := ?d\<rparr>)"
    have inv1: "hf_inv ?hf1"
      using inv by (intro hf_inv_set_votes) (simp_all add: hf_inv_def unat_gt_0 length_slide_window)
    have le: "(of_nat ?n :: u64) \<le> of_nat (Suc ?n)"
      using lt by (simp add: word_le_nat_alt unat_of_nat del: of_nat_Suc)
    have "raise_fork_index (of_nat (Suc ?n)) ?hf1 = ?hf1\<lparr>current_fork_index :=
        of_nat (scheduled_index fs (of_nat (Suc ?n)) (length fs - 1))\<rparr>"
      using unvoted_raise [OF inv1 _ _ _ le] u w i fs by simp
    then have hf': "hf' = ?hf1\<lparr>current_fork_index :=
        of_nat (scheduled_index fs (of_nat (Suc ?n)) (length fs - 1))\<rparr>"
      using accepted(3) by (simp add: db_height_def add.commute)
    have lt1: "scheduled_index fs (of_nat (Suc ?n)) (length fs - 1) < length fs"
      using scheduled_index_le [of fs "of_nat (Suc ?n)" "length fs - 1"] u by (simp add: unvoted_def le_less_trans)
    have ix: "hf_inv hf'" "unat (current_fork_index hf') = scheduled_index fs (of_nat (Suc ?n)) (length fs - 1)"
      using hf_inv_index [OF inv1] lt1 fs unfolding hf' by simp_all
    have recs: "db_hf_versions (db hf') (of_nat h) = Some (hf_version (scheduled_fork fs (of_nat h))) \<and>
        major_version (db_blocks (db hf') ! h) = hf_version (scheduled_fork fs (of_nat h))"
      if "h < Suc ?n" for h
    proof (cases "h = ?n")
      case True
      then show ?thesis using accepted(2) f by (simp add: hf')
    next
      case False
      then show ?thesis
        using that lt fol by (simp add: hf' follows_schedule_def of_nat_height_eq nth_append)
    qed
    have "heights hf' = fs" "original_version hf' = 1" "window_size hf' = window_size hf"
      "chain_height hf' = Suc ?n"
      using fol by (simp_all add: hf' follows_schedule_def)
    moreover have "versions hf' \<noteq> []"
      using slide_window_nonempty [of "unat (window_size hf)"] inv by (simp add: hf' hf_inv_def unat_gt_0)
    ultimately show ?thesis
      unfolding follows_schedule_def using ix recs w lt by (simp del: of_nat_Suc)
  qed
qed

lemma pop_one_vote:
  assumes inv: "hf_inv hf" and ne: "versions hf \<noteq> []" and "0 < n" and v: "get_hard_fork_version (db hf) n = Some v"
  shows "pop_votes n n hf = Some (set_votes (v # butlast (versions hf)) hf)"
proof -
  have lt: "\<not> n \<le> n - 1"
    using assms(3) by (simp add: word_le_nat_alt word_less_nat_alt unat_diff_le)
  let ?vs = "butlast (versions hf)"
  have "set_votes (?vs @ [last (versions hf)]) hf = hf" using hf_inv_votes [OF inv] ne by simp
  then have "pop_back_vote hf = Some (set_votes ?vs hf)"
    using votes.pop_back_mk [of ?vs "last (versions hf)" hf] by simp
  then show ?thesis
    using v lt by (subst pop_votes.simps) (simp add: votes.push_front_mk pop_votes.simps [of "n - 1"])
qed

text \<open>Popping a block is defined unless it would remove the genesis block.\<close>

lemma pop_block_eq:
  assumes u: "unvoted fs" and fol: "follows_schedule fs hf" and n: "1 < chain_height hf"
  defines "h \<equiv> of_nat (chain_height hf - 1) :: u64"
  shows "pop_block_from_blockchain hf =
    Some (set_votes (hf_version (scheduled_fork fs h) # butlast (versions hf))
      (hf\<lparr>db := (db hf)\<lparr>db_blocks := butlast (db_blocks (db hf))\<rparr>,
        current_fork_index := of_nat (scheduled_index fs h (length fs - 1))\<rparr>))"
proof -
  let ?hf1 = "hf\<lparr>db := (db hf)\<lparr>db_blocks := butlast (db_blocks (db hf))\<rparr>\<rparr>"
  let ?v = "hf_version (scheduled_fork fs h)"
  have inv: "hf_inv ?hf1" and fs: "heights hf = fs" "fs \<noteq> []" and ne: "versions ?hf1 \<noteq> []"
    and le: "chain_height hf \<le> 500000000"
    using fol n u by (auto simp: follows_schedule_def unvoted_def)
  have "chain_height hf - 1 < chain_height hf" using n by linarith
  then have rec: "get_hard_fork_version (db ?hf1) h = Some ?v"
    using fol by (simp add: follows_schedule_def get_hard_fork_version_def h_def del: of_nat_diff)
  have "unat h = chain_height hf - 1" using le unfolding h_def unat_of_nat by simp
  then have "0 < h" using n by (simp add: word_less_nat_alt)
  from pop_one_vote [OF inv ne this rec]
  have "pop_votes h h ?hf1 = Some (set_votes (?v # butlast (versions hf)) ?hf1)" by simp
  moreover have "db_height (db ?hf1) = h" by (simp add: db_height_def h_def)
  moreover have "db_height (db hf) > 1" using le n by (simp add: db_height_def word_less_nat_alt unat_of_nat)
  ultimately show ?thesis
    using fs by (simp add: pop_block_from_blockchain_def on_block_popped_def Let_def)
qed

lemma follows_pop:
  assumes u: "unvoted fs" and fol: "follows_schedule fs hf" and pop: "pop_block_from_blockchain hf = Some hf'"
  shows "follows_schedule fs hf'"
proof -
  let ?n = "chain_height hf - 1"
  have le: "chain_height hf \<le> 500000000" and inv: "hf_inv hf" and fs: "heights hf = fs"
    using fol by (simp_all add: follows_schedule_def)
  have "db_height (db hf) > 1"
    using pop by (simp add: pop_block_from_blockchain_def split: if_splits)
  then have n: "1 < chain_height hf" using le by (simp add: db_height_def word_less_nat_alt unat_of_nat)
  note eq = pop_block_eq [OF u fol n]
  have "scheduled_index fs (of_nat ?n) (length fs - 1) < length fs"
    using scheduled_index_le [of fs "of_nat ?n" "length fs - 1"] u by (simp add: unvoted_def le_less_trans)
  note ix = hf_inv_index [OF inv this [folded fs], unfolded fs]
  have ne: "versions hf \<noteq> []" using fol n by (auto simp: follows_schedule_def)
  then have len: "length (hf_version f # butlast (versions hf)) = length (versions hf)" for f :: hardfork_t
    by simp
  have "hf_inv hf'"
    using pop ix(1) inv len unfolding eq
    by (auto simp del: of_nat_diff intro!: hf_inv_set_votes simp: hf_inv_def)
  moreover have "?n \<le> 500000000" using le by linarith
  ultimately show ?thesis
    using fol pop ix(2) unfolding eq follows_schedule_def
    by (auto simp: nth_butlast simp del: of_nat_diff)
qed

lemma main_chain_follows:
  assumes "main_chain nettype hf" and "nettype \<noteq> FAKECHAIN"
  shows "\<exists>options. follows_schedule (hard_fork_table nettype options) hf"
  using assms
proof (induction rule: main_chain.induct)
  case (start d options hf)
  then show ?case using follows_start by blast
next
  case (append hf b r hf')
  then show ?case using follows_append [OF unvoted_table] by (fastforce simp: config_defs)
next
  case (pop hf hf')
  then show ?case using follows_pop [OF unvoted_table] by blast
qed

lemma ideal_version_scheduled:
  "original_version hf = hf_version (heights hf ! 0) \<Longrightarrow>
   ideal_version_loop hf h n = hf_version (heights hf ! scheduled_index (heights hf) h n)"
  by (induction n) simp_all

lemma get_ideal_version_scheduled:
  "heights hf \<noteq> [] \<Longrightarrow> original_version hf = hf_version (heights hf ! 0) \<Longrightarrow>
   get_ideal_version h hf = Some (hf_version (scheduled_fork (heights hf) h))"
  by (simp add: get_ideal_version_def ideal_version_scheduled scheduled_fork_def)

lemma get_current_version_scheduled:
  assumes "follows_schedule fs hf"
  shows "get_current_version hf = Some (hf_version (scheduled_fork fs (of_nat (chain_height hf))))"
  using assms current_fork_Some [of hf]
  by (simp add: follows_schedule_def get_current_version_def scheduled_fork_def)

lemma mainnet_scheduled:
  assumes "m \<le> 500000000"
  shows "hf_version (scheduled_fork mainnet_hard_forks (of_nat m)) = of_nat (max 1 (min 16 m))"
proof (cases "16 \<le> m")
  case True
  then have "(16 :: u64) \<le> of_nat m" using assms by (simp add: word_le_nat_alt unat_of_nat)
  moreover have "scheduled_index mainnet_hard_forks h 15 = 15" if "16 \<le> h" for h
    using that scheduled_index.simps(2) [of mainnet_hard_forks h 14]
    by (simp add: mainnet_hard_forks_def hardfork_def)
  moreover have "length mainnet_hard_forks - 1 = 15" "hf_version (mainnet_hard_forks ! 15) = 16"
    by (simp_all add: mainnet_hard_forks_def hardfork_def)
  ultimately show ?thesis
    using True unfolding scheduled_fork_def by simp
next
  case False
  have "list_all (\<lambda>m. hf_version (scheduled_fork mainnet_hard_forks (of_nat m)) = of_nat (max 1 (min 16 m))) [0..<16]"
    by code_simp
  then show ?thesis using False by (simp add: list_all_iff)
qed

section \<open>Restart\<close>

lemma get_effective_version_frame [simp]:
  "get_effective_version (set_votes vs hf) = get_effective_version hf"
  "get_effective_version (hf\<lparr>db := d\<rparr>) = get_effective_version hf"
  "get_effective_version (hf\<lparr>current_fork_index := i\<rparr>) = get_effective_version hf"
  by (simp_all add: get_effective_version_def fun_eq_iff)

lemma scan_votes_eq:
  "unat h + n \<le> chain_height hf \<Longrightarrow> chain_height hf \<le> 500000000 \<Longrightarrow>
   scan_votes n h (set_votes vs hf) = Some (set_votes (vs @ take n (drop (unat h) (stored_votes hf))) hf)"
proof (induction n arbitrary: h vs)
  case (Suc n)
  then have lt: "unat h < chain_height hf" by simp
  have h1: "unat (h + 1) = Suc (unat h)"
    using Suc.prems by (subst unat_add_no_overflow) simp_all
  let ?v = "get_effective_version hf (get_block_vote (db_blocks (db hf) ! unat h))"
  have "scan_votes (Suc n) h (set_votes vs hf) = scan_votes n (h + 1) (set_votes (vs @ [?v]) hf)"
    using lt by (simp add: get_block_from_height_def votes.push_back_mk)
  also have "\<dots> = Some (set_votes ((vs @ [?v]) @ take n (drop (Suc (unat h)) (stored_votes hf))) hf)"
    using Suc h1 by simp
  also have "?v # take n (drop (Suc (unat h)) (stored_votes hf)) = take (Suc n) (drop (unat h) (stored_votes hf))"
    using lt by (subst Cons_nth_drop_Suc [symmetric]) simp_all
  then have "(vs @ [?v]) @ take n (drop (Suc (unat h)) (stored_votes hf)) =
      vs @ take (Suc n) (drop (unat h) (stored_votes hf))" by simp
  finally show ?case .
qed simp

lemma seek_fork_index_eq:
  "distinct (map hf_version fs) \<Longrightarrow> j < length fs \<Longrightarrow> seek_fork_index (hf_version (fs ! j)) fs = j"
proof (induction fs arbitrary: j)
  case (Cons f fs)
  show ?case
  proof (cases j)
    case 0
    then show ?thesis by (cases fs) simp_all
  next
    case (Suc k)
    then obtain g gs where "fs = g # gs" using Cons.prems(2) by (cases fs) simp_all
    moreover have "hf_version f \<noteq> hf_version (fs ! k)" using Cons.prems Suc by auto
    ultimately show ?thesis using Cons Suc by simp
  qed
qed simp

lemma restart_window:
  assumes "n \<le> 500000000" and "0 < n" and "(w :: u64) \<noteq> 0"
  defines "H \<equiv> of_nat n :: u64"
  defines "h \<equiv> (if H > w then H - (w - 1) else 1) - 1"
  shows "unat h = n - unat w" and "unat (H - h) = n - (n - unat w)" and "h < H"
    and "(if H > w then H - (w - 1) else 1) \<noteq> 0"
proof -
  have H: "unat H = n" using assms(1) by (simp add: H_def unat_of_nat)
  have w: "0 < unat w" using assms(3) by (simp add: unat_gt_0)
  show h: "unat h = n - unat w"
  proof (cases "H > w")
    case True
    then have "h = H - w" by (simp add: h_def)
    then show ?thesis using True H by (simp add: unat_diff_le word_less_nat_alt)
  next
    case False
    then show ?thesis using H by (simp add: h_def word_less_nat_alt)
  qed
  then show "unat (H - h) = n - (n - unat w)" using H by (subst unat_diff_le) simp_all
  show "h < H" using h H w assms(2) by (simp add: word_less_nat_alt)
  show "(if H > w then H - (w - 1) else 1) \<noteq> 0"
  proof (cases "H > w")
    case True
    then have "unat (H - (w - 1)) = n - (unat w - 1)"
      using w H by (simp add: unat_diff_le word_less_nat_alt)
    then show ?thesis using True H w by (auto simp: word_less_nat_alt)
  qed simp
qed

lemma HardFork_init_eq:
  assumes "heights hf \<noteq> []"
  shows "HardFork_init hf = map_option snd (rescan_from_chain_height
    (if db_height (db hf) > window_size hf then db_height (db hf) - (window_size hf - 1) else 1)
    (set_votes [] (hf\<lparr>current_fork_index := 0\<rparr>)))"
  using assms by (simp add: HardFork_init_def Let_def votes.clear_mk)

lemma restorable_init:
  assumes "restorable hf"
  shows "HardFork_init hf = Some hf"
proof (cases "chain_height hf = 0")
  case True
  have inv: "hf_inv hf" and v: "versions hf = []" and i: "current_fork_index hf = 0"
    using assms True by (simp_all add: restorable_def)
  have "hf\<lparr>current_fork_index := 0\<rparr> = hf" using i by (cases hf) simp
  then show ?thesis
    using HardFork_init_empty [of hf] True inv hf_inv_votes [OF inv] v by (simp add: hf_inv_def)
next
  case False
  let ?n = "chain_height hf" and ?w = "window_size hf"
  let ?H = "of_nat ?n :: u64"
  let ?h = "if ?H > ?w then ?H - (?w - 1) else 1"
  from assms False obtain j where inv: "hf_inv hf" and n: "?n \<le> 500000000"
    and vs: "versions hf = drop (?n - unat ?w) (stored_votes hf)" and j: "j < length (heights hf)"
    and rec: "db_hf_versions (db hf) (of_nat (?n - 1)) = Some (hf_version (heights hf ! j))"
    and raised: "hf = raise_fork_index ?H (hf\<lparr>current_fork_index := of_nat j\<rparr>)"
    by (auto simp only: restorable_def if_False)
  have ne: "heights hf \<noteq> []" "?w \<noteq> 0" "0 < ?n" using inv False by (auto simp: hf_inv_def)
  note rw = restart_window [OF n ne(3,2)]
  let ?hf0 = "hf\<lparr>current_fork_index := 0\<rparr>"
  have H1: "?H - 1 = of_nat (?n - 1)" using ne(3) by (cases ?n) simp_all
  have "scan_votes (?n - (?n - unat ?w)) (?h - 1) (set_votes [] ?hf0) =
      Some (set_votes (versions hf) ?hf0)"
    using scan_votes_eq [of "?h - 1" "?n - (?n - unat ?w)" ?hf0 "[]"] n rw(1) vs by simp
  moreover have "set_votes (versions hf) ?hf0 = ?hf0"
    using hf_inv_votes [OF inv] by (metis set_votes_simps(10))
  moreover have "seek_fork_index (hf_version (heights hf ! j)) (heights hf) = j"
    using inv j by (intro seek_fork_index_eq schedule_distinct) (simp_all add: hf_inv_def)
  ultimately have "rescan_from_block_height (?h - 1) (set_votes [] ?hf0) = Some (True, hf)"
    using rw(2,3) rec raised H1
    by (simp add: rescan_from_block_height_def db_height_def votes.clear_mk get_hard_fork_version_def)
  then have "rescan_from_chain_height ?h (set_votes [] ?hf0) = Some (True, hf)"
    unfolding rescan_from_chain_height_def using rw(4) by (simp only: if_False)
  then show ?thesis
    unfolding HardFork_init_eq [OF ne(1)] by (simp only: db_height_def option.map snd_conv)
qed

lemma slide_window_drop:
  assumes "0 < w"
  shows "slide_window w (drop (length xs - w) xs) x = drop (Suc (length xs) - w) (xs @ [x])"
proof (cases "length xs \<le> w")
  case True
  then show ?thesis by (simp add: slide_window_def)
next
  case False
  then show ?thesis using assms by (simp add: slide_window_def Suc_diff_le)
qed

lemma restorable_append:
  assumes res: "restorable hf" and lt: "chain_height hf < 500000000"
    and add: "add_main_chain_block b hf = Some (r, hf')"
  shows "restorable hf'"
proof -
  have inv: "hf_inv hf" using res by (simp add: restorable_def)
  from inv add show ?thesis
  proof (cases rule: add_main_chain_block_cases)
    case rejected
    then show ?thesis using res by simp
  next
    case accepted
    let ?n = "chain_height hf" and ?i = "unat (current_fork_index hf)"
    let ?vs = "slide_window (unat (window_size hf)) (versions hf) (get_effective_version hf (get_block_vote b))"
    let ?X = "set_votes ?vs (hf\<lparr>db := set_hard_fork_version (db_height (db hf)) (hf_version (heights hf ! ?i))
            ((db hf)\<lparr>db_blocks := db_blocks (db hf) @ [b]\<rparr>)\<rparr>)"
    have hf': "hf' = raise_fork_index (of_nat (Suc ?n)) ?X"
      using accepted(3) by (simp add: db_height_def add.commute)
    obtain i where i: "hf' = ?X\<lparr>current_fork_index := i\<rparr>"
      using raise_fork_index_frame unfolding hf' by blast
    have X: "hf'\<lparr>current_fork_index := of_nat ?i\<rparr> = ?X" unfolding i by simp
    have w: "0 < unat (window_size hf)" using inv by (simp add: hf_inv_def unat_gt_0)
    have inv': "hf_inv hf'"
      unfolding hf' using inv w
      by (intro hf_inv_raise hf_inv_set_votes) (simp_all add: hf_inv_def length_slide_window)
    have vs: "versions hf' = drop (chain_height hf' - unat (window_size hf')) (stored_votes hf')"
      using slide_window_drop [OF w, of "stored_votes hf"] res by (simp add: i restorable_def)
    have j: "?i < length (heights hf')" "heights hf' = heights hf"
      using inv by (simp_all add: i hf_inv_def)
    have rec: "db_hf_versions (db hf') (of_nat (chain_height hf' - 1)) = Some (hf_version (heights hf' ! ?i))"
      by (simp add: i db_height_def)
    have "chain_height hf' = Suc ?n" by (simp add: i)
    then have raised: "hf' = raise_fork_index (of_nat (chain_height hf')) (hf'\<lparr>current_fork_index := of_nat ?i\<rparr>)"
      unfolding X using hf' by simp
    show ?thesis
      unfolding restorable_def using inv' vs j(1) rec raised lt \<open>chain_height hf' = Suc ?n\<close> by auto
  qed
qed

lemma HardFork_init_fresh:
  assumes "db_blocks (db hf) = []" and "HardFork_init hf = Some hf'"
  shows "versions hf' = [] \<and> current_fork_index hf' = 0 \<and> db_blocks (db hf') = []"
proof (cases "heights hf = []")
  case True
  let ?hf1 = "hf\<lparr>heights := [hardfork (original_version hf) 0 0 0]\<rparr>"
  have "HardFork_init hf = HardFork_init ?hf1" using True by (simp add: HardFork_init_def)
  also have "\<dots> = Some (set_votes [] (?hf1\<lparr>current_fork_index := 0\<rparr>))"
    using assms(1) by (intro HardFork_init_empty) simp_all
  finally show ?thesis using assms by simp
next
  case False
  from HardFork_init_empty [OF this assms(1)] show ?thesis using assms by simp
qed

lemma grown_chain_restorable: "grown_chain hf \<Longrightarrow> restorable hf"
proof (induction rule: grown_chain.induct)
  case (start d orig till ft ut w th hf fs hf')
  have h: "heights hf = []" "window_size hf \<noteq> 0" "db hf = d"
    using start.hyps(1) by (auto simp: HardFork_new_def split: if_splits)
  obtain fs' where fs': "add_forks fs hf = hf\<lparr>heights := fs'\<rparr>" "schedule_ok fs'"
    using add_forks_frame [of fs hf] h by (auto simp: schedule_ok_def)
  have inv: "hf_inv hf'" using hf_inv_init [OF _ _ start.hyps(3)] fs' h(2) by simp
  have "db_blocks (db (add_forks fs hf)) = []" using fs'(1) h(3) start.hyps(2) by simp
  from HardFork_init_fresh [OF this start.hyps(3)] show ?case
    using inv by (simp add: restorable_def)
next
  case (append hf b r hf')
  have "chain_height hf < 500000000" using append.hyps(2) by (simp add: config_defs)
  then show ?case by (rule restorable_append [OF append.IH _ append.hyps(3)])
qed

lemma raise_index_Max:
  assumes inv: "hf_inv hf" and w: "unat (window_size hf) < 4294967296"
  shows "unat (current_fork_index (raise_fork_index h hf)) =
    Max (insert (unat (current_fork_index hf)) {k. k < length (heights hf) \<and> fork_active hf h k})"
proof -
  let ?m = "max (unat (current_fork_index hf)) (get_voted_fork_index hf h)"
  have i: "unat (current_fork_index hf) < length (heights hf)" and s: "schedule_ok (heights hf)"
    using inv by (simp_all add: hf_inv_def)
  have "?m < length (heights hf)" using i get_voted_lt [OF i, of h] by simp
  then have "unat (of_nat ?m :: u32) = ?m" by (rule hf_inv_index(2) [OF inv])
  then show ?thesis unfolding raise_fork_index_eq [OF s i] voted_active [OF inv w, symmetric] by simp
qed

lemma follows_ideal:
  assumes "nettype \<noteq> FAKECHAIN" and fol: "follows_schedule (hard_fork_table nettype options) hf"
  shows "get_current_version hf = get_ideal_version (db_height (db hf)) hf \<and>
    (\<forall>h < chain_height hf.
      get_ideal_version (of_nat h) hf = Some (major_version (db_blocks (db hf) ! h)) \<and>
      get_hard_fork_version (db hf) (of_nat h) = Some (major_version (db_blocks (db hf) ! h)))"
proof -
  let ?fs = "hard_fork_table nettype options"
  have "heights hf = ?fs" "original_version hf = hf_version (?fs ! 0)" "?fs \<noteq> []"
    using fol table_first [OF assms(1)] unvoted_table [OF assms(1)]
    by (simp_all add: follows_schedule_def unvoted_def)
  then have "get_ideal_version h hf = Some (hf_version (scheduled_fork ?fs h))" for h
    using get_ideal_version_scheduled [of hf h] by simp
  then show ?thesis
    using fol get_current_version_scheduled [OF fol]
    by (simp add: follows_schedule_def db_height_def get_hard_fork_version_def)
qed

text \<open>The networks start from an empty database.\<close>

lemma fresh_network:
  fixes nettype options
  defines "d \<equiv> \<lparr>db_blocks = [], db_hf_versions = \<lambda>_. None\<rparr>"
  assumes net: "nettype \<noteq> FAKECHAIN"
  obtains hf where "Blockchain_init_hardfork nettype options d = Some hf" "hf_reach hf" "grown_chain hf"
    "heights hf = hard_fork_table nettype options" "window_size hf = 10080" "current_fork_index hf = 0"
    "versions hf = []" "db hf = d"
proof -
  let ?fs = "hard_fork_table nettype options"
  let ?new = "HardFork_new d 1 (original_till nettype) DEFAULT_FORKED_TIME DEFAULT_UPDATE_TIME
    DEFAULT_WINDOW_SIZE DEFAULT_THRESHOLD_PERCENT"
  obtain hf0 where new: "?new = Some hf0" and hf0: "heights hf0 = []" "db hf0 = d" "window_size hf0 = 10080"
    by (auto simp: HardFork_new_def DEFAULT_WINDOW_SIZE_def DEFAULT_THRESHOLD_PERCENT_def)
  have u: "unvoted ?fs" by (rule unvoted_table [OF net])
  have a: "add_forks ?fs hf0 = hf0\<lparr>heights := ?fs\<rparr>"
    using add_forks_unvoted [of "[]" ?fs hf0] u hf0(1) by (simp add: unvoted_def schedule_ok_def)
  let ?hf = "set_votes [] (hf0\<lparr>heights := ?fs, current_fork_index := 0\<rparr>)"
  have e: "HardFork_init (add_forks ?fs hf0) = Some ?hf"
    unfolding a using u hf0(2) HardFork_init_empty [of "hf0\<lparr>heights := ?fs\<rparr>"]
    by (simp add: unvoted_def d_def)
  show thesis
  proof (rule that [of ?hf])
    show "Blockchain_init_hardfork nettype options d = Some ?hf"
      using new e by (simp add: Blockchain_init_hardfork_def)
    show "hf_reach ?hf" by (rule hf_reach.new [OF new e])
    show "grown_chain ?hf" by (rule grown_chain.start [OF new _ e]) (simp add: d_def)
  qed (simp_all add: hf0)
qed

lemma fresh_mainnet:
  obtains hf where
    "Blockchain_init_hardfork MAINNET [] \<lparr>db_blocks = [], db_hf_versions = \<lambda>_. None\<rparr> = Some hf"
    "heights hf = mainnet_hard_forks" "window_size hf = 10080" "current_fork_index hf = 0" "versions hf = []"
    "hf_reach hf"
  by (rule fresh_network [of MAINNET "[]"]) (auto simp: hard_fork_table_def)

lemma fresh_main_chain:
  "nettype \<noteq> FAKECHAIN \<Longrightarrow> \<exists>hf. main_chain nettype hf \<and> db_blocks (db hf) = []"
proof (rule fresh_network [of nettype "[]"])
  fix hf
  assume i: "Blockchain_init_hardfork nettype [] \<lparr>db_blocks = [], db_hf_versions = \<lambda>_. None\<rparr> = Some hf"
    and d: "db hf = \<lparr>db_blocks = [], db_hf_versions = \<lambda>_. None\<rparr>"
  have "main_chain nettype hf" by (rule main_chain.start [OF _ i]) simp
  then show ?thesis using d by auto
qed

lemma add_main_chain_block_accepts:
  assumes inv: "hf_inv hf" and v: "get_current_version hf = Some v"
    and b: "major_version b = v" "v \<le> get_block_vote b"
  shows "\<exists>hf'. add_main_chain_block b hf = Some (True, hf') \<and>
    db_blocks (db hf') = db_blocks (db hf) @ [b]"
proof -
  let ?hf1 = "hf\<lparr>db := (db hf)\<lparr>db_blocks := db_blocks (db hf) @ [b]\<rparr>\<rparr>"
  let ?h = "db_height (db hf)"
  have f: "hf_version (heights hf ! unat (current_fork_index hf)) = v"
    and chk: "HardFork_check hf b = Some True"
    using v b current_fork_Some [OF inv]
    by (simp_all add: get_current_version_def HardFork_check_def do_check_def get_block_version_def)
  let ?X = "set_votes (slide_window (unat (window_size hf)) (versions hf) (get_effective_version ?hf1 (get_block_vote b)))
      (?hf1\<lparr>db := set_hard_fork_version ?h v (db ?hf1)\<rparr>)"
  have "HardFork_add_block b ?h ?hf1 = Some (True, raise_fork_index (?h + 1) ?X)"
    using HardFork_add_eq [of ?hf1 "major_version b" "get_block_vote b" ?h] inv b f
    by (simp add: HardFork_add_block_def get_block_version_def)
  then have "add_main_chain_block b hf = Some (True, raise_fork_index (?h + 1) ?X)"
    using chk by (simp add: add_main_chain_block_def Let_def)
  moreover obtain i where "raise_fork_index (?h + 1) ?X = ?X\<lparr>current_fork_index := i\<rparr>"
    using raise_fork_index_frame by blast
  then have "db_blocks (db (raise_fork_index (?h + 1) ?X)) = db_blocks (db hf) @ [b]" by simp
  ultimately show ?thesis by blast
qed

lemma popped_window_differs:
  "let b = \<lambda>minor. \<lparr>major_version = 1, minor_version = minor, timestamp = 0, prev_id = [], nonce = 0\<rparr>;
       run = Option.bind (HardFork_new \<lparr>db_blocks = [], db_hf_versions = \<lambda>_. None\<rparr> 1 0 0 0 1 80) (\<lambda>hf0.
         Option.bind (HardFork_init (add_forks [hardfork 1 1 0 1, hardfork 2 100 80 2] hf0)) (\<lambda>hf1.
         Option.bind (add_main_chain_block (b 2) hf1) (\<lambda>(_, hf2).
         Option.bind (add_main_chain_block (b 1) hf2) (\<lambda>(_, hf3). pop_block_from_blockchain hf3))))
   in map_option versions run = Some [1] \<and>
      map_option versions (Option.bind run HardFork_init) = Some [2]"
  by code_simp

lemma pop_votes_empty_chain: "pop_votes h 0 hf = None"
proof -
  have "n = 0 \<longrightarrow> False" if "pop_votes h n hf = Some hf'" for h n hf hf'
  proof (rule pop_votes.raw_induct [OF _ that])
    fix pop h n hf hf'
    assume IH: "\<And>h n hf hf'. pop h n hf = Some hf' \<Longrightarrow> n = 0 \<longrightarrow> False"
      and body: "(if n \<le> h then Option.bind (pop_back_vote hf) (\<lambda>hf1.
          Option.bind (get_hard_fork_version (db hf1) h) (\<lambda>v. pop (h - 1) n (push_front_vote v hf1)))
        else Some hf) = Some hf'"
    show "n = 0 \<longrightarrow> False"
      using body by (auto split: Option.bind_splits if_splits dest: IH)
  qed
  then show ?thesis by (cases "pop_votes h 0 hf") auto
qed

section \<open>Properties\<close>

text \<open>
  C1: the invariant of the voting object. However it is set up and driven, and whatever the rest of
  the node does to the database, the current version is an entry of the schedule, the schedule is
  ordered, the window of votes is not longer than configured, and the counts are those of the window.
\<close>

theorem hardfork_invariant:
  assumes "hf_reach hf"
  shows "(\<exists>v. get_current_version hf = Some v) \<and> sorted_wrt fork_less (heights hf) \<and>
    length (versions hf) \<le> unat (window_size hf) \<and>
    last_versions hf = (\<lambda>v. of_nat (count_list (versions hf) v))"
proof -
  have inv: "hf_inv hf" by (rule hf_reach_inv [OF assms])
  then show ?thesis
    using current_fork_Some [OF inv] by (simp add: hf_inv_def schedule_ok_def get_current_version_def)
qed

theorem hardfork_invariant_witness:
  "\<exists>hf v. Blockchain_init_hardfork MAINNET [] \<lparr>db_blocks = [], db_hf_versions = \<lambda>_. None\<rparr> = Some hf \<and>
     hf_reach hf \<and> get_current_version hf = Some v"
proof -
  obtain hf where "Blockchain_init_hardfork MAINNET [] \<lparr>db_blocks = [], db_hf_versions = \<lambda>_. None\<rparr> = Some hf"
    "hf_reach hf"
    by (rule fresh_mainnet)
  with hardfork_invariant [of hf] show ?thesis by blast
qed

text \<open>
  C6: adding a block. In every reachable state the call is defined. It refuses a block whose
  version is not the one in force or whose vote is lower, and then changes nothing. Otherwise it records the
  version, slides the window over the vote, and moves to the latest entry of the schedule whose height
  is reached and for which enough of the window votes; it never moves back.
\<close>

theorem HardFork_add_correct:
  assumes "hf_reach hf" and "unat (window_size hf) < 2 ^ 32"
  defines "f \<equiv> heights hf ! unat (current_fork_index hf)"
  shows "\<exists>hf'. HardFork_add bv vv h hf = Some (bv = hf_version f \<and> hf_version f \<le> vv, hf') \<and>
    (if bv = hf_version f \<and> hf_version f \<le> vv
     then db hf' = set_hard_fork_version h (hf_version f) (db hf) \<and> heights hf' = heights hf \<and>
       versions hf' = slide_window (unat (window_size hf)) (versions hf) (get_effective_version hf vv) \<and>
       unat (current_fork_index hf') =
         Max (insert (unat (current_fork_index hf)) {k. k < length (heights hf) \<and> fork_active hf' (h + 1) k})
     else hf' = hf)"
proof -
  have inv: "hf_inv hf" by (rule hf_reach_inv [OF assms(1)])
  note add = HardFork_add_eq [OF inv, of bv vv h, folded f_def]
  show ?thesis
  proof (cases "bv = hf_version f \<and> hf_version f \<le> vv")
    case False
    then show ?thesis unfolding add by (simp only: if_False) simp
  next
    case True
    define X where "X = set_votes (slide_window (unat (window_size hf)) (versions hf)
      (get_effective_version hf vv)) (hf\<lparr>db := set_hard_fork_version h (hf_version f) (db hf)\<rparr>)"
    define hf' where "hf' = raise_fork_index (h + 1) X"
    have X: "hf_inv X"
      unfolding X_def using inv
      by (intro hf_inv_set_votes) (simp_all add: hf_inv_def unat_gt_0 length_slide_window)
    have fr: "heights X = heights hf" "current_fork_index X = current_fork_index hf"
      "window_size X = window_size hf" by (simp_all add: X_def)
    obtain i where i: "hf' = X\<lparr>current_fork_index := i\<rparr>"
      using raise_fork_index_frame unfolding hf'_def by blast
    have act: "fork_active hf' = fork_active X"
      by (simp add: i fork_active_def fork_threshold_def fork_votes_def fun_eq_iff)
    have "unat (current_fork_index hf') =
        Max (insert (unat (current_fork_index hf)) {k. k < length (heights hf) \<and> fork_active hf' (h + 1) k})"
      using raise_index_Max [OF X, of "h + 1"] assms(2) unfolding hf'_def [symmetric] act fr by simp
    moreover have "db hf' = set_hard_fork_version h (hf_version f) (db hf)" "heights hf' = heights hf"
      "versions hf' = slide_window (unat (window_size hf)) (versions hf) (get_effective_version hf vv)"
      by (simp_all add: i X_def)
    moreover have "HardFork_add bv vv h hf = Some (True, hf')"
      unfolding add hf'_def X_def using True by (simp only: if_True simp_thms)
    ultimately show ?thesis using True by (simp only: if_True simp_thms) blast
  qed
qed

theorem HardFork_add_correct_witness:
  "\<exists>hf hf'. Blockchain_init_hardfork MAINNET [] \<lparr>db_blocks = [], db_hf_versions = \<lambda>_. None\<rparr> = Some hf \<and>
     HardFork_add 1 1 0 hf = Some (True, hf') \<and> versions hf' = [1] \<and>
     get_hard_fork_version (db hf') 0 = Some 1"
proof -
  obtain hf where hf: "Blockchain_init_hardfork MAINNET [] \<lparr>db_blocks = [], db_hf_versions = \<lambda>_. None\<rparr> = Some hf"
    "heights hf = mainnet_hard_forks" "window_size hf = 10080" "current_fork_index hf = 0" "versions hf = []"
    "hf_reach hf"
    by (rule fresh_mainnet)
  have f: "hf_version (mainnet_hard_forks ! 0) = 1" "hf_version (last mainnet_hard_forks) = 16"
    "mainnet_hard_forks \<noteq> []"
    by (simp_all add: mainnet_hard_forks_def hardfork_def)
  show ?thesis
    using HardFork_add_correct [OF hf(6), of 1 1 0] hf f
    by (auto simp: slide_window_def get_effective_version_def get_hard_fork_version_def)
qed

text \<open>
  C2: the scheduled networks follow their schedule. After any sequence of accepted blocks and pops from an
  empty database, the version in force is the ideal version of the next height, and every stored
  block has the ideal version of its height, which is also the one recorded for it.
\<close>

theorem version_follows_schedule:
  assumes "main_chain nettype hf" and "nettype \<noteq> FAKECHAIN"
  shows "get_current_version hf = get_ideal_version (db_height (db hf)) hf \<and>
    (\<forall>h < length (db_blocks (db hf)).
      get_ideal_version (of_nat h) hf = Some (major_version (db_blocks (db hf) ! h)) \<and>
      get_hard_fork_version (db hf) (of_nat h) = Some (major_version (db_blocks (db hf) ! h)))"
proof -
  obtain options where fol: "follows_schedule (hard_fork_table nettype options) hf"
    using main_chain_follows [OF assms] by blast
  then show ?thesis by (rule follows_ideal [OF assms(2)])
qed

theorem version_follows_schedule_witness:
  "\<exists>hf. main_chain STAGENET hf \<and> get_current_version hf = get_ideal_version 0 hf"
proof -
  obtain hf where hf: "main_chain STAGENET hf" "db_blocks (db hf) = []"
    using fresh_main_chain by blast
  show ?thesis
    using version_follows_schedule [OF hf(1)] hf by (auto simp: db_height_def)
qed

text \<open>
  The main network climbs one version per block from block 1 to block 16 and stays at 16.
\<close>

lemma mainnet_version_ladder:
  assumes "main_chain MAINNET hf"
  shows "get_current_version hf = Some (of_nat (max 1 (min 16 (length (db_blocks (db hf))))))"
proof -
  obtain options where fol: "follows_schedule (hard_fork_table MAINNET options) hf"
    using main_chain_follows [OF assms] by auto
  then show ?thesis
    using get_current_version_scheduled [OF fol] mainnet_scheduled
    by (simp add: follows_schedule_def hard_fork_table_def)
qed

text \<open>
  C10: a restart restores the state. For any schedule, thresholds and window, initialising from the database of
  a chain that grew block by block gives back exactly the state the running node had.
\<close>

theorem restart_restores:
  assumes "grown_chain hf"
  shows "HardFork_init hf = Some hf"
  by (rule restorable_init [OF grown_chain_restorable [OF assms]])

theorem restart_restores_witness:
  "\<exists>hf. grown_chain hf \<and> heights hf = mainnet_hard_forks \<and> HardFork_init hf = Some hf"
proof (rule fresh_network [of MAINNET "[]"])
  fix hf
  assume "grown_chain hf" "heights hf = hard_fork_table MAINNET []"
  with restart_restores [of hf] show ?thesis by (auto simp: hard_fork_table_def)
qed simp

text \<open>
  C19: popping terminates. On a scheduled network the unsigned loop over the popped heights ends and
  reads only recorded versions: every pop but that of the genesis block returns, and the version goes back
  to the one scheduled for the new height.
\<close>

theorem pop_block_returns:
  assumes "main_chain nettype hf" and "nettype \<noteq> FAKECHAIN" and "1 < length (db_blocks (db hf))"
  shows "\<exists>hf'. pop_block_from_blockchain hf = Some hf' \<and>
    db_blocks (db hf') = butlast (db_blocks (db hf)) \<and> length (versions hf') = length (versions hf) \<and>
    get_current_version hf' = get_ideal_version (db_height (db hf')) hf'"
proof -
  obtain options where fol: "follows_schedule (hard_fork_table nettype options) hf"
    using main_chain_follows [OF assms(1,2)] by blast
  note eq = pop_block_eq [OF unvoted_table [OF assms(2)] fol assms(3)]
  then obtain hf' where p: "pop_block_from_blockchain hf = Some hf'"
    and b: "db_blocks (db hf') = butlast (db_blocks (db hf))"
      "length (versions hf') = Suc (length (versions hf) - 1)"
    by auto
  have "versions hf \<noteq> []" using fol assms(3) by (auto simp: follows_schedule_def)
  then have "length (versions hf') = length (versions hf)" using b(2) by (cases "versions hf") simp_all
  moreover have "follows_schedule (hard_fork_table nettype options) hf'"
    by (rule follows_pop [OF unvoted_table [OF assms(2)] fol p])
  then have "get_current_version hf' = get_ideal_version (db_height (db hf')) hf'"
    by (rule follows_ideal [OF assms(2), THEN conjunct1])
  ultimately show ?thesis using p b(1) by blast
qed

lemma mainnet_two_blocks: "\<exists>hf. main_chain MAINNET hf \<and> length (db_blocks (db hf)) = 2"
proof -
  let ?b = "\<lparr>major_version = 1, minor_version = 1, timestamp = 0, prev_id = [], nonce = 0\<rparr>"
  have step: "\<exists>hf'. main_chain MAINNET hf' \<and> length (db_blocks (db hf')) = Suc n"
    if hf: "main_chain MAINNET hf" "length (db_blocks (db hf)) = n" and n: "n < 2" for hf n
  proof -
    obtain options where fol: "follows_schedule (hard_fork_table MAINNET options) hf"
      using main_chain_follows [OF hf(1)] by auto
    then have inv: "hf_inv hf" and le: "chain_height hf \<le> 500000000" by (simp_all add: follows_schedule_def)
    have "get_current_version hf = Some 1"
      using get_current_version_scheduled [OF fol] mainnet_scheduled [OF le] hf(2) n
      by (cases n) (simp_all add: hard_fork_table_def)
    from add_main_chain_block_accepts [OF inv this, of ?b]
    obtain hf' where "add_main_chain_block ?b hf = Some (True, hf')"
      "db_blocks (db hf') = db_blocks (db hf) @ [?b]"
      by (auto simp: get_block_vote_def)
    then show ?thesis
      using main_chain.append [OF hf(1)] hf(2) n by (fastforce simp: config_defs)
  qed
  obtain hf0 where "main_chain MAINNET hf0" "length (db_blocks (db hf0)) = 0"
    using fresh_main_chain [of MAINNET] by auto
  from step [OF this] obtain hf1 where "main_chain MAINNET hf1" "length (db_blocks (db hf1)) = 1" by auto
  from step [OF this] show ?thesis by (simp add: numeral_2_eq_2)
qed

theorem pop_block_returns_witness:
  "\<exists>hf hf'. main_chain MAINNET hf \<and> length (db_blocks (db hf)) = 2 \<and>
     pop_block_from_blockchain hf = Some hf' \<and> length (db_blocks (db hf')) = 1"
proof -
  obtain hf where hf: "main_chain MAINNET hf" "length (db_blocks (db hf)) = 2"
    using mainnet_two_blocks by blast
  from pop_block_returns [OF hf(1)] hf show ?thesis by fastforce
qed



end
