(* ===== verification/Pruning.thy ===== *)
theory Pruning
  imports Config
begin

text \<open>
  Pruning of old blocks: \<open>hashmonkey-core/src/common/pruning.h\<close> and \<open>pruning.cpp\<close>. The heights of a chain are cut
  into stripes of 4096 blocks, numbered in turn from 1 to a power of two; a pruned node keeps the full
  data of one stripe and of the last 5500 blocks. A seed packs the number of the stripe and the
  logarithm of how many there are.

  A failed \<open>CHECK_AND_ASSERT_THROW_MES\<close> is \<open>None\<close>. Shift counts come from a seed or are 3, so they are
  below the width of the shifted word in every call.
\<close>

section \<open>Definitions\<close>

definition PRUNING_SEED_LOG_STRIPES_SHIFT :: nat where
  [config_defs]: "PRUNING_SEED_LOG_STRIPES_SHIFT = 7"

definition PRUNING_SEED_LOG_STRIPES_MASK :: u32 where
  [config_defs]: "PRUNING_SEED_LOG_STRIPES_MASK = 0x7"

definition PRUNING_SEED_STRIPE_SHIFT :: nat where
  [config_defs]: "PRUNING_SEED_STRIPE_SHIFT = 0"

definition PRUNING_SEED_STRIPE_MASK :: u32 where
  [config_defs]: "PRUNING_SEED_STRIPE_MASK = 0x7f"

definition get_pruning_log_stripes :: "u32 \<Rightarrow> u32" where
  "get_pruning_log_stripes pruning_seed =
     drop_bit PRUNING_SEED_LOG_STRIPES_SHIFT pruning_seed AND PRUNING_SEED_LOG_STRIPES_MASK"

definition get_seed_stripe :: "u32 \<Rightarrow> u32" where
  "get_seed_stripe pruning_seed =
     (if pruning_seed = 0 then 0
      else 1 + (drop_bit PRUNING_SEED_STRIPE_SHIFT pruning_seed AND PRUNING_SEED_STRIPE_MASK))"

definition make_pruning_seed :: "u32 \<Rightarrow> u32 \<Rightarrow> u32 option" where
  "make_pruning_seed stripe log_stripes =
     (if \<not> log_stripes \<le> PRUNING_SEED_LOG_STRIPES_MASK then None
      else if \<not> (stripe > 0 \<and> (ucast stripe :: u64) \<le> push_bit (unat log_stripes) 1) then None
      else Some (push_bit PRUNING_SEED_LOG_STRIPES_SHIFT log_stripes OR
                 push_bit PRUNING_SEED_STRIPE_SHIFT (stripe - 1)))"

definition get_pruning_stripe :: "u64 \<Rightarrow> u64 \<Rightarrow> u32 \<Rightarrow> u32" where
  "get_pruning_stripe block_height blockchain_height log_stripes =
     (if block_height + CRYPTONOTE_PRUNING_TIP_BLOCKS \<ge> blockchain_height then 0
      else ucast ((block_height div CRYPTONOTE_PRUNING_STRIPE_SIZE AND (push_bit (unat log_stripes) 1 - 1)) + 1))"

definition has_unpruned_block :: "u64 \<Rightarrow> u64 \<Rightarrow> u32 \<Rightarrow> bool" where
  "has_unpruned_block block_height blockchain_height pruning_seed =
     (let stripe = get_seed_stripe pruning_seed
      in if stripe = 0 then True
         else let log_stripes = get_pruning_log_stripes pruning_seed;
                  block_stripe = get_pruning_stripe block_height blockchain_height log_stripes
              in block_stripe = 0 \<or> block_stripe = stripe)"

definition get_pruning_seed :: "u64 \<Rightarrow> u64 \<Rightarrow> u32 \<Rightarrow> u32 option" where
  "get_pruning_seed block_height blockchain_height log_stripes =
     (let stripe = get_pruning_stripe block_height blockchain_height log_stripes
      in if stripe = 0 then Some 0 else make_pruning_seed stripe log_stripes)"

definition get_next_unpruned_block_height :: "u64 \<Rightarrow> u64 \<Rightarrow> u32 \<Rightarrow> u64" where
  "get_next_unpruned_block_height block_height blockchain_height pruning_seed =
     (if \<not> block_height \<le> CRYPTONOTE_MAX_BLOCK_NUMBER + 1 then block_height
      else if \<not> blockchain_height \<le> CRYPTONOTE_MAX_BLOCK_NUMBER + 1 then block_height
      else let stripe = get_seed_stripe pruning_seed
      in if stripe = 0 then block_height
      else if block_height + CRYPTONOTE_PRUNING_TIP_BLOCKS \<ge> blockchain_height then block_height
      else let seed_log_stripes = get_pruning_log_stripes pruning_seed;
               log_stripes = unat (if seed_log_stripes \<noteq> 0 then ucast seed_log_stripes else CRYPTONOTE_PRUNING_LOG_STRIPES);
               mask = push_bit log_stripes 1 - 1;
               block_pruning_stripe = ucast ((block_height div CRYPTONOTE_PRUNING_STRIPE_SIZE AND mask) + 1)
      in if block_pruning_stripe = stripe then block_height
      else let cycles = drop_bit log_stripes (block_height div CRYPTONOTE_PRUNING_STRIPE_SIZE);
               cycle_start = cycles + (if stripe > block_pruning_stripe then 0 else 1);
               h = cycle_start * push_bit log_stripes CRYPTONOTE_PRUNING_STRIPE_SIZE +
                   ucast ((stripe - 1) * ucast CRYPTONOTE_PRUNING_STRIPE_SIZE)
      in if h + CRYPTONOTE_PRUNING_TIP_BLOCKS > blockchain_height
         then (if blockchain_height < CRYPTONOTE_PRUNING_TIP_BLOCKS then 0
               else blockchain_height - CRYPTONOTE_PRUNING_TIP_BLOCKS)
      else if \<not> h \<ge> block_height then block_height
      else h)"

definition get_next_pruned_block_height :: "u64 \<Rightarrow> u64 \<Rightarrow> u32 \<Rightarrow> u64 option" where
  "get_next_pruned_block_height block_height blockchain_height pruning_seed =
     (let stripe = get_seed_stripe pruning_seed
      in if stripe = 0 then Some blockchain_height
      else if block_height + CRYPTONOTE_PRUNING_TIP_BLOCKS \<ge> blockchain_height then Some blockchain_height
      else let seed_log_stripes = get_pruning_log_stripes pruning_seed;
               log_stripes = (if seed_log_stripes \<noteq> 0 then ucast seed_log_stripes else CRYPTONOTE_PRUNING_LOG_STRIPES);
               mask = push_bit (unat log_stripes) 1 - 1;
               block_pruning_seed = ucast ((block_height div CRYPTONOTE_PRUNING_STRIPE_SIZE AND mask) + 1)
      in if block_pruning_seed \<noteq> stripe then Some block_height
      else let next_stripe = ucast (1 + ((ucast block_pruning_seed :: u64) AND mask))
      in map_option (get_next_unpruned_block_height block_height blockchain_height)
           (make_pruning_seed next_stripe (ucast log_stripes)))"

text \<open>\<open>r\<close> is the byte drawn by \<open>crypto::rand\<close>.\<close>

definition get_random_stripe :: "u8 \<Rightarrow> u32" where
  "get_random_stripe r = ucast (1 + (ucast r :: u64) mod push_bit (unat CRYPTONOTE_PRUNING_LOG_STRIPES) 1)"

subsection \<open>Specification\<close>

text \<open>The seeds of pruned nodes, and what a node with such a seed keeps, on natural numbers.\<close>

definition legal_stripe :: "u32 \<times> u32 \<Rightarrow> bool" where
  "legal_stripe sl = (case sl of (s, l) \<Rightarrow> 1 \<le> unat l \<and> unat l \<le> 7 \<and> 1 \<le> unat s \<and> unat s \<le> 2 ^ unat l)"

definition kept :: "nat \<Rightarrow> nat \<Rightarrow> nat \<Rightarrow> nat \<Rightarrow> bool" where
  "kept s l H h \<longleftrightarrow> H \<le> h + 5500 \<or> h div 4096 mod 2 ^ l + 1 = s"

section \<open>Seeds\<close>

lemma make_pruning_seed_value:
  assumes "legal_stripe (s, l)"
  shows "\<exists>seed. make_pruning_seed s l = Some seed \<and> unat seed = unat l * 128 + (unat s - 1)"
proof -
  from assms have l: "1 \<le> unat l" "unat l \<le> 7" and s: "1 \<le> unat s" "unat s \<le> 2 ^ unat l"
    by (simp_all add: legal_stripe_def)
  have s128: "unat s \<le> 128" using s(2) power_increasing [OF l(2), of "2 :: nat"] by simp
  have us: "unat (s - 1) = unat s - 1" using s(1) by (simp add: unat_diff_le)
  have or: "unat (push_bit 7 l OR (s - 1)) = unat l * 2 ^ 7 + unat (s - 1)"
    by (rule unat_or_push_bit) (use l s128 us in simp_all)
  have "(ucast s :: u64) \<le> push_bit (unat l) 1"
    unfolding word_le_nat_alt using s(2) l(2) by (subst unat_shift_one) (simp_all add: unat_ucast_le)
  moreover have "l \<le> 7" "0 < s" using l s by (simp_all add: word_le_nat_alt word_less_nat_alt)
  ultimately have "make_pruning_seed s l = Some (push_bit 7 l OR (s - 1))"
    by (simp add: make_pruning_seed_def config_defs)
  then show ?thesis using or us by simp
qed

lemma seed_fields:
  assumes "unat seed = l * 128 + s" and "s < 128" and "l \<le> 7" and "0 < l"
  shows "unat (get_seed_stripe seed) = s + 1" and "unat (get_pruning_log_stripes seed) = l"
proof -
  have nz: "seed \<noteq> 0" using assms by auto
  have m7: "unat (w AND 0x7f) = unat w mod 128" for w :: u32 using unat_and_mask [of w 7] by (simp add: push_bit_eq_mult)
  have m3: "unat (w AND 7) = unat w mod 8" for w :: u32 using unat_and_mask [of w 3] by (simp add: push_bit_eq_mult)
  have "unat (seed AND 0x7f) = s" unfolding m7 assms(1) using assms(2) by simp
  then have "unat (1 + (seed AND 0x7f)) = s + 1" using assms(2) by (subst unat_add_no_overflow) simp_all
  then show "unat (get_seed_stripe seed) = s + 1" using nz by (simp add: get_seed_stripe_def config_defs)
  have "unat (drop_bit 7 seed) = l" unfolding unat_drop_bit assms(1) using assms(2) by simp
  then show "unat (get_pruning_log_stripes seed) = l"
    using assms(3) by (simp add: get_pruning_log_stripes_def config_defs m3)
qed

lemma legal_seed:
  assumes "legal_stripe (s, l)" and "make_pruning_seed s l = Some seed"
  shows "get_seed_stripe seed = s" and "get_pruning_log_stripes seed = l" and "get_seed_stripe seed \<noteq> 0"
proof -
  from assms(1) have l: "1 \<le> unat l" "unat l \<le> 7" and s: "1 \<le> unat s" "unat s \<le> 2 ^ unat l"
    by (simp_all add: legal_stripe_def)
  have v: "unat seed = unat l * 128 + (unat s - 1)" using make_pruning_seed_value [OF assms(1)] assms(2) by auto
  have s128: "unat s - 1 < 128" using s power_increasing [OF l(2), of "2 :: nat"] by simp
  show st: "get_seed_stripe seed = s" using seed_fields(1) [OF v s128 l(2)] l(1) s(1) by (simp add: word_unat_eq_iff)
  show "get_pruning_log_stripes seed = l" using seed_fields(2) [OF v s128 l(2)] l(1) by (simp add: word_unat_eq_iff)
  show "get_seed_stripe seed \<noteq> 0" unfolding st using s(1) by auto
qed

interpretation seed: codec legal_stripe "\<lambda>(s, l). make_pruning_seed s l"
  "\<lambda>seed. Some (get_seed_stripe seed, get_pruning_log_stripes seed)"
proof
  fix x assume "legal_stripe x"
  then show "\<exists>e. (case x of (s, l) \<Rightarrow> make_pruning_seed s l) = Some e"
    using make_pruning_seed_value by (cases x) auto
next
  fix x e assume "legal_stripe x" "(case x of (s, l) \<Rightarrow> make_pruning_seed s l) = Some e"
  then show "Some (get_seed_stripe e, get_pruning_log_stripes e) = Some x"
    using legal_seed by (cases x) auto
qed

lemma make_pruning_seed_legal:
  assumes "make_pruning_seed s l = Some seed" and "1 \<le> unat l"
  shows "legal_stripe (s, l)"
proof -
  have l: "unat l \<le> 7" and s: "0 < s" "(ucast s :: u64) \<le> push_bit (unat l) 1"
    using assms(1) by (auto simp: make_pruning_seed_def config_defs word_le_nat_alt split: if_splits)
  have "unat (push_bit (unat l) (1 :: u64)) = 2 ^ unat l" by (rule unat_shift_one) (use l in simp)
  then have "unat s \<le> 2 ^ unat l" using s(2) unfolding word_le_nat_alt by (simp add: unat_ucast_le)
  then show ?thesis using s(1) l assms(2) by (simp add: legal_stripe_def word_less_nat_alt)
qed

section \<open>Stripes\<close>

lemma block_stripe:
  assumes "l \<le> 7"
  shows "unat (ucast (((h :: u64) div 4096 AND (push_bit l 1 - 1)) + 1) :: u32) = unat h div 4096 mod 2 ^ l + 1"
proof -
  have "(2 :: nat) ^ l \<le> 2 ^ 7" using assms by (intro power_increasing) auto
  then have le: "unat h div 4096 mod 2 ^ l < 128"
    using less_le_trans [OF mod_less_divisor [of "2 ^ l" "unat h div 4096"], of "2 ^ 7"] by simp
  have m: "unat (h div 4096 AND (push_bit l 1 - 1)) = unat h div 4096 mod 2 ^ l"
    by (simp only: unat_and_mask unat_div_distrib) simp
  then have a: "unat ((h div 4096 AND (push_bit l 1 - 1)) + 1) = unat h div 4096 mod 2 ^ l + 1"
    using le by (subst unat_add_no_overflow) simp_all
  show ?thesis using le by (subst unat_ucast_small) (simp_all only: a, simp)
qed

lemma has_unpruned_block_kept:
  assumes "legal_stripe (s, l)" and "make_pruning_seed s l = Some seed" and "unat h \<le> 500000001"
  shows "has_unpruned_block h H seed \<longleftrightarrow> kept (unat s) (unat l) (unat H) (unat h)"
proof -
  have l: "unat l \<le> 7" using assms(1) by (simp add: legal_stripe_def)
  have t: "H \<le> h + 5500 \<longleftrightarrow> unat H \<le> unat h + 5500"
    unfolding word_le_nat_alt using assms(3) by (subst unat_add_no_overflow) simp_all
  have b: "unat (ucast ((h div 4096 AND (push_bit (unat l) 1 - 1)) + 1) :: u32) = unat h div 4096 mod 2 ^ unat l + 1"
    by (rule block_stripe [OF l])
  then have "(ucast ((h div 4096 AND (push_bit (unat l) 1 - 1)) + 1) :: u32) \<noteq> 0" by (metis add_is_0 one_neq_zero unsigned_0)
  moreover have "(ucast ((h div 4096 AND (push_bit (unat l) 1 - 1)) + 1) :: u32) = s \<longleftrightarrow>
      unat h div 4096 mod 2 ^ unat l + 1 = unat s"
    unfolding word_unat_eq_iff b ..
  ultimately show ?thesis
    unfolding has_unpruned_block_def Let_def legal_seed(1,2) [OF assms(1,2)]
    using legal_seed(1,3) [OF assms(1,2)] t
    by (auto simp: get_pruning_stripe_def config_defs kept_def)
qed

lemma next_stripe_start:
  fixes h s l :: nat
  assumes s: "1 \<le> s" "s \<le> 2 ^ l" and ne: "h div 4096 mod 2 ^ l + 1 \<noteq> s"
  defines "t \<equiv> (h div 4096 div 2 ^ l + (if s > h div 4096 mod 2 ^ l + 1 then 0 else 1)) * (4096 * 2 ^ l) + (s - 1) * 4096"
  shows "h \<le> t" and "t div 4096 mod 2 ^ l + 1 = s" and "t \<le> h + 4096 * 2 ^ l"
    and "\<And>k. h \<le> k \<Longrightarrow> k < t \<Longrightarrow> k div 4096 mod 2 ^ l + 1 \<noteq> s"
proof -
  define N c b q where "N = (2 :: nat) ^ l" and "c = h div 4096 div 2 ^ l" and "b = h div 4096 mod 2 ^ l" and "q = h div 4096"
  define c' where "c' = c + (if s > b + 1 then 0 else 1)"
  have N: "0 < N" by (simp add: N_def)
  have q: "q = c * N + b" "b < N" unfolding q_def c_def b_def N_def by (rule div_mult_mod_eq [symmetric]) simp
  have t4: "t = (c' * N + (s - 1)) * 4096" by (simp add: t_def c'_def c_def b_def N_def algebra_simps)
  have ne': "b + 1 \<noteq> s" using ne by (simp add: b_def)
  have sN: "s - 1 < N" using s N by (simp add: N_def)
  have lt: "q < c' * N + (s - 1)" using q ne' s by (auto simp: c'_def)
  have "h < (q + 1) * 4096" by (simp add: q_def div_less_iff_less_mult [symmetric])
  then show "h \<le> t" using lt unfolding t4 by (metis Suc_eq_plus1 Suc_leI less_le_trans mult_le_mono1 order_less_imp_le)
  have td: "t div 4096 = c' * N + (s - 1)" by (simp add: t4)
  show "t div 4096 mod 2 ^ l + 1 = s" 
  proof -
    have "(c' * N + (s - 1)) mod N = s - 1" using sN by (simp only: mod_mult_self3 mod_less)
    then show ?thesis unfolding td using s by (simp flip: N_def)
  qed
  have "q * 4096 \<le> h" by (simp add: q_def)
  moreover have "c' * N + (s - 1) \<le> q + N" using q s ne' sN by (auto simp: c'_def)
  then have "(c' * N + (s - 1)) * 4096 \<le> (q + N) * 4096" by (rule mult_le_mono1)
  ultimately show "t \<le> h + 4096 * 2 ^ l" unfolding t4 N_def by (simp add: algebra_simps)
  show "k div 4096 mod 2 ^ l + 1 \<noteq> s" if k: "h \<le> k" "k < t" for k
  proof
    assume e: "k div 4096 mod 2 ^ l + 1 = s"
    define d where "d = k div 4096 div N"
    have kd: "k div 4096 = d * N + (s - 1)" using div_mult_mod_eq [of "k div 4096" N] e by (simp add: d_def N_def)
    have "k div 4096 < c' * N + (s - 1)" using k(2) unfolding t4 by (simp add: div_less_iff_less_mult)
    then have "d < c'" using kd by simp
    have "q \<le> d * N + (s - 1)" using div_le_mono [OF k(1), of 4096] kd by (simp add: q_def)
    show False
    proof (cases "s > b + 1")
      case True
      then have "d + 1 \<le> c" using \<open>d < c'\<close> by (simp add: c'_def)
      then have "(d + 1) * N \<le> c * N" by (rule mult_le_mono1)
      then show False using \<open>q \<le> d * N + (s - 1)\<close> q sN unfolding add_mult_distrib by linarith
    next
      case False
      then have "d \<le> c" using \<open>d < c'\<close> by (simp add: c'_def)
      then have "d * N \<le> c * N" by (rule mult_le_mono1)
      then show False using \<open>q \<le> d * N + (s - 1)\<close> q False ne' s by linarith
    qed
  qed
qed

lemma next_stripe_word:
  assumes legal: "legal_stripe (s, l)" and h: "unat h \<le> 500000001"
    and B: "B = (ucast ((h div 4096 AND (push_bit (unat l) 1 - 1)) + 1) :: u32)"
    and C: "C = drop_bit (unat l) (h div 4096) + (if s > B then 0 else 1)"
    and T: "T = C * push_bit (unat l) (4096 :: u64) + ucast ((s - 1) * 4096)"
  shows "unat T = (unat h div 4096 div 2 ^ unat l + (if unat s > unat h div 4096 mod 2 ^ unat l + 1 then 0 else 1)) *
    (4096 * 2 ^ unat l) + (unat s - 1) * 4096"
proof -
  from legal have l: "unat l \<le> 7" and s: "1 \<le> unat s" "unat s \<le> 2 ^ unat l"
    by (simp_all add: legal_stripe_def)
  have p7: "(2 :: nat) ^ unat l \<le> 128" using power_increasing [OF l, of "2 :: nat"] by simp
  let ?q = "unat h div 4096 div 2 ^ unat l" and ?x = "if unat s > unat h div 4096 mod 2 ^ unat l + 1 then 0 else 1 :: nat"
  have "unat h div 4096 \<le> 122071" using div_le_mono [OF h, of 4096] by simp
  then have q: "?q \<le> 122071" by (rule order_trans [OF div_le_dividend])
  have d: "unat (drop_bit (unat l) (h div 4096)) = ?q" by (simp only: unat_drop_bit unat_div_distrib) simp
  have ub: "unat B = unat h div 4096 mod 2 ^ unat l + 1" unfolding B by (rule block_stripe [OF l])
  have x: "unat (if s > B then 0 else 1 :: u64) = ?x" unfolding word_less_nat_alt ub by simp
  have uC: "unat C = ?q + ?x" unfolding C using q by (subst unat_add_no_overflow) (simp_all only: d x, simp)
  have one: "unat (push_bit (unat l) (1 :: u64)) = 2 ^ unat l" by (rule unat_shift_one) (use l in simp)
  have "unat (push_bit (unat l) (1 :: u64) * 4096) = 2 ^ unat l * 4096"
    using p7 by (subst unat_mult_no_overflow) (simp_all only: one, simp_all)
  then have p: "unat (push_bit (unat l) (4096 :: u64)) = 4096 * 2 ^ unat l" by (simp add: push_bit_eq_mult mult.commute)
  have "unat (s - 1) = unat s - 1" using s(1) by (simp add: unat_diff_le)
  then have "unat ((s - 1) * 4096) = (unat s - 1) * 4096" using s p7 by (subst unat_mult_no_overflow) simp_all
  then have u: "unat (ucast ((s - 1) * 4096) :: u64) = (unat s - 1) * 4096" by (simp add: unat_ucast_le)
  have le: "(?q + ?x) * (4096 * 2 ^ unat l) \<le> 122072 * (4096 * 128)" using q p7 by (intro mult_le_mono) auto
  have uCp: "unat (C * push_bit (unat l) 4096) = (?q + ?x) * (4096 * 2 ^ unat l)"
    using le by (subst unat_mult_no_overflow) (simp_all only: uC p, simp)
  have "(?q + ?x) * (4096 * 2 ^ unat l) + (unat s - 1) * 4096 < 18446744073709551616" using le s p7 by linarith
  then have "unat (C * push_bit (unat l) 4096) + unat (ucast ((s - 1) * 4096) :: u64) < 2 ^ LENGTH(64)"
    unfolding uCp u by simp
  then show ?thesis unfolding T by (subst unat_add_no_overflow) (simp_all only: uCp u)
qed

lemma next_unpruned_value:
  assumes legal: "legal_stripe (s, l)" and seed: "make_pruning_seed s l = Some seed"
    and h: "unat h \<le> 500000001" and H: "unat H \<le> 500000001"
  defines "b \<equiv> unat h div 4096 mod 2 ^ unat l + 1"
    and "t \<equiv> (unat h div 4096 div 2 ^ unat l + (if unat s > unat h div 4096 mod 2 ^ unat l + 1 then 0 else 1)) * (4096 * 2 ^ unat l) + (unat s - 1) * 4096"
  shows "unat (get_next_unpruned_block_height h H seed) =
    (if unat H \<le> unat h + 5500 \<or> b = unat s then unat h
     else if unat H < t + 5500 then unat H - 5500 else t)"
proof -
  define B :: u32 where "B = ucast ((h div 4096 AND (push_bit (unat l) 1 - 1)) + 1)"
  define C where "C = drop_bit (unat l) (h div 4096) + (if s > B then 0 else 1)"
  define T where "T = C * push_bit (unat l) 4096 + ucast ((s - 1) * 4096)"
  from legal have l: "1 \<le> unat l" "unat l \<le> 7" and s: "1 \<le> unat s" "unat s \<le> 2 ^ unat l"
    by (simp_all add: legal_stripe_def)
  have l0: "l \<noteq> 0" using l(1) by auto
  have p7: "(2 :: nat) ^ unat l \<le> 128" using power_increasing [OF l(2), of "2 :: nat"] by simp
  have ub: "unat B = b" unfolding b_def B_def by (rule block_stripe [OF l(2)])
  have g: "h \<le> 500000001" "H \<le> 500000001" using h H by (simp_all add: word_le_nat_alt)
  have tip: "H \<le> h + 5500 \<longleftrightarrow> unat H \<le> unat h + 5500"
    unfolding word_le_nat_alt using h by (subst unat_add_no_overflow) simp_all
  have eq: "B = s \<longleftrightarrow> b = unat s" unfolding word_unat_eq_iff ub ..
  have t_le: "b \<noteq> unat s \<Longrightarrow> unat h \<le> t \<and> t \<le> unat h + 4096 * 2 ^ unat l"
    using next_stripe_start(1,3) [OF s, of "unat h"] unfolding t_def b_def by blast
  have ut: "b \<noteq> unat s \<Longrightarrow> unat T = t"
    using next_stripe_word [OF legal h, of B C T] t_le p7 h unfolding B_def C_def T_def b_def t_def by simp
  have body: "get_next_unpruned_block_height h H seed =
      (if H \<le> h + 5500 then h else if B = s then h else if H < T + 5500 then (if H < 5500 then 0 else H - 5500)
       else if \<not> h \<le> T then h else T)"
    using g legal_seed [OF legal seed] l0
    unfolding get_next_unpruned_block_height_def Let_def B_def C_def T_def by (simp add: config_defs unat_ucast_le)
  show ?thesis
  proof (cases "unat H \<le> unat h + 5500 \<or> b = unat s")
    case True
    then show ?thesis unfolding body using tip eq by auto
  next
    case False
    then have T: "unat T = t" "unat h \<le> t" "t \<le> unat h + 524288" using ut t_le p7 by auto
    have "H < T + 5500 \<longleftrightarrow> unat H < t + 5500"
      unfolding word_less_nat_alt using T h by (subst unat_add_no_overflow) simp_all
    moreover have "h \<le> T" unfolding word_le_nat_alt using T by simp
    moreover have "\<not> H < 5500" "unat (H - 5500) = unat H - 5500"
      using False by (simp_all add: word_less_nat_alt unat_diff_le)
    ultimately show ?thesis unfolding body using False tip eq T(1) by simp
  qed
qed

lemma next_unpruned_least:
  assumes legal: "legal_stripe (s, l)" and seed: "make_pruning_seed s l = Some seed"
    and h: "unat h \<le> 500000001" and H: "unat H \<le> 500000001"
  defines "r \<equiv> unat (get_next_unpruned_block_height h H seed)"
  shows "unat h \<le> r" and "kept (unat s) (unat l) (unat H) r"
    and "\<And>k. unat h \<le> k \<Longrightarrow> k < r \<Longrightarrow> \<not> kept (unat s) (unat l) (unat H) k"
    and "r = unat h \<or> r + 5500 \<le> unat H"
proof -
  from legal have s: "1 \<le> unat s" "unat s \<le> 2 ^ unat l" by (simp_all add: legal_stripe_def)
  note v = next_unpruned_value [OF legal seed h H, folded r_def]
  note n = next_stripe_start [OF s, of "unat h"]
  have *: "unat h \<le> r \<and> kept (unat s) (unat l) (unat H) r \<and>
      (\<forall>k. unat h \<le> k \<longrightarrow> k < r \<longrightarrow> \<not> kept (unat s) (unat l) (unat H) k) \<and> (r = unat h \<or> r + 5500 \<le> unat H)"
  proof (cases "unat H \<le> unat h + 5500 \<or> unat h div 4096 mod 2 ^ unat l + 1 = unat s")
    case True
    then have "r = unat h" using v by simp
    then show ?thesis using True by (auto simp: kept_def)
  next
    case False
    define t where "t = (unat h div 4096 div 2 ^ unat l + (if unat s > unat h div 4096 mod 2 ^ unat l + 1 then 0 else 1)) * (4096 * 2 ^ unat l) + (unat s - 1) * 4096"
    have ne: "unat h div 4096 mod 2 ^ unat l + 1 \<noteq> unat s" using False by simp
    have r: "r = (if unat H < t + 5500 then unat H - 5500 else t)" using v False unfolding t_def by simp
    note t = n [OF ne, folded t_def]
    have "r \<le> t" using r by (simp split: if_splits)
    have "kept (unat s) (unat l) (unat H) r" using r t(2) by (auto simp: kept_def)
    moreover have "\<not> kept (unat s) (unat l) (unat H) k" if "unat h \<le> k" "k < r" for k
      using t(4) [of k] that \<open>r \<le> t\<close> r by (auto simp: kept_def split: if_splits)
    moreover have "unat h \<le> r" "r + 5500 \<le> unat H" using r t(1) False by auto
    ultimately show ?thesis by blast
  qed
  from * show "unat h \<le> r" "kept (unat s) (unat l) (unat H) r"
    "\<And>k. unat h \<le> k \<Longrightarrow> k < r \<Longrightarrow> \<not> kept (unat s) (unat l) (unat H) k" "r = unat h \<or> r + 5500 \<le> unat H"
    by blast+
qed

lemma next_pruned_seed:
  assumes legal: "legal_stripe (s, l)"
  defines "n \<equiv> ucast (1 + ((ucast s :: u64) AND (push_bit (unat l) 1 - 1))) :: u32"
  shows "legal_stripe (n, l)" and "unat n = unat s mod 2 ^ unat l + 1"
proof -
  from legal have l: "1 \<le> unat l" "unat l \<le> 7" by (simp_all add: legal_stripe_def)
  have p7: "(2 :: nat) ^ unat l \<le> 128" using power_increasing [OF l(2), of "2 :: nat"] by simp
  have m: "unat s mod 2 ^ unat l < 2 ^ unat l" by simp
  have m': "unat s mod 2 ^ unat l < 128" by (rule less_le_trans [OF m p7])
  have "unat ((ucast s :: u64) AND (push_bit (unat l) 1 - 1)) = unat s mod 2 ^ unat l"
    by (simp only: unat_and_mask unat_ucast_le) (simp add: unat_ucast_le)
  then have a: "unat (1 + ((ucast s :: u64) AND (push_bit (unat l) 1 - 1))) = unat s mod 2 ^ unat l + 1"
    using m' by (subst unat_add_no_overflow) (simp_all only:, simp_all)
  then show n: "unat n = unat s mod 2 ^ unat l + 1"
    unfolding n_def using m' by (subst unat_ucast_small) (simp_all only: a, simp)
  show "legal_stripe (n, l)" using l Suc_leI [OF m] by (simp add: legal_stripe_def n)
qed

lemma next_pruned_in_stripe:
  assumes legal: "legal_stripe (s, l)" and seed: "make_pruning_seed s l = Some seed"
    and n: "legal_stripe (n, l)" "unat n = unat s mod 2 ^ unat l + 1" and seed': "make_pruning_seed n l = Some seed'"
    and h: "unat h \<le> 500000001" and H: "unat H \<le> 500000001"
    and below: "\<not> unat H \<le> unat h + 5500" and b: "unat h div 4096 mod 2 ^ unat l + 1 = unat s"
  defines "r \<equiv> get_next_unpruned_block_height h H seed'"
  shows "h \<le> r" and "r \<le> H" and "\<forall>k. h \<le> k \<longrightarrow> k < r \<longrightarrow> has_unpruned_block k H seed"
    and "\<not> has_unpruned_block r H seed \<or> unat r = unat H - 5500"
proof -
  from legal have s: "1 \<le> unat l" "unat s \<le> 2 ^ unat l" by (simp_all add: legal_stripe_def)
  note kept = has_unpruned_block_kept [OF legal seed]
  have "(2 :: nat) ^ 1 \<le> 2 ^ unat l" using s(1) by (intro power_increasing) auto
  then have ne: "unat n \<noteq> unat s" using n(2) s(2) by (cases "unat s = 2 ^ unat l") simp_all
  note least = next_unpruned_least [OF n(1) seed' h H, folded r_def]
  have "unat r \<noteq> unat h" using least(2) below b ne by (auto simp: kept_def)
  then have r: "unat r + 5500 \<le> unat H" using least(4) by simp
  define e where "e = (unat h div 4096 + 1) * 4096"
  have "(unat h div 4096 + 1) mod 2 ^ unat l = unat s mod 2 ^ unat l" by (simp only: b [symmetric] mod_add_left_eq)
  then have "kept (unat n) (unat l) (unat H) e" using n(2) by (simp add: kept_def e_def)
  moreover have "unat h < e" by (simp add: e_def dividend_less_times_div)
  ultimately have "unat r \<le> e" using least(3) [of e] by (metis less_imp_le not_less)
  have "kept (unat s) (unat l) (unat H) k" if "unat h \<le> k" "k < unat r" for k
  proof -
    have "k div 4096 = unat h div 4096"
      using that \<open>unat r \<le> e\<close> div_le_mono [OF that(1), of 4096] less_mult_imp_div_less [of k "unat h div 4096 + 1" 4096]
      by (simp add: e_def)
    then show ?thesis using b by (simp add: kept_def)
  qed
  then show "\<forall>k. h \<le> k \<longrightarrow> k < r \<longrightarrow> has_unpruned_block k H seed"
    using kept [of _ H] r H by (simp add: word_le_nat_alt word_less_nat_alt)
  show "\<not> has_unpruned_block r H seed \<or> unat r = unat H - 5500"
    using kept [of r H] least(2) ne r H by (auto simp: kept_def)
  show "h \<le> r" "r \<le> H" using least(1) r by (simp_all add: word_le_nat_alt)
qed

text \<open>The stripe a new pruned node draws is legal.\<close>

lemma get_random_stripe_legal: "legal_stripe (get_random_stripe r, 3)"
proof -
  have "unat ((ucast r :: u64) mod 8) = unat r mod 8" by (simp add: unat_mod_distrib unat_ucast_le)
  then have "unat (1 + (ucast r :: u64) mod 8) = unat r mod 8 + 1" by (subst unat_add_no_overflow) simp_all
  then have "unat (get_random_stripe r) = unat r mod 8 + 1"
    unfolding get_random_stripe_def by (subst unat_ucast_small) (simp_all add: config_defs push_bit_eq_mult)
  then show ?thesis using mod_less_divisor [of 8 "unat r"] by (simp add: legal_stripe_def)
qed

text \<open>
  A seed without stripes but with a stripe number, which no node makes for itself: the two functions
  disagree, since only one of them replaces the missing logarithm.
\<close>

lemma seed_without_log: "\<not> has_unpruned_block (get_next_unpruned_block_height 0 1000000 5) 1000000 5"
  by (simp add: has_unpruned_block_def get_next_unpruned_block_height_def get_pruning_stripe_def get_seed_stripe_def
      get_pruning_log_stripes_def config_defs Let_def)

section \<open>Properties\<close>

text \<open>
  C23: The stripes share the work: below the tip, for every legal number of stripes, exactly one stripe
  keeps a block, and its seed is the one computed for the block; in the tip every node keeps it.
\<close>

theorem stripes_partition:
  assumes "1 \<le> unat l" and "unat l \<le> 7" and "unat h \<le> 500000001"
  shows "(if unat H \<le> unat h + 5500
      then \<forall>s seed. make_pruning_seed s l = Some seed \<longrightarrow> has_unpruned_block h H seed
      else \<exists>s seed. make_pruning_seed s l = Some seed \<and> get_pruning_seed h H l = Some seed \<and>
        has_unpruned_block h H seed \<and>
        (\<forall>s' seed'. make_pruning_seed s' l = Some seed' \<longrightarrow> has_unpruned_block h H seed' \<longrightarrow> s' = s))"
proof (cases "unat H \<le> unat h + 5500")
  case True
  have "has_unpruned_block h H seed" if "make_pruning_seed s l = Some seed" for s seed
    using has_unpruned_block_kept [OF make_pruning_seed_legal [OF that assms(1)] that assms(3)] True by (simp add: kept_def)
  then show ?thesis using True by simp
next
  case False
  define s where "s = get_pruning_stripe h H l"
  have "\<not> H \<le> h + 5500" unfolding word_le_nat_alt using False assms(3) by (subst unat_add_no_overflow) simp_all
  then have us: "unat s = unat h div 4096 mod 2 ^ unat l + 1"
    unfolding s_def get_pruning_stripe_def using block_stripe [OF assms(2), of h] by (simp add: config_defs)
  have legal: "legal_stripe (s, l)"
    using assms(1,2) us Suc_leI [OF mod_less_divisor, of "2 ^ unat l" "unat h div 4096"] by (simp add: legal_stripe_def)
  obtain seed where seed: "make_pruning_seed s l = Some seed" using make_pruning_seed_value [OF legal] by blast
  have "s \<noteq> 0" using us by auto
  then have "get_pruning_seed h H l = Some seed" using seed by (simp add: get_pruning_seed_def Let_def flip: s_def)
  moreover have "has_unpruned_block h H seed"
    using has_unpruned_block_kept [OF legal seed assms(3)] us by (simp add: kept_def)
  moreover have "s' = s" if "make_pruning_seed s' l = Some seed'" "has_unpruned_block h H seed'" for s' seed'
    using has_unpruned_block_kept [OF make_pruning_seed_legal [OF that(1) assms(1)] that(1) assms(3)] that(2) us False
    by (simp add: kept_def word_unat_eq_iff)
  ultimately show ?thesis using False seed by (simp only: if_False) blast
qed

theorem stripes_partition_witness:
  "\<exists>s seed. make_pruning_seed s 3 = Some seed \<and> get_pruning_seed 5000 1000000 3 = Some seed \<and>
     has_unpruned_block 5000 1000000 seed \<and>
     (\<forall>s' seed'. make_pruning_seed s' 3 = Some seed' \<longrightarrow> has_unpruned_block 5000 1000000 seed' \<longrightarrow> s' = s)"
  using stripes_partition [of 3 5000 1000000] by simp

text \<open>
  C24: \<open>get_next_unpruned_block_height\<close> returns the least height from the given one on that a node with
  the seed keeps.
\<close>

theorem next_unpruned_correct:
  assumes "legal_stripe (s, l)" and "make_pruning_seed s l = Some seed"
    and "unat h \<le> 500000001" and "unat H \<le> 500000001"
  shows "h \<le> get_next_unpruned_block_height h H seed \<and>
    has_unpruned_block (get_next_unpruned_block_height h H seed) H seed \<and>
    (\<forall>k. h \<le> k \<longrightarrow> k < get_next_unpruned_block_height h H seed \<longrightarrow> \<not> has_unpruned_block k H seed)"
proof -
  note n = next_unpruned_least [OF assms]
  have r: "unat (get_next_unpruned_block_height h H seed) \<le> 500000001" using n(4) assms(3,4) by auto
  show ?thesis
    using n has_unpruned_block_kept [OF assms(1,2)] r by (auto simp: word_le_nat_alt word_less_nat_alt)
qed

theorem next_unpruned_correct_witness:
  "make_pruning_seed 2 3 = Some 385 \<and> get_next_unpruned_block_height 8192 10000000 385 = 36864 \<and>
   has_unpruned_block (get_next_unpruned_block_height 8192 10000000 385) 10000000 385"
  using next_unpruned_correct [of 2 3 385 8192 10000000]
  by (simp add: legal_stripe_def make_pruning_seed_def get_next_unpruned_block_height_def get_seed_stripe_def
      get_pruning_log_stripes_def config_defs Let_def)

text \<open>
  \<open>get_next_pruned_block_height\<close> never throws for a seed of a pruned node, and every block from the
  given height up to the result is kept. The result is a pruned height, or the chain height for a
  start in the tip, or the start of the tip for a stripe that runs into it.
\<close>

lemma next_pruned_correct:
  assumes "legal_stripe (s, l)" and "make_pruning_seed s l = Some seed"
    and "unat h \<le> 500000001" and "unat H \<le> 500000001" and "h \<le> H"
  shows "\<exists>r. get_next_pruned_block_height h H seed = Some r \<and> h \<le> r \<and> r \<le> H \<and>
    (\<forall>k. h \<le> k \<longrightarrow> k < r \<longrightarrow> has_unpruned_block k H seed) \<and>
    (if unat H \<le> unat h + 5500 then r = H
     else \<not> has_unpruned_block r H seed \<or> unat r = unat H - 5500)"
proof -
  from assms(1) have s: "1 \<le> unat s" "unat s \<le> 2 ^ unat l" "1 \<le> unat l" "unat l \<le> 7" by (simp_all add: legal_stripe_def)
  note fields = legal_seed [OF assms(1,2)]
  have l0: "l \<noteq> 0" using s(3) by auto
  have ll: "unat (ucast l :: u64) = unat l" by (simp add: unat_ucast_le)
  have lll: "ucast (ucast l :: u64) = l"
    unfolding word_unat_eq_iff using unsigned_less [of l, where 'a = nat] by (subst unat_ucast_small) (simp_all add: ll)
  have tip: "H \<le> h + 5500 \<longleftrightarrow> unat H \<le> unat h + 5500"
    unfolding word_le_nat_alt using assms(3) by (subst unat_add_no_overflow) simp_all
  define B :: u32 where "B = ucast ((h div 4096 AND (push_bit (unat l) 1 - 1)) + 1)"
  define n :: u32 where "n = ucast (1 + ((ucast s :: u64) AND (push_bit (unat l) 1 - 1)))"
  have uB: "unat B = unat h div 4096 mod 2 ^ unat l + 1" unfolding B_def by (rule block_stripe [OF s(4)])
  have body: "get_next_pruned_block_height h H seed =
      (if H \<le> h + 5500 then Some H else if B \<noteq> s then Some h
       else map_option (get_next_unpruned_block_height h H) (make_pruning_seed n l))"
    using fields l0 ll lll unfolding get_next_pruned_block_height_def Let_def B_def n_def by (simp add: config_defs)
  note kept = has_unpruned_block_kept [OF assms(1,2)]
  consider (tip) "unat H \<le> unat h + 5500" | (pruned) "\<not> unat H \<le> unat h + 5500" "B \<noteq> s"
    | (stripe) "\<not> unat H \<le> unat h + 5500" "B = s" by blast
  then show ?thesis
  proof cases
    case tip
    have "has_unpruned_block k H seed" if "h \<le> k" "k < H" for k
      using kept [of k H] that assms(4) tip by (auto simp: kept_def word_le_nat_alt word_less_nat_alt)
    then show ?thesis using tip \<open>H \<le> h + 5500 \<longleftrightarrow> unat H \<le> unat h + 5500\<close> assms(5) by (simp add: body)
  next
    case pruned
    then have "\<not> has_unpruned_block h H seed"
      using kept [OF assms(3)] uB by (simp add: kept_def word_unat_eq_iff)
    then show ?thesis using pruned tip assms(5) by (auto simp: body)
  next
    case stripe
    note n = next_pruned_seed [OF assms(1), folded n_def]
    obtain seed' where seed': "make_pruning_seed n l = Some seed'" using make_pruning_seed_value [OF n(1)] by blast
    have b: "unat h div 4096 mod 2 ^ unat l + 1 = unat s" using stripe uB by simp
    from next_pruned_in_stripe [OF assms(1,2) n seed' assms(3,4) stripe(1) b] show ?thesis
      using stripe tip seed' by (simp add: body)
  qed
qed

end
