(* ===== verification/Money.thy ===== *)
theory Money
  imports Config
begin

text \<open>
  Amounts in text: \<open>parse_amount\<close>, \<open>print_money\<close> and \<open>round_money_up\<close> of
  \<open>hashmonkey-core/src/cryptonote_basic/cryptonote_format_utils.cpp\<close>. The number of decimals shown is a global that
  starts at \<open>CRYPTONOTE_DISPLAY_DECIMAL_POINT\<close>; it is an argument here. \<open>boost::algorithm::trim\<close> and
  \<open>boost::lexical_cast\<close> to a 64-bit number are parameters. A returned false and a throw are \<open>None\<close>.
\<close>

section \<open>Definitions\<close>

text \<open>\<open>isdigit\<close>, the decimal form of a number (\<open>std::to_string\<close>, \<open>%llu\<close>) and the value of a run of digits.\<close>

definition isdigit :: "char \<Rightarrow> bool" where
  "isdigit c \<longleftrightarrow> 48 \<le> (of_char c :: nat) \<and> (of_char c :: nat) \<le> 57"

definition digit :: "nat \<Rightarrow> char" where
  "digit n = char_of (48 + n)"

fun to_string :: "nat \<Rightarrow> string" where
  "to_string n = (if n < 10 then [digit n] else to_string (n div 10) @ [digit (n mod 10)])"

declare to_string.simps [simp del]

definition digit_val :: "char \<Rightarrow> nat" where
  "digit_val c = of_char c - 48"

definition dec_value :: "string \<Rightarrow> nat" where
  "dec_value s = foldl (\<lambda>a c. a * 10 + digit_val c) 0 s"

subsection \<open>Decimal point\<close>

definition CRYPTONOTE_DISPLAY_DECIMAL_POINT :: u32 where
  [config_defs]: "CRYPTONOTE_DISPLAY_DECIMAL_POINT = 12"

definition set_default_decimal_point :: "u32 \<Rightarrow> u32 option" where
  "set_default_decimal_point decimal_point =
     (if decimal_point \<in> {12, 9, 6, 3, 0} then Some decimal_point else None)"

definition get_unit :: "u32 \<Rightarrow> u32 \<Rightarrow> string option" where
  "get_unit default_decimal_point decimal_point =
     (let d = (if decimal_point = - 1 then default_decimal_point else decimal_point)
      in if d = 12 then Some ''monero'' else if d = 9 then Some ''millinero'' else if d = 6 then Some ''micronero''
         else if d = 3 then Some ''nanonero'' else if d = 0 then Some ''piconero'' else None)"

definition insert_money_decimal_point :: "u32 \<Rightarrow> string \<Rightarrow> u32 \<Rightarrow> string" where
  "insert_money_decimal_point default_decimal_point s decimal_point =
     (let d = unat (if decimal_point = - 1 then default_decimal_point else decimal_point);
          s1 = (if length s < d + 1 then replicate (d + 1 - length s) (CHR ''0'') @ s else s)
      in if d > 0 then take (length s1 - d) s1 @ ''.'' @ drop (length s1 - d) s1 else s1)"

definition print_money :: "u32 \<Rightarrow> u64 \<Rightarrow> u32 \<Rightarrow> string" where
  "print_money default_decimal_point amount decimal_point =
     insert_money_decimal_point default_decimal_point (to_string (unat amount)) decimal_point"

definition print_money_128 :: "u32 \<Rightarrow> u128 \<Rightarrow> u32 \<Rightarrow> string" where
  "print_money_128 default_decimal_point amount decimal_point =
     insert_money_decimal_point default_decimal_point (to_string (unat amount)) decimal_point"

subsection \<open>Parsing\<close>

definition get_xtype_from_string :: "(string \<Rightarrow> u64 option) \<Rightarrow> string \<Rightarrow> u64 option" where
  "get_xtype_from_string lexical_cast str_id =
     (if \<not> list_all isdigit str_id then None else lexical_cast str_id)"

text \<open>\<open>while (default_decimal_point < fraction_size && '0' == str_amount.back())\<close>.\<close>

fun drop_zeros :: "nat \<Rightarrow> string \<Rightarrow> nat \<Rightarrow> string \<times> nat" where
  "drop_zeros d str_amount 0 = (str_amount, 0)"
| "drop_zeros d str_amount (Suc fraction_size) =
     (if d < Suc fraction_size \<and> last str_amount = CHR ''0''
      then drop_zeros d (butlast str_amount) fraction_size
      else (str_amount, Suc fraction_size))"

definition parse_amount :: "(string \<Rightarrow> string) \<Rightarrow> (string \<Rightarrow> u64 option) \<Rightarrow> u32 \<Rightarrow> string \<Rightarrow> u64 option" where
  "parse_amount trim lexical_cast default_decimal_point str =
     (let d = unat default_decimal_point;
          str_amount = trim str;
          point_index = length (takeWhile (\<lambda>c. c \<noteq> CHR ''.'') str_amount)
      in Option.bind
        (if point_index < length str_amount
         then let (str_amount, fraction_size) = drop_zeros d str_amount (length str_amount - point_index - 1)
              in if d < fraction_size then None
                 else Some (take point_index str_amount @ drop (point_index + 1) str_amount, fraction_size)
         else Some (str_amount, 0))
        (\<lambda>(str_amount, fraction_size).
           if str_amount = [] then None
           else get_xtype_from_string lexical_cast
             (if fraction_size < d then str_amount @ replicate (d - fraction_size) (CHR ''0'') else str_amount)))"

subsection \<open>Rounding\<close>

text \<open>
  \<open>zero_tail\<close> writes zeros over the digits past the significant ones and tells whether one was not zero;
  \<open>bump_digits\<close> adds one to the reversed significant digits and tells whether a carry is left.
\<close>

definition zero_tail :: "string \<Rightarrow> bool \<times> string" where
  "zero_tail tail = (list_ex (\<lambda>c. c \<noteq> CHR ''0'') tail, map (\<lambda>c. if c \<noteq> CHR ''0'' then CHR ''0'' else c) tail)"

fun bump_digits :: "string \<Rightarrow> bool \<times> string" where
  "bump_digits [] = (True, [])"
| "bump_digits (c # cs) =
     (if c = CHR ''9'' then (case bump_digits cs of (bump, ds) \<Rightarrow> (bump, CHR ''0'' # ds))
      else (False, char_of (of_char c + 1 :: nat) # cs))"

text \<open>\<open>strtoull\<close> on digits: out of range is the maximum with \<open>errno\<close> set, on which the function throws.\<close>

definition round_money_up :: "u64 \<Rightarrow> u32 \<Rightarrow> u64 option" where
  "round_money_up amount significant_digits =
     (if \<not> significant_digits > 0 then None
      else let buf = to_string (unat amount); k = unat significant_digits;
               buf' = (if length buf > k
                 then let (bump, tail) = zero_tail (drop k buf);
                          (carry, front) = (if bump then bump_digits (rev (take k buf)) else (False, rev (take k buf)));
                          b = rev front @ tail
                      in if carry then CHR ''1'' # b else b
                 else buf);
               ull = dec_value buf'
      in if \<not> ull < 2 ^ 64 then None
         else if ull = 0 \<and> amount \<noteq> 0 then None
         else Some (of_nat ull))"

definition round_money_up_string ::
  "(string \<Rightarrow> string) \<Rightarrow> (string \<Rightarrow> u64 option) \<Rightarrow> u32 \<Rightarrow> string \<Rightarrow> u32 \<Rightarrow> string option" where
  "round_money_up_string trim lexical_cast default_decimal_point s significant_digits =
     Option.bind (parse_amount trim lexical_cast default_decimal_point s) (\<lambda>amount.
       map_option (\<lambda>a. print_money default_decimal_point a (- 1)) (round_money_up amount significant_digits))"

subsection \<open>Specification\<close>

text \<open>What the parameters are documented to do.\<close>

definition lexical_cast_ok :: "(string \<Rightarrow> u64 option) \<Rightarrow> bool" where
  "lexical_cast_ok lexical_cast \<longleftrightarrow>
     (\<forall>s. s \<noteq> [] \<longrightarrow> list_all isdigit s \<longrightarrow>
        lexical_cast s = (if dec_value s < 2 ^ 64 then Some (of_nat (dec_value s)) else None))"

definition trim_ok :: "(string \<Rightarrow> string) \<Rightarrow> bool" where
  "trim_ok trim \<longleftrightarrow> (\<forall>s. list_all (\<lambda>c. isdigit c \<or> c = CHR ''.'') s \<longrightarrow> trim s = s)"

section \<open>Digits\<close>

lemma of_digit: "n < 10 \<Longrightarrow> of_char (digit n) = 48 + n"
  by (simp add: digit_def)

lemma isdigit_digit: "n < 10 \<Longrightarrow> isdigit (digit n)"
  by (simp add: isdigit_def of_digit)

lemma digit_val_digit: "n < 10 \<Longrightarrow> digit_val (digit n) = n"
  by (simp add: digit_val_def of_digit)

lemma digit_val_less: "isdigit c \<Longrightarrow> digit_val c < 10"
  unfolding isdigit_def digit_val_def by linarith

lemma digit_digit_val: "isdigit c \<Longrightarrow> digit (digit_val c) = c"
  unfolding isdigit_def digit_val_def digit_def by (simp add: char_of_char)

lemma digit_val_zero [simp]: "digit_val (CHR ''0'') = 0"
  by (simp add: digit_val_def)

lemma digit_val_eq_0: "isdigit c \<Longrightarrow> digit_val c = 0 \<longleftrightarrow> c = CHR ''0''"
  using digit_digit_val [of c] digit_digit_val [of "CHR ''0''"] by (auto simp: isdigit_def)

lemma isdigit_zero [simp]: "isdigit (CHR ''0'')" "of_char (CHR ''0'') = (48 :: nat)" "\<not> isdigit (CHR ''.'')"
  by (simp_all add: isdigit_def)

lemma foldl_dec: "foldl (\<lambda>a c. a * 10 + digit_val c) n s = n * 10 ^ length s + dec_value s"
proof (induction s arbitrary: n)
  case (Cons c s)
  have "foldl (\<lambda>a c. a * 10 + digit_val c) n (c # s) = (n * 10 + digit_val c) * 10 ^ length s + dec_value s"
    using Cons by simp
  moreover have "dec_value (c # s) = digit_val c * 10 ^ length s + dec_value s"
    unfolding dec_value_def using Cons [of "digit_val c"] by (simp add: dec_value_def)
  ultimately show ?case by (simp add: algebra_simps)
qed (simp add: dec_value_def)

lemma dec_value_append: "dec_value (s @ t) = dec_value s * 10 ^ length t + dec_value t"
  using foldl_dec [of "dec_value s" t] by (simp add: dec_value_def)

lemma dec_value_Cons: "dec_value (c # s) = digit_val c * 10 ^ length s + dec_value s"
  using dec_value_append [of "[c]" s] by (simp add: dec_value_def)

lemma dec_value_Nil [simp]: "dec_value [] = 0" and dec_value_single: "dec_value [c] = digit_val c"
  by (simp_all add: dec_value_def)

lemma dec_value_zeros [simp]: "dec_value (replicate n (CHR ''0'')) = 0"
  by (induction n) (simp_all add: dec_value_Cons)

lemma dec_value_less: "list_all isdigit s \<Longrightarrow> dec_value s < 10 ^ length s"
proof (induction s)
  case (Cons c s)
  then have "digit_val c \<le> 9" using digit_val_less [of c] by simp
  then have "digit_val c * 10 ^ length s \<le> 9 * (10 :: nat) ^ length s" by (rule mult_le_mono1)
  moreover have "dec_value s < 10 ^ length s" using Cons by simp
  ultimately show ?case unfolding dec_value_Cons length_Cons power_Suc by linarith
qed simp

lemma to_string_digits: "list_all isdigit (to_string n)"
proof (induction n rule: to_string.induct)
  case (1 n)
  then show ?case by (subst to_string.simps) (simp add: isdigit_digit)
qed

lemma to_string_nonempty: "to_string n \<noteq> []"
  by (subst to_string.simps) simp

lemma dec_value_to_string: "dec_value (to_string n) = n"
proof (induction n rule: to_string.induct)
  case (1 n)
  then show ?case by (subst to_string.simps) (simp add: dec_value_append dec_value_single digit_val_digit)
qed

section \<open>Parsing\<close>

lemma takeWhile_point:
  assumes "list_all isdigit ip"
  shows "takeWhile (\<lambda>c. c \<noteq> CHR ''.'') (ip @ CHR ''.'' # fp) = ip" and "takeWhile (\<lambda>c. c \<noteq> CHR ''.'') ip = ip"
proof -
  have "\<forall>c \<in> set ip. c \<noteq> CHR ''.''" using assms isdigit_zero(3) by (auto simp: list_all_iff)
  then show "takeWhile (\<lambda>c. c \<noteq> CHR ''.'') (ip @ CHR ''.'' # fp) = ip" and "takeWhile (\<lambda>c. c \<noteq> CHR ''.'') ip = ip"
    by (simp_all add: takeWhile_append)
qed

text \<open>The loop on a text that ends with the fraction: what is cut are zeros, and it stops in time.\<close>

lemma drop_zeros_correct:
  "\<exists>f z. fp = f @ replicate z (CHR ''0'') \<and> drop_zeros d (p @ fp) (length fp) = (p @ f, length f) \<and>
     (length f \<le> d \<and> (z = 0 \<or> length f = d) \<or> d < length f \<and> last f \<noteq> CHR ''0'')"
proof (induction "length fp" arbitrary: fp)
  case 0
  then show ?case by simp
next
  case (Suc n)
  then obtain g c where fp: "fp = g @ [c]" by (cases fp rule: rev_cases) auto
  have n: "n = length g" using Suc.hyps(2) fp by simp
  show ?case
  proof (cases "d < Suc n \<and> c = CHR ''0''")
    case True
    obtain f z where f: "g = f @ replicate z (CHR ''0'')" "drop_zeros d (p @ g) (length g) = (p @ f, length f)"
        "length f \<le> d \<and> (z = 0 \<or> length f = d) \<or> d < length f \<and> last f \<noteq> CHR ''0''"
      using Suc.hyps(1) [OF n] by blast
    have "fp = f @ replicate (Suc z) (CHR ''0'')" using fp f(1) True by (simp add: replicate_append_same)
    moreover have "drop_zeros d (p @ fp) (length fp) = (p @ f, length f)"
      using fp f(2) True n by (simp add: butlast_append)
    moreover have "length f \<le> d \<and> length f = d \<or> d < length f \<and> last f \<noteq> CHR ''0''"
      using f(1,3) True n by auto
    ultimately show ?thesis by (intro exI [of _ f] exI [of _ "Suc z"]) auto
  next
    case False
    then have "drop_zeros d (p @ fp) (length fp) = (p @ fp, length fp)" using fp n by auto
    then show ?thesis using False fp n by (intro exI [of _ fp] exI [of _ 0]) auto
  qed
qed

lemma dec_value_last: "f \<noteq> [] \<Longrightarrow> list_all isdigit f \<Longrightarrow> last f \<noteq> CHR ''0'' \<Longrightarrow> dec_value f mod 10 \<noteq> 0"
proof -
  assume f: "f \<noteq> []" "list_all isdigit f" "last f \<noteq> CHR ''0''"
  then obtain g c where g: "f = g @ [c]" by (cases f rule: rev_cases) auto
  have "isdigit c" "c \<noteq> CHR ''0''" using f g by simp_all
  then have "digit_val c \<noteq> 0" "digit_val c < 10" using digit_val_eq_0 digit_val_less by blast+
  then show ?thesis using g by (simp add: dec_value_append dec_value_single)
qed


text \<open>The digits handed on have the value in atomic units, if there is one.\<close>

lemma atomic_units:
  assumes fp: "fp = f @ replicate z (CHR ''0'')" and "list_all isdigit (ip @ fp)" and "length f \<le> d"
    and "z = 0 \<or> length f = d"
  shows "dec_value (ip @ fp) * 10 ^ d mod 10 ^ length fp = 0"
    and "dec_value ((ip @ f) @ replicate (d - length f) (CHR ''0'')) = dec_value (ip @ fp) * 10 ^ d div 10 ^ length fp"
proof -
  have v: "dec_value (ip @ fp) = dec_value (ip @ f) * 10 ^ z" unfolding fp append_assoc [symmetric] dec_value_append [of _ "replicate z _"] by simp
  have d: "(10 :: nat) ^ d = 10 ^ (d - length f) * 10 ^ length f" using assms(3) by (simp flip: power_add)
  have l: "(10 :: nat) ^ length fp = 10 ^ length f * 10 ^ z" by (simp add: fp power_add)
  have e: "dec_value (ip @ fp) * 10 ^ d = (dec_value (ip @ f) * 10 ^ (d - length f)) * 10 ^ length fp"
    unfolding v d l by (simp only: ac_simps)
  show "dec_value (ip @ fp) * 10 ^ d mod 10 ^ length fp = 0" unfolding e by simp
  show "dec_value ((ip @ f) @ replicate (d - length f) (CHR ''0'')) = dec_value (ip @ fp) * 10 ^ d div 10 ^ length fp"
    unfolding e dec_value_append [of "ip @ f"] by simp
qed

lemma no_atomic_units:
  assumes fp: "fp = f @ replicate z (CHR ''0'')" and "list_all isdigit (ip @ fp)" and "d < length f"
    and "last f \<noteq> CHR ''0''"
  shows "dec_value (ip @ fp) * 10 ^ d mod 10 ^ length fp \<noteq> 0"
proof
  assume 0: "dec_value (ip @ fp) * 10 ^ d mod 10 ^ length fp = 0"
  have v: "dec_value (ip @ fp) = dec_value (ip @ f) * 10 ^ z" unfolding fp append_assoc [symmetric] dec_value_append [of _ "replicate z _"] by simp
  have l: "(10 :: nat) ^ length fp = 10 ^ (length f - d) * (10 ^ d * 10 ^ z)"
    using assms(3) by (simp add: fp flip: power_add)
  have "10 ^ (length f - d) * (10 ^ d * 10 ^ z) dvd dec_value (ip @ f) * (10 ^ d * 10 ^ z)"
    using 0 unfolding l v by (simp only: mod_eq_0_iff_dvd ac_simps)
  then have "10 ^ (length f - d) dvd dec_value (ip @ f)" by (subst (asm) dvd_times_right_cancel_iff) simp_all
  moreover have "(10 :: nat) dvd 10 ^ (length f - d)" using assms(3) by simp
  ultimately have "dec_value (ip @ f) mod 10 = 0" using dvd_trans mod_eq_0_iff_dvd by blast
  moreover have "f \<noteq> []" "list_all isdigit (ip @ f)" using assms(2,3) fp by auto
  ultimately show False using dec_value_last [of "ip @ f"] assms(4) by simp
qed

lemma parse_digits:
  assumes "lexical_cast_ok lexical_cast" and "list_all isdigit s" and "s \<noteq> []"
  shows "get_xtype_from_string lexical_cast s = (if dec_value s < 2 ^ 64 then Some (of_nat (dec_value s)) else None)"
  using assms by (simp add: get_xtype_from_string_def lexical_cast_ok_def)

lemma parse_amount_fraction:
  assumes t: "trim_ok trim" and ip: "list_all isdigit ip" and fp: "list_all isdigit fp"
    and dz: "drop_zeros (unat d) ((ip @ ''.'') @ fp) (length fp) = ((ip @ ''.'') @ f, length f)"
  shows "parse_amount trim lexical_cast d (ip @ CHR ''.'' # fp) =
    (if unat d < length f \<or> ip @ f = [] then None
     else get_xtype_from_string lexical_cast ((ip @ f) @ replicate (unat d - length f) (CHR ''0'')))"
proof -
  have "list_all (\<lambda>c. isdigit c \<or> c = CHR ''.'') (ip @ CHR ''.'' # fp)" using ip fp by (auto simp: list_all_iff)
  then have "trim (ip @ CHR ''.'' # fp) = ip @ CHR ''.'' # fp" using t by (simp add: trim_ok_def)
  then show ?thesis
    using takeWhile_point(1) [OF ip, of fp] dz by (auto simp: parse_amount_def Let_def)
qed

lemma print_money_shape:
  assumes "d \<noteq> - 1"
  shows "\<exists>ip fp. ip \<noteq> [] \<and> list_all isdigit ip \<and> list_all isdigit fp \<and> length fp = unat d \<and>
    dec_value (ip @ fp) = unat amount \<and> print_money d amount (- 1) = (if 0 < unat d then ip @ CHR ''.'' # fp else ip)"
proof -
  define s where "s = to_string (unat amount)"
  define s1 where "s1 = (if length s < unat d + 1 then replicate (unat d + 1 - length s) (CHR ''0'') @ s else s)"
  have s1: "list_all isdigit s1" "unat d < length s1" "dec_value s1 = unat amount"
    using to_string_digits [of "unat amount"] by (auto simp: s1_def s_def dec_value_append dec_value_to_string list_all_iff)
  have "print_money d amount (- 1) = (if 0 < unat d
      then take (length s1 - unat d) s1 @ CHR ''.'' # drop (length s1 - unat d) s1 else take (length s1 - unat d) s1)"
    by (simp add: print_money_def insert_money_decimal_point_def Let_def s1_def s_def)
  moreover have "list_all isdigit (take n s1)" "list_all isdigit (drop n s1)" for n
    using s1(1) by (auto simp: list_all_iff dest: in_set_takeD in_set_dropD)
  moreover have "s1 \<noteq> []" using s1(2) by auto
  ultimately show ?thesis using s1(2,3)
    by - (rule exI [of _ "take (length s1 - unat d) s1"], rule exI [of _ "drop (length s1 - unat d) s1"], simp)
qed

lemma parse_digits_point:
  assumes "trim_ok trim" and "lexical_cast_ok lexical_cast"
    and "ip \<noteq> []" and "list_all isdigit ip" and "list_all isdigit fp" and "length fp = unat d"
  shows "parse_amount trim lexical_cast d (ip @ CHR ''.'' # fp) =
    (if dec_value (ip @ fp) < 2 ^ 64 then Some (of_nat (dec_value (ip @ fp))) else None)"
proof -
  have "drop_zeros (unat d) ((ip @ ''.'') @ fp) (length fp) = ((ip @ ''.'') @ fp, length fp)"
    using assms(6) by (cases "unat d") simp_all
  then show ?thesis
    using parse_amount_fraction [OF assms(1,4,5), of d fp] assms(3-6) parse_digits [OF assms(2), of "ip @ fp"] by simp
qed

section \<open>Rounding\<close>

lemma bump_digits_value:
  "list_all isdigit (rev cs) \<Longrightarrow> bump_digits cs = (carry, ds) \<Longrightarrow>
   length ds = length cs \<and> dec_value (rev ds) + (if carry then 10 ^ length cs else 0) = dec_value (rev cs) + 1"
proof (induction cs arbitrary: carry ds)
  case (Cons c cs)
  show ?case
  proof (cases "c = CHR ''9''")
    case True
    obtain es where es: "bump_digits cs = (carry, es)" "ds = CHR ''0'' # es"
      using Cons.prems(2) True by (auto split: prod.splits)
    have "digit_val (CHR ''9'') = 9" by (simp add: digit_val_def)
    moreover have "length es = length cs \<and>
        dec_value (rev es) + (if carry then 10 ^ length cs else 0) = dec_value (rev cs) + 1"
      using Cons.IH [OF _ es(1)] Cons.prems(1) by simp
    ultimately show ?thesis using es(2) True by (cases carry) (auto simp: dec_value_append dec_value_single)
  next
    case False
    have c: "isdigit c" using Cons.prems(1) by simp
    have "digit_val c \<noteq> 9"
    proof
      assume "digit_val c = 9"
      then have "c = digit 9" using digit_digit_val [OF c] by simp
      then show False using False digit_digit_val [of "CHR ''9''"] by (simp add: isdigit_def digit_val_def)
    qed
    then have "digit_val c < 9" using digit_val_less [OF c] by simp
    moreover have "of_char (char_of (of_char c + 1 :: nat)) = of_char c + (1 :: nat)" using c by (simp add: isdigit_def)
    ultimately have "digit_val (char_of (of_char c + 1 :: nat)) = digit_val c + 1"
      using c unfolding digit_val_def isdigit_def by linarith
    then show ?thesis using Cons.prems(2) False by (auto simp: dec_value_append dec_value_single)
  qed
qed simp

lemma zero_tail_value:
  assumes "list_all isdigit t"
  shows "snd (zero_tail t) = replicate (length t) (CHR ''0'')" and "fst (zero_tail t) \<longleftrightarrow> dec_value t \<noteq> 0"
proof -
  have "map (\<lambda>c. if c \<noteq> CHR ''0'' then CHR ''0'' else c) t = map (\<lambda>_. CHR ''0'') t" by simp
  then show "snd (zero_tail t) = replicate (length t) (CHR ''0'')"
    by (simp add: zero_tail_def map_replicate_const)
  have "dec_value t = 0 \<longleftrightarrow> list_all (\<lambda>c. c = CHR ''0'') t"
    using assms by (induction t) (auto simp: dec_value_Cons digit_val_eq_0)
  then show "fst (zero_tail t) \<longleftrightarrow> dec_value t \<noteq> 0"
    by (auto simp: zero_tail_def list_ex_iff list_all_iff)
qed

lemma rounded_digits:
  assumes "list_all isdigit buf" and k: "k < length buf"
  defines "m \<equiv> (10 :: nat) ^ (length buf - k)"
  shows "dec_value (let (bump, tail) = zero_tail (drop k buf);
             (carry, front) = (if bump then bump_digits (rev (take k buf)) else (False, rev (take k buf)));
             b = rev front @ tail
           in if carry then CHR ''1'' # b else b) = (dec_value buf + (m - 1)) div m * m"
proof -
  define front tail where "front = take k buf" and "tail = drop k buf"
  have d: "list_all isdigit front" "list_all isdigit tail"
    using assms(1) by (auto simp: front_def tail_def list_all_iff dest: in_set_takeD in_set_dropD)
  have m: "m = 10 ^ length tail" by (simp add: m_def tail_def)
  have v: "dec_value buf = dec_value front * m + dec_value tail"
    unfolding m dec_value_append [symmetric] by (simp add: front_def tail_def)
  have lt: "dec_value tail < m" using dec_value_less [OF d(2)] by (simp add: m)
  obtain bump where z: "zero_tail tail = (bump, replicate (length tail) (CHR ''0''))" "bump \<longleftrightarrow> dec_value tail \<noteq> 0"
    using zero_tail_value [OF d(2)] by (cases "zero_tail tail") auto
  show ?thesis
  proof (cases bump)
    case False
    have "(dec_value front * m + (m - 1)) div m = dec_value front" 
      using lt div_mult_self3 [of m "dec_value front" "m - 1"] by (simp only:) simp
    then show ?thesis using False z v by (simp add: Let_def dec_value_append m flip: front_def tail_def)
  next
    case True
    obtain carry ds where b: "bump_digits (rev front) = (carry, ds)" by (cases "bump_digits (rev front)")
    have ds: "length ds = length front" "dec_value (rev ds) + (if carry then 10 ^ length front else 0) = dec_value front + 1"
      using bump_digits_value [OF _ b] d(1) unfolding rev_rev_ident length_rev by blast+
    have "dec_value front * m + dec_value tail + (m - 1) = (dec_value front + 1) * m + (dec_value tail - 1)"
      using True z(2) lt by (simp add: algebra_simps)
    moreover have "((dec_value front + 1) * m + (dec_value tail - 1)) div m = dec_value front + 1"
      using lt by (simp only: div_mult_self3 [of m]) simp
    ultimately have "(dec_value buf + (m - 1)) div m = dec_value front + 1" by (simp only: v)
    moreover have "digit_val (CHR ''1'') = 1" by (simp add: digit_val_def)
    moreover have "dec_value (if carry then CHR ''1'' # rev ds @ replicate (length tail) (CHR ''0'')
        else rev ds @ replicate (length tail) (CHR ''0'')) = (dec_value (rev ds) + (if carry then 10 ^ length front else 0)) * m"
      using calculation(2) ds(1) by (simp add: dec_value_append dec_value_Cons m power_add algebra_simps)
    ultimately show ?thesis unfolding ds(2)
      using True z(1) b by (simp add: Let_def flip: front_def tail_def)
  qed
qed

section \<open>Properties\<close>

text \<open>
  C27: Parsing an amount written as digits with a point succeeds exactly when it is a whole number of
  atomic units that fits in 64 bits, and returns that number.
\<close>

theorem parse_amount_exact:
  fixes d :: u32
  assumes "trim_ok trim" and "lexical_cast_ok lexical_cast"
    and "ip \<noteq> []" and "list_all isdigit ip" and "list_all isdigit fp"
  defines "units \<equiv> dec_value (ip @ fp) * 10 ^ unat d"
  shows "parse_amount trim lexical_cast d (ip @ CHR ''.'' # fp) =
    (if units mod 10 ^ length fp = 0 \<and> units div 10 ^ length fp < 2 ^ 64
     then Some (of_nat (units div 10 ^ length fp)) else None)"
proof -
  obtain f z where f: "fp = f @ replicate z (CHR ''0'')"
      "drop_zeros (unat d) ((ip @ ''.'') @ fp) (length fp) = ((ip @ ''.'') @ f, length f)"
      "length f \<le> unat d \<and> (z = 0 \<or> length f = unat d) \<or> unat d < length f \<and> last f \<noteq> CHR ''0''"
    using drop_zeros_correct [of fp "unat d" "ip @ ''.''"] by blast
  have dig: "list_all isdigit (ip @ fp)" using assms(4,5) by simp
  note body = parse_amount_fraction [OF assms(1,4,5) f(2)]
  consider (long) "unat d < length f" "last f \<noteq> CHR ''0''"
    | (short) "length f \<le> unat d" "z = 0 \<or> length f = unat d" using f(3) by blast
  then show ?thesis
  proof cases
    case long
    then have "units mod 10 ^ length fp \<noteq> 0" unfolding units_def by (rule no_atomic_units [OF f(1) dig])
    then show ?thesis unfolding body using \<open>unat d < length f\<close> by simp
  next
    case short
    note u = atomic_units [OF f(1) dig short, folded units_def]
    have "list_all isdigit ((ip @ f) @ replicate (unat d - length f) (CHR ''0''))" "ip @ f \<noteq> []"
      using dig f(1) assms(3) by (auto simp: list_all_iff)
    then have "get_xtype_from_string lexical_cast ((ip @ f) @ replicate (unat d - length f) (CHR ''0'')) =
        (if units div 10 ^ length fp < 2 ^ 64 then Some (of_nat (units div 10 ^ length fp)) else None)"
      unfolding u(2) [symmetric] using assms(3) by (intro parse_digits [OF assms(2)]) simp_all
    then show ?thesis unfolding body using short u(1) assms(3) by simp
  qed
qed

theorem parse_amount_exact_witness:
  "parse_amount (\<lambda>s. s) (\<lambda>s. if dec_value s < 2 ^ 64 then Some (of_nat (dec_value s)) else None) 12 (''1'' @ CHR ''.'' # ''5'') =
   Some 1500000000000"
  using parse_amount_exact [of "\<lambda>s. s" "\<lambda>s. if dec_value s < 2 ^ 64 then Some (of_nat (dec_value s)) else None" "''1''" "''5''" 12]
  by (simp add: trim_ok_def lexical_cast_ok_def isdigit_def dec_value_def digit_val_def)

text \<open>
  C28: An amount that was printed, with any of the decimal points the wallet can be set to, is parsed back
  to itself.
\<close>

theorem print_parse_roundtrip:
  assumes "trim_ok trim" and "lexical_cast_ok lexical_cast" and "set_default_decimal_point p = Some d"
  shows "parse_amount trim lexical_cast d (print_money d amount (- 1)) = Some amount"
proof -
  have "d \<noteq> - 1" using assms(3) by (auto simp: set_default_decimal_point_def split: if_splits)
  then obtain ip fp where s: "ip \<noteq> []" "list_all isdigit ip" "list_all isdigit fp" "length fp = unat d"
      "dec_value (ip @ fp) = unat amount" "print_money d amount (- 1) = (if 0 < unat d then ip @ CHR ''.'' # fp else ip)"
    using print_money_shape by blast
  have amt: "unat amount < 2 ^ 64" "of_nat (unat amount) = amount" using unat_lt_64 [of amount] by simp_all
  show ?thesis
  proof (cases "0 < unat d")
    case True
    then show ?thesis using parse_digits_point [OF assms(1,2) s(1-4)] s(5,6) amt by simp
  next
    case False
    then have "fp = []" using s(4) by simp
    moreover have "trim ip = ip" using assms(1) s(2) by (auto simp: trim_ok_def list_all_iff)
    ultimately show ?thesis
      using False s amt takeWhile_point(2) [OF s(2)] parse_digits [OF assms(2) s(2,1)]
      by (simp add: parse_amount_def Let_def del: takeWhile_eq_all_conv)
  qed
qed

theorem print_parse_roundtrip_witness:
  "parse_amount (\<lambda>s. s) (\<lambda>s. if dec_value s < 2 ^ 64 then Some (of_nat (dec_value s)) else None) 12
     (print_money 12 17592186044415 (- 1)) = Some 17592186044415"
  by (rule print_parse_roundtrip [where p = 12])
    (simp_all add: trim_ok_def lexical_cast_ok_def set_default_decimal_point_def)

text \<open>
  C29: Rounding an amount up to a number of significant digits gives the least multiple of the power of ten
  that many digits leave, and throws exactly when there is none that fits in 64 bits.
\<close>

theorem round_money_up_correct:
  fixes amount :: u64 and n :: u32
  assumes "0 < n"
  defines "m \<equiv> (10 :: nat) ^ (length (to_string (unat amount)) - unat n)"
  shows "round_money_up amount n =
    (if (unat amount + (m - 1)) div m * m < 2 ^ 64 then Some (of_nat ((unat amount + (m - 1)) div m * m)) else None)"
proof -
  define r where "r = (unat amount + (m - 1)) div m * m"
  have v: "dec_value (to_string (unat amount)) = unat amount" by (rule dec_value_to_string)
  have "0 < m" by (simp add: m_def)
  then have "(unat amount + (m - 1)) mod m < m" by simp
  then have "unat amount \<le> r"
    using div_mult_mod_eq [of "unat amount + (m - 1)" m] \<open>0 < m\<close> unfolding r_def by linarith
  then have z: "\<not> (r = 0 \<and> amount \<noteq> 0)" by (auto simp: word_unat_eq_iff)
  show ?thesis
  proof (cases "unat n < length (to_string (unat amount))")
    case True
    show ?thesis
      using rounded_digits [OF to_string_digits True] assms(1) z True unfolding v m_def [symmetric] r_def [symmetric]
      by (simp add: round_money_up_def Let_def)
  next
    case False
    then have "m = 1" by (simp add: m_def)
    then have "r = unat amount" by (simp add: r_def)
    then show ?thesis unfolding r_def [symmetric]
      using False assms(1) v z unat_lt_64 [of amount] by (auto simp: round_money_up_def Let_def)
  qed
qed

theorem round_money_up_correct_witness:
  "round_money_up 12345 2 = Some 13000 \<and> round_money_up 18446744073709551615 1 = None"
proof -
  have "length (to_string 12345) = 5" "length (to_string 18446744073709551615) = 20"
    by (simp_all add: to_string.simps)
  then show ?thesis using round_money_up_correct [of 2 12345] round_money_up_correct [of 1 18446744073709551615] by simp
qed

end
