(* ===== verification/Hex.thy ===== *)
theory Hex
  imports Hmny_Prelude
begin

text \<open>
  Hexadecimal text: \<open>hashmonkey-core/contrib/epee/src/hex.cpp\<close> and the table \<open>isx\<close> of
  \<open>storages/parserse_base_utils.h\<close>. A returned false and a throw are \<open>None\<close>.
\<close>

section \<open>Definitions\<close>

definition hex_alphabet :: string where
  "hex_alphabet = ''0123456789abcdef''"

definition write_hex :: "u8 list \<Rightarrow> string" where
  "write_hex src =
     concat (map (\<lambda>byte. [hex_alphabet ! unat (drop_bit 4 byte), hex_alphabet ! unat (byte AND 0x0F)]) src)"

text \<open>\<open>to_hex::string\<close>, with the limit of \<open>size_t\<close>, and \<open>to_hex::buffer\<close> into a buffer of a given size.\<close>

definition to_hex_string :: "u8 list \<Rightarrow> string option" where
  "to_hex_string src = (if (2 ^ 64 - 1) div 2 < length src then None else Some (write_hex src))"

definition to_hex_buffer :: "nat \<Rightarrow> u8 list \<Rightarrow> string option" where
  "to_hex_buffer out_size src =
     (if out_size mod 2 \<noteq> 0 \<or> out_size div 2 \<noteq> length src then None else Some (write_hex src))"

definition isx :: "char \<Rightarrow> u8" where
  "isx c =
     (let n = (of_char c :: nat)
      in if 48 \<le> n \<and> n \<le> 57 then of_nat (n - 48)
         else if 65 \<le> n \<and> n \<le> 70 then of_nat (n - 55)
         else if 97 \<le> n \<and> n \<le> 102 then of_nat (n - 87) else 0xff)"

fun from_hex_loop :: "string \<Rightarrow> u8 list option" where
  "from_hex_loop (a # b # src) =
     (if isx a = 0xff then None
      else if isx b = 0xff then None
      else map_option ((#) (push_bit 4 (isx a) OR isx b)) (from_hex_loop src))"
| "from_hex_loop src = Some []"

definition to_buffer_unchecked :: "string \<Rightarrow> u8 list option" where
  "to_buffer_unchecked s = (if length s mod 2 \<noteq> 0 then None else from_hex_loop s)"

definition from_hex_to_string :: "string \<Rightarrow> u8 list option" where
  "from_hex_to_string src = to_buffer_unchecked src"

definition from_hex_to_buffer :: "nat \<Rightarrow> string \<Rightarrow> u8 list option" where
  "from_hex_to_buffer out_size src =
     (if length src div 2 \<noteq> out_size then None else to_buffer_unchecked src)"

text \<open>\<open>string_tools::hex_to_pod\<close> into a type of \<open>n\<close> bytes.\<close>

definition hex_to_pod :: "nat \<Rightarrow> string \<Rightarrow> u8 list option" where
  "hex_to_pod n hex_str = from_hex_to_buffer n hex_str"

text \<open>
  \<open>from_hex_locale::to_vector\<close>, in the C locale: white space and colons are skipped, but only where a byte
  can start; the end of the text inside a byte reads the terminating zero.
\<close>

definition include_char :: "char \<Rightarrow> bool" where
  "include_char c \<longleftrightarrow> \<not> (of_char c \<in> {9, 10, 11, 12, 13, 32 :: nat}) \<and> c \<noteq> CHR '':''"

definition char_to_int :: "char \<Rightarrow> u8 option" where
  "char_to_int c = (if isx c = 0xff then None else Some (isx c))"

fun to_vector_loop :: "string \<Rightarrow> u8 list option" where
  "to_vector_loop [] = Some []"
| "to_vector_loop (a # data) =
     (if \<not> include_char a then to_vector_loop data
      else case data of [] \<Rightarrow> None
           | b # data' \<Rightarrow> Option.bind (char_to_int a) (\<lambda>high. Option.bind (char_to_int b) (\<lambda>low.
               map_option ((#) (push_bit 4 high OR low)) (to_vector_loop data'))))"

definition to_vector :: "string \<Rightarrow> u8 list option" where
  "to_vector src = (if length (filter include_char src) mod 2 \<noteq> 0 then None else to_vector_loop src)"

subsection \<open>Specification\<close>

definition tolower :: "char \<Rightarrow> char" where
  "tolower c = (let n = (of_char c :: nat) in if 65 \<le> n \<and> n \<le> 90 then char_of (n + 32) else c)"

section \<open>One byte\<close>

lemma hex_alphabet_nth: "n < 16 \<Longrightarrow> hex_alphabet ! n = char_of (if n < 10 then 48 + n else 87 + n)"
proof -
  assume n: "n < 16"
  note eval = hex_alphabet_def char_of_def bit_iff_odd_drop_bit drop_bit_eq_div
  show ?thesis
  proof (cases "n < 8")
    case True
    then consider "n = 0" | "n = 1" | "n = 2" | "n = 3" | "n = 4" | "n = 5" | "n = 6" | "n = 7" by linarith
    then show ?thesis by cases (simp_all add: eval)
  next
    case False
    then consider "n = 8" | "n = 9" | "n = 10" | "n = 11" | "n = 12" | "n = 13" | "n = 14" | "n = 15"
      using n by linarith
    then show ?thesis by cases (simp_all add: eval)
  qed
qed

lemma unat_of_small: "k < 256 \<Longrightarrow> unat (of_nat k :: u8) = k"
  by (simp add: unat_of_nat)

lemma isx_alphabet: "n < 16 \<Longrightarrow> isx (hex_alphabet ! n) = of_nat n"
  by (simp add: hex_alphabet_nth isx_def Let_def)

lemma isx_value:
  assumes "isx c \<noteq> 0xff"
  shows "unat (isx c) < 16" and "hex_alphabet ! unat (isx c) = tolower c"
proof -
  define n where "n = (of_char c :: nat)"
  have c: "c = char_of n" by (simp add: n_def)
  consider (digit) "48 \<le> n" "n \<le> 57" | (upper) "65 \<le> n" "n \<le> 70" | (lower) "97 \<le> n" "n \<le> 102"
    using assms by (auto simp: isx_def Let_def n_def split: if_splits)
  then have "unat (isx c) < 16 \<and> hex_alphabet ! unat (isx c) = tolower c"
  proof cases
    case digit
    then have "isx c = of_nat (n - 48)" by (simp add: isx_def Let_def n_def)
    then have "unat (isx c) = n - 48" using digit unat_of_small [of "n - 48"] by (simp only:)
    then show ?thesis using digit c by (simp add: hex_alphabet_nth tolower_def Let_def flip: n_def)
  next
    case upper
    then obtain k where k: "n = k + 55" "10 \<le> k" "k < 16" using le_Suc_ex [of 55 n] by (auto simp: add.commute)
    then have "isx c = of_nat k" by (simp add: isx_def Let_def flip: n_def)
    then have "unat (isx c) = k" using k unat_of_small [of k] by simp
    then show ?thesis using k by (simp add: hex_alphabet_nth tolower_def Let_def add.commute flip: n_def)
  next
    case lower
    then obtain k where k: "n = k + 87" "10 \<le> k" "k < 16" using le_Suc_ex [of 87 n] by (auto simp: add.commute)
    then have "isx c = of_nat k" by (simp add: isx_def Let_def flip: n_def)
    then have "unat (isx c) = k" using k unat_of_small [of k] by simp
    then show ?thesis using k c by (simp add: hex_alphabet_nth tolower_def Let_def add.commute flip: n_def)
  qed
  then show "unat (isx c) < 16" and "hex_alphabet ! unat (isx c) = tolower c" by simp_all
qed

lemma byte_halves:
  "unat (drop_bit 4 (b :: u8)) < 16" "unat (b AND 0x0F) < 16"
  "push_bit 4 (of_nat (unat (drop_bit 4 b))) OR of_nat (unat (b AND 0x0F)) = b"
proof -
  have m: "b AND 0x0F = take_bit 4 b" by (simp add: take_bit_eq_mask mask_eq_exp_minus_1)
  have e: "push_bit 4 (drop_bit 4 b) OR take_bit 4 b = b" by (auto simp: bit_eq_iff bit_simps)
  show "unat (drop_bit 4 b) < 16" using unat_lt_8 [of b] unfolding unat_drop_bit by (simp add: less_mult_imp_div_less)
  show "unat (b AND 0x0F) < 16" unfolding m by (subst unsigned_take_bit_eq) (simp add: take_bit_eq_mod)
  show "push_bit 4 (of_nat (unat (drop_bit 4 b))) OR of_nat (unat (b AND 0x0F)) = b"
    using e unfolding m by simp
qed

lemma halves_byte:
  assumes "unat (x :: u8) < 16" and "unat (y :: u8) < 16"
  shows "drop_bit 4 (push_bit 4 x OR y) = x" and "(push_bit 4 x OR y) AND 0x0F = y"
proof -
  have v: "unat (push_bit 4 x OR y) = unat x * 16 + unat y"
    using unat_or_push_bit [of y 4 x] assms by simp
  show "drop_bit 4 (push_bit 4 x OR y) = x"
    unfolding word_unat_eq_iff unat_drop_bit v using assms by simp
  have "(push_bit 4 x OR y) AND 0x0F = take_bit 4 (push_bit 4 x OR y)"
    by (simp add: take_bit_eq_mask mask_eq_exp_minus_1)
  then have "unat ((push_bit 4 x OR y) AND 0x0F) = take_bit 4 (unat (push_bit 4 x OR y))"
    by (simp only: unsigned_take_bit_eq)
  also have "\<dots> = unat y" unfolding v take_bit_eq_mod using assms(2) by simp
  finally show "(push_bit 4 x OR y) AND 0x0F = y" unfolding word_unat_eq_iff .
qed

section \<open>Texts\<close>

lemma length_write_hex: "length (write_hex bs) = 2 * length bs"
  by (induction bs) (simp_all add: write_hex_def)

lemma from_hex_loop_write_hex: "from_hex_loop (write_hex bs) = Some bs"
proof (induction bs)
  case (Cons b bs)
  define x y where "x = unat (drop_bit 4 b)" and "y = unat (b AND 0x0F)"
  have "isx (hex_alphabet ! n) \<noteq> 0xff" if "n < 16" for n
  proof -
    have "unat (of_nat n :: u8) \<noteq> unat (0xff :: u8)" using unat_of_small [of n] that by simp
    then show ?thesis using isx_alphabet [OF that] by metis
  qed
  moreover have "x < 16" "y < 16" "push_bit 4 (of_nat x) OR of_nat y = b"
    unfolding x_def y_def by (rule byte_halves)+
  moreover have "write_hex (b # bs) = hex_alphabet ! x # hex_alphabet ! y # write_hex bs"
    by (simp add: write_hex_def x_def y_def)
  ultimately show ?case using Cons isx_alphabet by simp
qed (simp add: write_hex_def)

lemma isx_tolower: "isx (tolower c) = isx c"
  by (simp add: isx_def tolower_def Let_def)

lemma from_hex_loop_tolower: "from_hex_loop (map tolower s) = from_hex_loop s"
  by (induction s rule: from_hex_loop.induct) (simp_all add: isx_tolower)

lemma write_hex_from_hex_loop:
  "even (length s) \<Longrightarrow> from_hex_loop s = Some bs \<Longrightarrow> write_hex bs = map tolower s"
proof (induction s arbitrary: bs rule: from_hex_loop.induct)
  case (1 a b src)
  then obtain cs where cs: "from_hex_loop src = Some cs" "bs = (push_bit 4 (isx a) OR isx b) # cs"
      "isx a \<noteq> 0xff" "isx b \<noteq> 0xff" by (auto split: if_splits)
  have "write_hex cs = map tolower src" using 1 cs by simp
  then show ?case
    using cs isx_value [OF cs(3)] isx_value [OF cs(4)] halves_byte [of "isx a" "isx b"] by (simp add: write_hex_def)
qed (simp_all add: write_hex_def)

interpretation hex: codec "\<lambda>bs. length bs \<le> (2 ^ 64 - 1) div 2" to_hex_string from_hex_to_string
  by unfold_locales
    (auto simp: to_hex_string_def from_hex_to_string_def to_buffer_unchecked_def length_write_hex from_hex_loop_write_hex
      split: if_splits)

section \<open>Properties\<close>

text \<open>
  C30: Hexadecimal text: what was written is read back, and a text is read as given bytes exactly when, up to the
  case of its letters, it is what is written for them.
\<close>

theorem hex_canonical:
  assumes "length bs \<le> (2 ^ 64 - 1) div 2"
  shows "Option.bind (to_hex_string bs) from_hex_to_string = Some bs \<and>
    (from_hex_to_string s = Some bs \<longleftrightarrow> to_hex_string bs = Some (map tolower s))"
proof
  show "Option.bind (to_hex_string bs) from_hex_to_string = Some bs" using assms by (rule hex.roundtrip)
  show "from_hex_to_string s = Some bs \<longleftrightarrow> to_hex_string bs = Some (map tolower s)"
  proof
    assume "from_hex_to_string s = Some bs"
    then show "to_hex_string bs = Some (map tolower s)"
      using assms write_hex_from_hex_loop [of s bs]
      by (auto simp: from_hex_to_string_def to_buffer_unchecked_def to_hex_string_def even_iff_mod_2_eq_zero split: if_splits)
  next
    assume "to_hex_string bs = Some (map tolower s)"
    then have w: "map tolower s = write_hex bs" by (auto simp: to_hex_string_def split: if_splits)
    then have "length s = 2 * length bs" using length_write_hex [of bs] by (metis length_map)
    then show "from_hex_to_string s = Some bs"
      using from_hex_loop_write_hex [of bs] from_hex_loop_tolower [of s] w
      by (simp add: from_hex_to_string_def to_buffer_unchecked_def)
  qed
qed

theorem hex_canonical_witness:
  "Option.bind (to_hex_string [0xC0, 0x0D]) from_hex_to_string = Some [0xC0, 0x0D] \<and>
   (from_hex_to_string ''C00d'' = Some [0xC0, 0x0D] \<longleftrightarrow> to_hex_string [0xC0, 0x0D] = Some (map tolower ''C00d''))"
  by (rule hex_canonical) simp

end
