(* ===== verification/Checkpoints.thy ===== *)
theory Checkpoints
  imports Hex Config
begin

text \<open>
  Checkpoints: \<open>hashmonkey-core/src/checkpoints/checkpoints.h\<close> and \<open>checkpoints.cpp\<close>. A \<open>std::map\<close> is the list of its entries in
  ascending order of the keys. The conversion of a text to a difficulty, which is a third-party
  library's, the contents of the JSON file and the DNS records are parameters. Every operation that
  adds returns the success and the new state: a failure keeps what was added before it.
\<close>

section \<open>Definitions\<close>

type_synonym block_hash = "u8 list"

record checkpoints =
  m_points :: "(u64 \<times> block_hash) list"
  m_difficulty_points :: "(u64 \<times> u128) list"

definition no_checkpoints :: checkpoints where
  "no_checkpoints = \<lparr>m_points = [], m_difficulty_points = []\<rparr>"

fun map_insert :: "'k :: linorder \<Rightarrow> 'v \<Rightarrow> ('k \<times> 'v) list \<Rightarrow> ('k \<times> 'v) list" where
  "map_insert k v [] = [(k, v)]"
| "map_insert k v ((k', v') # ps) =
     (if k < k' then (k, v) # (k', v') # ps else if k = k' then (k, v) # ps else (k', v') # map_insert k v ps)"

definition add_checkpoint ::
  "(string \<Rightarrow> u128 option) \<Rightarrow> u64 \<Rightarrow> string \<Rightarrow> string \<Rightarrow> checkpoints \<Rightarrow> bool \<times> checkpoints" where
  "add_checkpoint parse_difficulty height hash_str difficulty_str cp =
     (case hex_to_pod 32 hash_str of None \<Rightarrow> (False, cp)
      | Some h \<Rightarrow>
          if (case map_of (m_points cp) height of None \<Rightarrow> False | Some h' \<Rightarrow> h \<noteq> h') then (False, cp)
          else let cp1 = cp\<lparr>m_points := map_insert height h (m_points cp)\<rparr>
               in if difficulty_str = [] then (True, cp1)
                  else case parse_difficulty difficulty_str of None \<Rightarrow> (False, cp1)
                       | Some d \<Rightarrow>
                           if (case map_of (m_difficulty_points cp1) height of None \<Rightarrow> False | Some d' \<Rightarrow> d \<noteq> d')
                           then (False, cp1)
                           else (True, cp1\<lparr>m_difficulty_points := map_insert height d (m_difficulty_points cp1)\<rparr>))"

definition is_in_checkpoint_zone :: "u64 \<Rightarrow> checkpoints \<Rightarrow> bool" where
  "is_in_checkpoint_zone height cp \<longleftrightarrow> m_points cp \<noteq> [] \<and> height \<le> fst (last (m_points cp))"

text \<open>The result, and whether there is a checkpoint.\<close>

definition check_block :: "u64 \<Rightarrow> block_hash \<Rightarrow> checkpoints \<Rightarrow> bool \<times> bool" where
  "check_block height h cp =
     (case map_of (m_points cp) height of None \<Rightarrow> (True, False) | Some h' \<Rightarrow> (h' = h, True))"

definition is_alternative_block_allowed :: "u64 \<Rightarrow> u64 \<Rightarrow> checkpoints \<Rightarrow> bool" where
  "is_alternative_block_allowed blockchain_height block_height cp =
     (if block_height = 0 then False
      else let before = takeWhile (\<lambda>p. fst p \<le> blockchain_height) (m_points cp)
           in if before = [] then True else fst (last before) < block_height)"

definition get_max_height :: "checkpoints \<Rightarrow> u64" where
  "get_max_height cp = (if m_points cp = [] then 0 else fst (last (m_points cp)))"

definition get_nearest_checkpoint_height :: "u64 \<Rightarrow> checkpoints \<Rightarrow> u64" where
  "get_nearest_checkpoint_height block_height cp =
     (if m_points cp = [] then 0
      else let before = takeWhile (\<lambda>p. fst p \<le> block_height) (m_points cp)
           in if before = [] then 0 else fst (last before))"

definition check_for_conflicts :: "checkpoints \<Rightarrow> checkpoints \<Rightarrow> bool" where
  "check_for_conflicts other cp =
     list_all (\<lambda>(k, h). case map_of (m_points cp) k of None \<Rightarrow> True | Some h' \<Rightarrow> h = h') (m_points other)"

subsection \<open>Sources of checkpoints\<close>

text \<open>A sequence of \<open>ADD_CHECKPOINT\<close>: the first failure ends it.\<close>

fun add_checkpoints ::
  "(string \<Rightarrow> u128 option) \<Rightarrow> (u64 \<times> string \<times> string) list \<Rightarrow> checkpoints \<Rightarrow> bool \<times> checkpoints" where
  "add_checkpoints parse_difficulty [] cp = (True, cp)"
| "add_checkpoints parse_difficulty ((height, hash_str, difficulty_str) # ps) cp =
     (case add_checkpoint parse_difficulty height hash_str difficulty_str cp of
        (True, cp') \<Rightarrow> add_checkpoints parse_difficulty ps cp' | (False, cp') \<Rightarrow> (False, cp'))"

definition default_checkpoints :: "network_type \<Rightarrow> (u64 \<times> string \<times> string) list" where
  "default_checkpoints nettype =
     (if nettype = TESTNET then
       [(0, ''48ca7cd3c8de5b6a4d53d2861fbdaedca141553559f9be9520068053cda8430b'', ''0x1''),
        (1000000, ''46b690b710a07ea051bc4a6b6842ac37be691089c0f7758cfeec4d5fc0b4a258'', ''0x7aaad7153''),
        (1058600, ''12904f6b4d9e60fd875674e07147d2c83d6716253f046af7b894c3e81da7e1bd'', ''0x971efd119''),
        (1450000, ''87562ca6786f41556b8d5b48067303a57dc5ca77155b35199aedaeca1550f5a0'', ''0xa639e2930e'')]
      else if nettype = STAGENET then
       [(0, ''76ee3cc98646292206cd3e86f74d88b4dcc1d937088645e9b0cbca84b7ce74eb'', ''0x1''),
        (10000, ''1f8b0ce313f8b9ba9a46108bfd285c45ad7c2176871fd41c3a690d4830ce2fd5'', ''0x1d73ba''),
        (550000, ''409f68cddd8e74b37469b41c1e61250d81c5776b42264f416d5d27c4626383ed'', ''0x5f3d4d03e'')]
      else [(0, ''d338b3caa6c110978eb2200eb4de398ada9f50bfa01c0c120c36817b22eabf15'', ''0x1'')])"

definition init_default_checkpoints ::
  "(string \<Rightarrow> u128 option) \<Rightarrow> network_type \<Rightarrow> checkpoints \<Rightarrow> bool \<times> checkpoints" where
  "init_default_checkpoints parse_difficulty nettype cp =
     add_checkpoints parse_difficulty (default_checkpoints nettype) cp"

text \<open>The file: missing, not loadable, or its lines.\<close>

definition load_checkpoints_from_json ::
  "(string \<Rightarrow> u128 option) \<Rightarrow> (u64 \<times> string) list option option \<Rightarrow> checkpoints \<Rightarrow> bool \<times> checkpoints" where
  "load_checkpoints_from_json parse_difficulty file cp =
     (case file of None \<Rightarrow> (True, cp)
      | Some None \<Rightarrow> (False, cp)
      | Some (Some hashlines) \<Rightarrow>
          add_checkpoints parse_difficulty
            (map (\<lambda>(height, hash). (height, hash, [])) (filter (\<lambda>(height, hash). \<not> height \<le> get_max_height cp) hashlines))
            cp)"

text \<open>
  \<open>ss >> height\<close>: white space, a sign, digits. Out of range fails; a negative number wraps.
\<close>

definition stream_u64 :: "string \<Rightarrow> u64 option" where
  "stream_u64 s =
     (let s1 = dropWhile (\<lambda>c. of_char c \<in> {9, 10, 11, 12, 13, 32 :: nat}) s;
          neg = (s1 \<noteq> [] \<and> hd s1 = CHR ''-'');
          s2 = (if s1 \<noteq> [] \<and> (hd s1 = CHR ''-'' \<or> hd s1 = CHR ''+'') then tl s1 else s1);
          ds = takeWhile (\<lambda>c. 48 \<le> (of_char c :: nat) \<and> (of_char c :: nat) \<le> 57) s2;
          v = foldl (\<lambda>a c. a * 10 + (of_char c - 48)) 0 ds
      in if ds = [] \<or> \<not> v < 2 ^ 64 then None else Some (if neg then - of_nat v else of_nat v))"

definition dns_line :: "string \<Rightarrow> (u64 \<times> string \<times> string) option" where
  "dns_line record =
     (let pos = length (takeWhile (\<lambda>c. c \<noteq> CHR '':'') record)
      in if \<not> pos < length record then None
         else case stream_u64 (take pos record) of None \<Rightarrow> None
              | Some height \<Rightarrow>
                  let hashStr = drop (pos + 1) record
                  in if hex_to_pod 32 hashStr = None then None else Some (height, hashStr, []))"

definition load_checkpoints_from_dns ::
  "(string \<Rightarrow> u128 option) \<Rightarrow> string list option \<Rightarrow> checkpoints \<Rightarrow> bool \<times> checkpoints" where
  "load_checkpoints_from_dns parse_difficulty records cp =
     (case records of None \<Rightarrow> (True, cp)
      | Some rs \<Rightarrow> add_checkpoints parse_difficulty (List.map_filter dns_line rs) cp)"

definition load_new_checkpoints ::
  "(string \<Rightarrow> u128 option) \<Rightarrow> (u64 \<times> string) list option option \<Rightarrow> string list option \<Rightarrow> bool \<Rightarrow> checkpoints \<Rightarrow> bool \<times> checkpoints" where
  "load_new_checkpoints parse_difficulty file records dns cp =
     (case load_checkpoints_from_json parse_difficulty file cp of (result, cp1) \<Rightarrow>
        if dns then case load_checkpoints_from_dns parse_difficulty records cp1 of (r, cp2) \<Rightarrow> (result \<and> r, cp2)
        else (result, cp1))"

subsection \<open>Specification\<close>

definition cp_inv :: "checkpoints \<Rightarrow> bool" where
  "cp_inv cp \<longleftrightarrow> sorted_wrt (<) (map fst (m_points cp)) \<and> sorted_wrt (<) (map fst (m_difficulty_points cp))"

text \<open>A node at work: any sequence of loads and additions.\<close>

inductive cp_run :: "checkpoints \<Rightarrow> checkpoints \<Rightarrow> bool" where
  idle: "cp_run cp cp"
| add: "cp_run cp cp' \<Longrightarrow> add_checkpoint pd h hs ds cp' = (r, cp'') \<Longrightarrow> cp_run cp cp''"
| default: "cp_run cp cp' \<Longrightarrow> init_default_checkpoints pd nettype cp' = (r, cp'') \<Longrightarrow> cp_run cp cp''"
| load: "cp_run cp cp' \<Longrightarrow> load_new_checkpoints pd file records dns cp' = (r, cp'') \<Longrightarrow> cp_run cp cp''"

section \<open>Ordered lists\<close>

lemma map_insert_keys: "set (map fst (map_insert k v ps)) = insert k (set (map fst ps))"
  by (induction ps rule: map_insert.induct) auto

lemma map_insert_sorted: "sorted_wrt (<) (map fst ps) \<Longrightarrow> sorted_wrt (<) (map fst (map_insert k v ps))"
proof (induction k v ps rule: map_insert.induct)
  case (2 k v k' v' ps)
  then show ?case using map_insert_keys [of k v ps] by fastforce
qed simp

lemma map_of_map_insert: "sorted_wrt (<) (map fst ps) \<Longrightarrow> map_of (map_insert k v ps) = (map_of ps)(k \<mapsto> v)"
proof (induction k v ps rule: map_insert.induct)
  case (2 k v k' v' ps)
  then show ?case by (auto simp: fun_eq_iff)
qed simp

lemma takeWhile_sorted:
  "sorted_wrt (<) (map fst ps) \<Longrightarrow> takeWhile (\<lambda>p. fst p \<le> n) ps = filter (\<lambda>p. fst p \<le> (n :: 'k :: linorder)) ps"
proof (induction ps)
  case (Cons p ps)
  have "filter (\<lambda>p. fst p \<le> n) ps = []" if "\<not> fst p \<le> n"
    using Cons.prems that by (auto simp: filter_empty_conv)
  then show ?case using Cons by auto
qed simp

lemma sorted_last: "sorted_wrt (<) (map fst ps) \<Longrightarrow> p \<in> set ps \<Longrightarrow> fst p \<le> fst (last ps :: 'k :: linorder \<times> 'v)"
  by (induction ps) (auto split: if_splits intro: less_imp_le)

lemma last_before:
  fixes n :: "'k :: linorder"
  assumes "sorted_wrt (<) (map fst ps)" and "takeWhile (\<lambda>p. fst p \<le> n) ps \<noteq> []"
  defines "k \<equiv> fst (last (takeWhile (\<lambda>p. fst p \<le> n) ps))"
  shows "k \<in> fst ` set ps" and "k \<le> n" and "\<And>k'. k' \<in> fst ` set ps \<Longrightarrow> k' \<le> n \<Longrightarrow> k' \<le> k"
proof -
  define fs where "fs = filter (\<lambda>p. fst p \<le> n) ps"
  have fs: "takeWhile (\<lambda>p. fst p \<le> n) ps = fs" unfolding fs_def by (rule takeWhile_sorted [OF assms(1)])
  have ne: "fs \<noteq> []" using assms(2) fs by simp
  then have l: "last fs \<in> set fs" by simp
  then show "k \<in> fst ` set ps" "k \<le> n" unfolding k_def fs by (auto simp: fs_def)
  have "sorted_wrt (<) (map fst fs)" unfolding fs_def sorted_wrt_map using assms(1) unfolding sorted_wrt_map by (rule sorted_wrt_filter)
  then show "k' \<le> k" if "k' \<in> fst ` set ps" "k' \<le> n" for k'
    using that sorted_last [of fs] unfolding k_def fs by (auto simp: fs_def)
qed

section \<open>Additions\<close>

lemma add_checkpoint_grows:
  assumes "cp_inv cp" and "add_checkpoint pd h hs ds cp = (r, cp')"
  shows "cp_inv cp'" and "map_of (m_points cp) \<subseteq>\<^sub>m map_of (m_points cp')"
proof -
  have s: "sorted_wrt (<) (map fst (m_points cp))" using assms(1) by (simp add: cp_inv_def)
  show "cp_inv cp'" using assms
    by (auto simp: add_checkpoint_def cp_inv_def Let_def intro: map_insert_sorted split: option.splits if_splits)
  have "map_of (m_points cp) \<subseteq>\<^sub>m map_of (map_insert h x (m_points cp))"
    if "\<not> (case map_of (m_points cp) h of None \<Rightarrow> False | Some h' \<Rightarrow> x \<noteq> h')" for x
    using that by (auto simp: map_of_map_insert [OF s] map_le_def split: option.splits)
  then show "map_of (m_points cp) \<subseteq>\<^sub>m map_of (m_points cp')"
    using assms(2) by (auto simp: add_checkpoint_def Let_def split: option.splits if_splits)
qed

lemma add_checkpoints_grows:
  "cp_inv cp \<Longrightarrow> add_checkpoints pd ps cp = (r, cp') \<Longrightarrow>
   cp_inv cp' \<and> map_of (m_points cp) \<subseteq>\<^sub>m map_of (m_points cp')"
proof (induction pd ps cp arbitrary: r rule: add_checkpoints.induct)
  case (2 pd h hs ds ps cp)
  obtain b cp1 where a: "add_checkpoint pd h hs ds cp = (b, cp1)" by force
  note g = add_checkpoint_grows [OF 2(2) a]
  show ?case
  proof (cases b)
    case True
    then have "cp_inv cp' \<and> map_of (m_points cp1) \<subseteq>\<^sub>m map_of (m_points cp')"
      using 2 a g(1) by auto
    then show ?thesis using g(2) map_le_trans by blast
  next
    case False
    then show ?thesis using 2(3) a g by auto
  qed
qed simp

lemma load_new_checkpoints_grows:
  assumes "cp_inv cp" and "load_new_checkpoints pd file records dns cp = (r, cp')"
  shows "cp_inv cp' \<and> map_of (m_points cp) \<subseteq>\<^sub>m map_of (m_points cp')"
proof -
  obtain r1 cp1 where j: "load_checkpoints_from_json pd file cp = (r1, cp1)" by force
  have g1: "cp_inv cp1 \<and> map_of (m_points cp) \<subseteq>\<^sub>m map_of (m_points cp1)"
    using j assms(1) add_checkpoints_grows by (auto simp: load_checkpoints_from_json_def split: option.splits)
  obtain r2 cp2 where d: "load_checkpoints_from_dns pd records cp1 = (r2, cp2)" by force
  have "cp_inv cp2 \<and> map_of (m_points cp1) \<subseteq>\<^sub>m map_of (m_points cp2)"
    using d g1 add_checkpoints_grows by (auto simp: load_checkpoints_from_dns_def split: option.splits)
  then show ?thesis using assms(2) j d g1 map_le_trans by (auto simp: load_new_checkpoints_def split: if_splits)
qed

lemma cp_run_grows:
  "cp_run cp cp' \<Longrightarrow> cp_inv cp \<Longrightarrow> cp_inv cp' \<and> map_of (m_points cp) \<subseteq>\<^sub>m map_of (m_points cp')"
proof (induction rule: cp_run.induct)
  case (add cp cp' pd h hs ds r cp'')
  then show ?case using add_checkpoint_grows map_le_trans by blast
next
  case (default cp cp' pd nettype r cp'')
  then show ?case using add_checkpoints_grows map_le_trans unfolding init_default_checkpoints_def by blast
next
  case (load cp cp' pd f rs dns r cp'')
  then show ?case using load_new_checkpoints_grows map_le_trans by blast
qed simp

lemma add_checkpoint_in_force:
  assumes "cp_inv cp" and "add_checkpoint pd h hs ds cp = (True, cp')"
  shows "\<exists>x. hex_to_pod 32 hs = Some x \<and> map_of (m_points cp') h = Some x"
proof -
  have s: "sorted_wrt (<) (map fst (m_points cp))" using assms(1) by (simp add: cp_inv_def)
  show ?thesis using assms(2)
    by (auto simp: add_checkpoint_def Let_def map_of_map_insert [OF s] split: option.splits if_splits)
qed

lemma add_checkpoints_in_force:
  "cp_inv cp \<Longrightarrow> add_checkpoints pd ps cp = (True, cp') \<Longrightarrow> (h, hs, ds) \<in> set ps \<Longrightarrow>
   \<exists>x. hex_to_pod 32 hs = Some x \<and> map_of (m_points cp') h = Some x"
proof (induction pd ps cp rule: add_checkpoints.induct)
  case (2 pd h' hs' ds' ps cp)
  obtain cp1 where a: "add_checkpoint pd h' hs' ds' cp = (True, cp1)" "add_checkpoints pd ps cp1 = (True, cp')"
    using 2(3) by (auto split: prod.splits bool.splits)
  have i: "cp_inv cp1" using add_checkpoint_grows(1) [OF 2(2) a(1)] .
  show ?case
  proof (cases "(h, hs, ds) \<in> set ps")
    case True
    then show ?thesis using 2(1) [OF a(1) [symmetric] refl i a(2)] by blast
  next
    case False
    then have "h = h'" "hs = hs'" using 2(4) by simp_all
    then show ?thesis
      using add_checkpoint_in_force [OF 2(2) a(1)] add_checkpoints_grows [OF i a(2)] by (metis domI map_le_def)
  qed
qed simp

lemma in_zone: "cp_inv cp \<Longrightarrow> is_in_checkpoint_zone k cp \<longleftrightarrow> (\<exists>c \<in> fst ` set (m_points cp). k \<le> c)"
  using sorted_last [of "m_points cp"]
  by (auto simp: is_in_checkpoint_zone_def cp_inv_def intro: order_trans intro!: bexI [of _ "last (m_points cp)"])

lemma get_max_height_zone: "cp_inv cp \<Longrightarrow> m_points cp \<noteq> [] \<Longrightarrow> is_in_checkpoint_zone k cp \<longleftrightarrow> k \<le> get_max_height cp"
  by (simp add: is_in_checkpoint_zone_def get_max_height_def)

lemma get_nearest_checkpoint_height_greatest:
  assumes "cp_inv cp" and "c \<in> fst ` set (m_points cp)" and "c \<le> n"
  shows "get_nearest_checkpoint_height n cp \<in> fst ` set (m_points cp)" and "c \<le> get_nearest_checkpoint_height n cp"
    and "get_nearest_checkpoint_height n cp \<le> n"
proof -
  have s: "sorted_wrt (<) (map fst (m_points cp))" using assms(1) by (simp add: cp_inv_def)
  have ne: "takeWhile (\<lambda>p. fst p \<le> n) (m_points cp) \<noteq> []"
    unfolding takeWhile_sorted [OF s] using assms(2,3) by (auto simp: filter_empty_conv)
  then have g: "get_nearest_checkpoint_height n cp = fst (last (takeWhile (\<lambda>p. fst p \<le> n) (m_points cp)))"
    by (auto simp: get_nearest_checkpoint_height_def)
  show "get_nearest_checkpoint_height n cp \<in> fst ` set (m_points cp)" "c \<le> get_nearest_checkpoint_height n cp"
    "get_nearest_checkpoint_height n cp \<le> n"
    unfolding g using last_before [OF s ne] assms(2,3) by blast+
qed

lemma sorted_distinct: "sorted_wrt (<) (map fst ps) \<Longrightarrow> distinct (map fst (ps :: ('k :: linorder \<times> 'v) list))"
  by (induction ps) auto

lemma check_for_conflicts_iff:
  assumes "cp_inv other"
  shows "check_for_conflicts other cp \<longleftrightarrow>
    (\<forall>k x y. map_of (m_points other) k = Some x \<longrightarrow> map_of (m_points cp) k = Some y \<longrightarrow> x = y)"
proof -
  have "(k, x) \<in> set (m_points other) \<longleftrightarrow> map_of (m_points other) k = Some x" for k x
    using assms sorted_distinct [of "m_points other"] by (simp add: cp_inv_def map_of_eq_Some_iff)
  then show ?thesis by (auto simp: check_for_conflicts_def list_all_iff Ball_def split: option.splits)
qed

section \<open>Properties\<close>

text \<open>
  C22: Checkpoints only accumulate. Whatever is loaded from the defaults, the file or the DNS records, in
  whatever order and even if a load fails half-way, the containers stay ordered, no checkpoint
  disappears or changes, and a block that a checkpoint refuses stays refused.
\<close>

theorem checkpoints_accumulate:
  assumes "cp_run no_checkpoints cp" and "cp_run cp cp'"
  shows "cp_inv cp' \<and> map_of (m_points cp) \<subseteq>\<^sub>m map_of (m_points cp') \<and>
    (\<not> fst (check_block h b cp) \<longrightarrow> \<not> fst (check_block h b cp'))"
proof -
  have "cp_inv cp" using cp_run_grows [OF assms(1)] by (simp add: no_checkpoints_def cp_inv_def)
  then have g: "cp_inv cp'" "map_of (m_points cp) \<subseteq>\<^sub>m map_of (m_points cp')" using cp_run_grows [OF assms(2)] by blast+
  have "map_of (m_points cp) h = Some x \<Longrightarrow> map_of (m_points cp') h = Some x" for x
    using g(2) by (metis domI map_le_def)
  then show ?thesis using g by (auto simp: check_block_def split: option.splits)
qed

theorem checkpoints_accumulate_witness:
  "\<exists>cp. add_checkpoint (\<lambda>_. None) 5 (concat (replicate 32 ''0a'')) [] no_checkpoints = (True, cp) \<and>
     \<not> fst (check_block 5 [] cp) \<and> cp_inv cp \<and> map_of (m_points cp) \<subseteq>\<^sub>m map_of (m_points cp)"
proof -
  have h: "hex_to_pod 32 (concat (replicate 32 ''0a'')) = Some (replicate 32 0x0A)" by code_simp
  define cp where "cp = snd (add_checkpoint (\<lambda>_. None) 5 (concat (replicate 32 ''0a'')) [] no_checkpoints)"
  have a: "add_checkpoint (\<lambda>_. None) 5 (concat (replicate 32 ''0a'')) [] no_checkpoints = (True, cp)"
    unfolding cp_def add_checkpoint_def h by (simp add: no_checkpoints_def)
  have r: "cp_run no_checkpoints cp" by (rule cp_run.add [OF cp_run.idle a])
  have "\<not> fst (check_block 5 [] cp)"
    unfolding cp_def add_checkpoint_def h by (simp add: no_checkpoints_def check_block_def)
  then show ?thesis using a checkpoints_accumulate [OF r cp_run.idle, of 5 "[]"] by blast
qed

text \<open>
  The heights that checkpoints govern. An alternative block is allowed exactly when it is not the
  genesis block and lies above every checkpoint that the chain has reached; a height is in the checkpoint zone
  exactly when some checkpoint lies at or above it.
\<close>

lemma checkpoint_heights:
  assumes "cp_run no_checkpoints cp"
  shows "(is_alternative_block_allowed n k cp \<longleftrightarrow>
      k \<noteq> 0 \<and> (\<forall>c \<in> dom (map_of (m_points cp)). c \<le> n \<longrightarrow> c < k)) \<and>
    (is_in_checkpoint_zone k cp \<longleftrightarrow> (\<exists>c \<in> dom (map_of (m_points cp)). k \<le> c))"
proof -
  have i: "cp_inv cp" using cp_run_grows [OF assms] by (simp add: no_checkpoints_def cp_inv_def)
  then have s: "sorted_wrt (<) (map fst (m_points cp))" by (simp add: cp_inv_def)
  have "is_alternative_block_allowed n k cp \<longleftrightarrow> k \<noteq> 0 \<and> (\<forall>c \<in> fst ` set (m_points cp). c \<le> n \<longrightarrow> c < k)"
  proof (cases "takeWhile (\<lambda>p. fst p \<le> n) (m_points cp) = []")
    case True
    then have "\<forall>c \<in> fst ` set (m_points cp). \<not> c \<le> n" unfolding takeWhile_sorted [OF s] by (auto simp: filter_empty_conv)
    then show ?thesis using True by (auto simp: is_alternative_block_allowed_def)
  next
    case False
    note b = last_before [OF s False]
    show ?thesis using False b(1,2) b(3) by (auto simp: is_alternative_block_allowed_def Let_def intro: le_less_trans)
  qed
  with in_zone [OF i, of k] show ?thesis by (simp add: dom_map_of_conv_image_fst)
qed

text \<open>
  The built-in test network checkpoints are in force, and they are those of another chain: at height
  1000000 only the block with the hash of that chain passes.
\<close>

lemma testnet_needs_foreign_block:
  assumes "init_default_checkpoints parse_difficulty TESTNET no_checkpoints = (True, cp)"
  shows "is_in_checkpoint_zone 1000000 cp \<and>
    (fst (check_block 1000000 b cp) \<longleftrightarrow>
      hex_to_pod 32 ''46b690b710a07ea051bc4a6b6842ac37be691089c0f7758cfeec4d5fc0b4a258'' = Some b)"
proof -
  have "cp_inv no_checkpoints" by (simp add: cp_inv_def no_checkpoints_def)
  then obtain x where x: "hex_to_pod 32 ''46b690b710a07ea051bc4a6b6842ac37be691089c0f7758cfeec4d5fc0b4a258'' = Some x"
      "map_of (m_points cp) 1000000 = Some x"
    using add_checkpoints_in_force [OF _ assms [unfolded init_default_checkpoints_def],
      of 1000000 "''46b690b710a07ea051bc4a6b6842ac37be691089c0f7758cfeec4d5fc0b4a258''" "''0x7aaad7153''"]
    by (auto simp: default_checkpoints_def)
  have "cp_inv cp"
    using add_checkpoints_grows [OF \<open>cp_inv no_checkpoints\<close> assms [unfolded init_default_checkpoints_def]] by blast
  then have "is_in_checkpoint_zone 1000000 cp" using map_of_SomeD [OF x(2)] by (force simp: in_zone)
  then show ?thesis using x by (auto simp: check_block_def)
qed

end
