(* ===== verification/RandomX_Seed.thy ===== *)
theory RandomX_Seed
  imports Hmny_Prelude
begin

text \<open>
  Which block seeds the proof of work: \<open>rx_seedheight\<close> and \<open>rx_seedheights\<close> of
  \<open>hashmonkey-core/src/crypto/rx-slow-hash.c\<close>. The two environment variables that test set-ups use are arguments:
  \<open>None\<close> when unset, otherwise the number \<open>atoi\<close> reads, as the unsigned variable holds it. The values are
  read once by the program and do not change.
\<close>

section \<open>Definitions\<close>

definition SEEDHASH_EPOCH_BLOCKS :: u32 where
  "SEEDHASH_EPOCH_BLOCKS = 2048"

definition SEEDHASH_EPOCH_LAG :: u32 where
  "SEEDHASH_EPOCH_LAG = 64"

definition is_power_of_2 :: "u64 \<Rightarrow> bool" where
  "is_power_of_2 n \<longleftrightarrow> n \<noteq> 0 \<and> n AND (n - 1) = 0"

definition get_seedhash_epoch_lag :: "u32 option \<Rightarrow> u32" where
  "get_seedhash_epoch_lag e =
     (case e of None \<Rightarrow> SEEDHASH_EPOCH_LAG
      | Some lag \<Rightarrow> if lag > SEEDHASH_EPOCH_LAG \<or> \<not> is_power_of_2 (ucast lag) then SEEDHASH_EPOCH_LAG else lag)"

definition get_seedhash_epoch_blocks :: "u32 option \<Rightarrow> u32" where
  "get_seedhash_epoch_blocks e =
     (case e of None \<Rightarrow> SEEDHASH_EPOCH_BLOCKS
      | Some blocks \<Rightarrow>
          if blocks < 2 \<or> blocks > SEEDHASH_EPOCH_BLOCKS \<or> \<not> is_power_of_2 (ucast blocks) then SEEDHASH_EPOCH_BLOCKS
          else blocks)"

definition rx_seedheight :: "u32 option \<Rightarrow> u32 option \<Rightarrow> u64 \<Rightarrow> u64" where
  "rx_seedheight env_lag env_blocks height =
     (let seedhash_epoch_lag = ucast (get_seedhash_epoch_lag env_lag);
          seedhash_epoch_blocks = ucast (get_seedhash_epoch_blocks env_blocks)
      in if height \<le> seedhash_epoch_blocks + seedhash_epoch_lag then 0
         else (height - seedhash_epoch_lag - 1) AND NOT (seedhash_epoch_blocks - 1))"

definition rx_seedheights :: "u32 option \<Rightarrow> u32 option \<Rightarrow> u64 \<Rightarrow> u64 \<times> u64" where
  "rx_seedheights env_lag env_blocks height =
     (rx_seedheight env_lag env_blocks height,
      rx_seedheight env_lag env_blocks (height + ucast (get_seedhash_epoch_lag env_lag)))"

subsection \<open>Specification\<close>

text \<open>The seed height on natural numbers: the last multiple of the epoch more than the lag below.\<close>

definition seed_of :: "nat \<Rightarrow> nat \<Rightarrow> nat \<Rightarrow> nat" where
  "seed_of lag blocks h = (if h \<le> blocks + lag then 0 else (h - lag - 1) div blocks * blocks)"

section \<open>Powers of two\<close>

lemma power_of_2_nat: "0 < n \<Longrightarrow> n AND (n - 1) = 0 \<Longrightarrow> \<exists>k. n = (2 :: nat) ^ k"
proof (induction n rule: less_induct)
  case (less n)
  show ?case
  proof (cases "even n")
    case True
    then obtain m where m: "n = 2 * m" by blast
    then have "0 < m" using less.prems by simp
    have "n AND (n - 1) = 2 * (m AND (m - 1))"
    proof -
      have "n div 2 = m" "(n - 1) div 2 = m - 1" "even n" using m \<open>0 < m\<close> by auto
      then show ?thesis by (subst and_nat_rec) simp
    qed
    then have "m AND (m - 1) = 0" using less.prems by simp
    then obtain k where "m = 2 ^ k" using less.IH [of m] m \<open>0 < m\<close> by auto
    then show ?thesis using m by (metis power_Suc)
  next
    case False
    then obtain q where q: "n = 2 * q + 1" by (rule oddE)
    have "n AND (n - 1) = 2 * (q AND q)" by (subst and_nat_rec) (simp add: q)
    then have "n AND (n - 1) = n - 1" using q by simp
    then have "n = 1" using less.prems by simp
    then show ?thesis by (metis power_0)
  qed
qed

lemma is_power_of_2_exp:
  assumes "is_power_of_2 w"
  shows "\<exists>k. unat w = 2 ^ k"
proof -
  have w: "w \<noteq> 0" "w AND (w - 1) = 0" using assms by (simp_all add: is_power_of_2_def)
  then have "0 < unat w" by (metis gr0I unsigned_0 word_unat_eq_iff)
  have "unat (w - 1) = unat w - 1" using \<open>0 < unat w\<close> by (simp add: unat_diff_le)
  moreover have "unat w AND unat (w - 1) = 0" using w(2) by (metis unsigned_and_eq unsigned_0)
  ultimately show ?thesis using power_of_2_nat [OF \<open>0 < unat w\<close>] by simp
qed

lemma epoch_lag: "unat (get_seedhash_epoch_lag e) \<le> 64"
  by (auto simp: get_seedhash_epoch_lag_def SEEDHASH_EPOCH_LAG_def word_less_nat_alt split: option.splits)

lemma epoch_blocks: "\<exists>k. unat (get_seedhash_epoch_blocks e) = 2 ^ k" "2 \<le> unat (get_seedhash_epoch_blocks e)"
    "unat (get_seedhash_epoch_blocks e) \<le> 2048"
proof -
  have d: "unat SEEDHASH_EPOCH_BLOCKS = 2 ^ 11" by (simp add: SEEDHASH_EPOCH_BLOCKS_def)
  have "\<exists>k. unat b = 2 ^ k" if "is_power_of_2 (ucast b)" for b :: u32
    using is_power_of_2_exp [OF that] by (simp add: unat_ucast_le)
  then show "\<exists>k. unat (get_seedhash_epoch_blocks e) = 2 ^ k"
    using exI [of "\<lambda>k. unat SEEDHASH_EPOCH_BLOCKS = 2 ^ k", OF d]
    by (simp add: get_seedhash_epoch_blocks_def split: option.splits)
  show "2 \<le> unat (get_seedhash_epoch_blocks e)" "unat (get_seedhash_epoch_blocks e) \<le> 2048"
    using d by (auto simp: get_seedhash_epoch_blocks_def word_less_nat_alt not_less split: option.splits)
qed

section \<open>Epochs\<close>

lemma unat_and_not_mask: "unat (w AND NOT (push_bit k 1 - 1) :: 'a :: len word) = unat w div 2 ^ k * 2 ^ k"
proof -
  let ?m = "push_bit k 1 - 1 :: 'a word"
  have "w = (w AND ?m) OR (w AND NOT ?m)" by (simp add: bit_eq_iff bit_simps) blast
  also have "\<dots> = (w AND ?m) + (w AND NOT ?m)"
    by (rule disjunctive_add_eq_or [symmetric]) (simp add: bit_eq_iff bit_simps)
  finally have "w - (w AND ?m) = w AND NOT ?m" by (metis add_diff_cancel_left')
  moreover have "unat (w - (w AND ?m)) = unat w - unat (w AND ?m)"
    by (rule unat_diff_le) (simp only: unat_and_mask mod_less_eq_dividend)
  ultimately have "unat (w AND NOT ?m) = unat w - unat w mod 2 ^ k" by (simp only: unat_and_mask)
  then show ?thesis by (simp add: minus_mod_eq_div_mult)
qed

lemma rx_seedheight_seed_of:
  "unat (rx_seedheight env_lag env_blocks h) =
   seed_of (unat (get_seedhash_epoch_lag env_lag)) (unat (get_seedhash_epoch_blocks env_blocks)) (unat h)"
proof -
  define L B where "L = (ucast (get_seedhash_epoch_lag env_lag) :: u64)" and "B = (ucast (get_seedhash_epoch_blocks env_blocks) :: u64)"
  obtain k where k: "unat B = 2 ^ k" using epoch_blocks(1) by (auto simp: B_def unat_ucast_le)
  have b: "unat B \<le> 2048" "unat L \<le> 64" using epoch_blocks(3) epoch_lag by (simp_all add: B_def L_def unat_ucast_le)
  have "k < 64"
  proof (rule ccontr)
    assume "\<not> k < 64"
    then have "(2 :: nat) ^ 64 \<le> 2 ^ k" by (intro power_increasing) simp_all
    then show False using b(1) k by simp
  qed
  then have B: "B = push_bit k 1" using k unat_shift_one [of k, where 'a = 64] by (simp only: word_unat_eq_iff) simp
  have le: "h \<le> B + L \<longleftrightarrow> unat h \<le> unat B + unat L"
    unfolding word_le_nat_alt using b by (subst unat_add_no_overflow) simp_all
  have "unat (h - L - 1) = unat h - unat L - 1" if "\<not> unat h \<le> unat B + unat L"
  proof -
    have "unat (h - L) = unat h - unat L" using that by (simp add: unat_diff_le)
    then show ?thesis using that by (simp add: unat_diff_le)
  qed
  moreover have "unat ((h - L - 1) AND NOT (B - 1)) = unat (h - L - 1) div unat B * unat B"
    unfolding B unat_and_not_mask by (simp only: B [symmetric] k)
  ultimately have "\<not> unat h \<le> unat B + unat L \<Longrightarrow>
      unat ((h - L - 1) AND NOT (B - 1)) = (unat h - unat L - 1) div unat B * unat B" by simp
  then show ?thesis
    by (simp add: rx_seedheight_def Let_def seed_of_def le flip: L_def B_def) (simp add: L_def B_def unat_ucast_le)
qed


lemma seed_of_bounds:
  assumes "blocks + lag < h" and "0 < blocks"
  shows "blocks dvd seed_of lag blocks h" and "seed_of lag blocks h + lag < h" and "h \<le> seed_of lag blocks h + lag + blocks"
proof -
  define x where "x = h - lag - 1"
  have s: "seed_of lag blocks h = x div blocks * blocks" using assms(1) by (simp add: seed_of_def x_def)
  have "x div blocks * blocks + x mod blocks = x" "x mod blocks < blocks" using assms(2) by simp_all
  then show "seed_of lag blocks h + lag < h" "h \<le> seed_of lag blocks h + lag + blocks"
    unfolding s using assms(1) x_def by linarith+
  show "blocks dvd seed_of lag blocks h" unfolding s by simp
qed

lemma seed_of_mono: "h \<le> h' \<Longrightarrow> seed_of lag blocks h \<le> seed_of lag blocks h'"
  by (auto simp: seed_of_def intro!: mult_le_mono1 div_le_mono)

lemma seed_of_multiple: "blocks dvd seed_of lag blocks h"
  by (simp add: seed_of_def)

text \<open>Within one epoch the seed changes at most once.\<close>

lemma seed_of_lag:
  assumes "0 < blocks" and "lag \<le> blocks"
  shows "seed_of lag blocks (h + lag) \<le> seed_of lag blocks h + blocks"
proof (cases "h \<le> blocks + lag")
  case True
  then have "(h - 1) div blocks * blocks \<le> blocks"
    using assms less_mult_imp_div_less [of "h - 1" 2 blocks] by (cases "(h - 1) div blocks") auto
  then show ?thesis using True by (simp add: seed_of_def)
next
  case False
  have "(h - 1) div blocks \<le> (h - lag - 1 + blocks) div blocks" using assms(2) False by (intro div_le_mono) simp
  then have "(h - 1) div blocks \<le> (h - lag - 1) div blocks + 1"
    using div_add_self2 [of blocks "h - lag - 1"] assms(1) by simp
  then have "(h - 1) div blocks * blocks \<le> ((h - lag - 1) div blocks + 1) * blocks" by (rule mult_le_mono1)
  then show ?thesis using False by (simp add: seed_of_def)
qed

lemma seed_of_window:
  assumes "0 < blocks" and "h \<le> h'" and "h' \<le> h + lag" and "lag \<le> blocks"
  shows "seed_of lag blocks h' \<in> {seed_of lag blocks h, seed_of lag blocks (h + lag)}"
proof -
  obtain a b c where abc: "seed_of lag blocks h = blocks * a" "seed_of lag blocks h' = blocks * b" "seed_of lag blocks (h + lag) = blocks * c"
    using seed_of_multiple [unfolded dvd_def] by metis
  have "blocks * a \<le> blocks * b" "blocks * b \<le> blocks * c" "blocks * c \<le> blocks * (a + 1)"
    using seed_of_mono [OF assms(2), of lag blocks] seed_of_mono [OF assms(3), of lag blocks] seed_of_lag [OF assms(1,4), of h]
    unfolding abc by simp_all
  then have "a \<le> b" "b \<le> c" "c \<le> a + 1" using assms(1) by (simp_all only: mult_le_cancel1)
  then show ?thesis unfolding abc by auto
qed

section \<open>Properties\<close>

text \<open>
  C31: The block that seeds the proof of work. Whatever the environment says, after the first epoch the seed block
  is at a multiple of the epoch length, more than the lag and at most lag and epoch below; the seed height
  never falls as the chain grows; and if the lag is not above the epoch, as with the built-in
  values, every height within the lag uses the current seed or the one announced as next.
\<close>

theorem seed_epochs:
  fixes h :: u64 and el eb :: "u32 option"
  assumes "unat h + 64 < 2 ^ 64"
  defines "lag \<equiv> unat (get_seedhash_epoch_lag el)" and "blocks \<equiv> unat (get_seedhash_epoch_blocks eb)"
  shows "(blocks + lag < unat h \<longrightarrow>
      unat (rx_seedheight el eb h) mod blocks = 0 \<and> unat (rx_seedheight el eb h) + lag < unat h \<and>
      unat h \<le> unat (rx_seedheight el eb h) + lag + blocks) \<and>
    (\<forall>h'. h \<le> h' \<longrightarrow> rx_seedheight el eb h \<le> rx_seedheight el eb h') \<and>
    (lag \<le> blocks \<longrightarrow> (\<forall>h'. h \<le> h' \<longrightarrow> unat h' \<le> unat h + lag \<longrightarrow>
      rx_seedheight el eb h' \<in> {fst (rx_seedheights el eb h), snd (rx_seedheights el eb h)}))"
proof (intro conjI impI allI)
  note v = rx_seedheight_seed_of [of el eb, folded lag_def blocks_def]
  have b: "0 < blocks" "lag \<le> 64" using epoch_blocks(2) [of eb] epoch_lag [of el] by (simp_all add: lag_def blocks_def)
  show "unat (rx_seedheight el eb h) mod blocks = 0" by (simp add: v seed_of_def)
  show "unat (rx_seedheight el eb h) + lag < unat h" if "blocks + lag < unat h"
    using seed_of_bounds(2) [OF that b(1)] by (simp add: v)
  show "unat h \<le> unat (rx_seedheight el eb h) + lag + blocks" if "blocks + lag < unat h"
    using seed_of_bounds(3) [OF that b(1)] by (simp add: v)
  show "rx_seedheight el eb h \<le> rx_seedheight el eb h'" if "h \<le> h'" for h'
    using seed_of_mono [of "unat h" "unat h'" lag blocks] that by (simp add: v word_le_nat_alt)
  show "rx_seedheight el eb h' \<in> {fst (rx_seedheights el eb h), snd (rx_seedheights el eb h)}"
    if "lag \<le> blocks" "h \<le> h'" "unat h' \<le> unat h + lag" for h'
  proof -
    have "unat (h + ucast (get_seedhash_epoch_lag el)) = unat h + lag"
      using assms(1) b(2) by (subst unat_add_no_overflow) (simp_all add: lag_def unat_ucast_le)
    then have "unat (snd (rx_seedheights el eb h)) = seed_of lag blocks (unat h + lag)"
      by (simp add: rx_seedheights_def v)
    then show ?thesis
      using seed_of_window [OF b(1), of "unat h" "unat h'" lag] that
      by (auto simp: word_unat_eq_iff word_le_nat_alt rx_seedheights_def v)
  qed
qed

theorem seed_epochs_witness:
  "unat (rx_seedheight None None 5000) mod 2048 = 0 \<and> unat (rx_seedheight None None 5000) + 64 < 5000 \<and>
   5000 \<le> unat (rx_seedheight None None 5000) + 64 + 2048"
  using seed_epochs [of 5000 None None]
  by (simp add: get_seedhash_epoch_lag_def get_seedhash_epoch_blocks_def SEEDHASH_EPOCH_LAG_def SEEDHASH_EPOCH_BLOCKS_def)

end
