(* ===== verification/Address.thy ===== *)
theory Address
  imports Base58 Hex Difficulty
begin

text \<open>
  Addresses as text and the hash helpers of \<open>cryptonote_basic/cryptonote_basic_impl.cpp\<close>: printing and
  reading of plain, sub- and integrated addresses on the networks of the configuration, the old
  hexadecimal format, and the comparison and truncation of hashes for anonymous queries. The checksum
  hash and the test that a key is a curve point are parameters, as is the look-up of a URL. The lemmas
  show that the printed addresses are exactly the accepted texts outside the old format, that no such
  text is accepted on two networks, and that a truncated hash is the least one with its leading bits.
\<close>

section \<open>Data\<close>

record account_public_address =
  m_spend_public_key :: "u8 list"
  m_view_public_key :: "u8 list"

record integrated_address =
  adr :: account_public_address
  payment_id :: "u8 list"

record public_address_outer_blob =
  m_ver :: u8
  m_address :: account_public_address
  check_sum :: u8

record address_parse_info =
  address :: account_public_address
  is_subaddress :: bool
  has_payment_id :: bool
  info_payment_id :: "u8 list"

definition CRYPTONOTE_PUBLIC_ADDRESS_TEXTBLOB_VER :: u8 where
  "CRYPTONOTE_PUBLIC_ADDRESS_TEXTBLOB_VER = 0"

section \<open>Binary form\<close>

text \<open>Reading a field of fixed size from an archive: the field and what is left of the bytes.\<close>

definition serialize_blob :: "nat \<Rightarrow> u8 list \<Rightarrow> (u8 list \<times> u8 list) option" where
  "serialize_blob len bytes = (if len \<le> length bytes then Some (take len bytes, drop len bytes) else None)"

definition serialize_address :: "u8 list \<Rightarrow> (account_public_address \<times> u8 list) option" where
  "serialize_address bytes =
     Option.bind (serialize_blob 32 bytes) (\<lambda>(spend, bytes).
       Option.bind (serialize_blob 32 bytes) (\<lambda>(view, bytes).
         Some (\<lparr>m_spend_public_key = spend, m_view_public_key = view\<rparr>, bytes)))"

definition serialize_integrated :: "u8 list \<Rightarrow> (integrated_address \<times> u8 list) option" where
  "serialize_integrated bytes =
     Option.bind (serialize_address bytes) (\<lambda>(adr, bytes).
       Option.bind (serialize_blob 8 bytes) (\<lambda>(payment_id, bytes).
         Some (\<lparr>adr = adr, payment_id = payment_id\<rparr>, bytes)))"

definition parse_binary :: "(u8 list \<Rightarrow> ('a \<times> u8 list) option) \<Rightarrow> u8 list \<Rightarrow> 'a option" where
  "parse_binary do_serialize blob =
     Option.bind (do_serialize blob) (\<lambda>(v, rest). if rest = [] then Some v else None)"

definition address_to_blob :: "account_public_address \<Rightarrow> u8 list" where
  "address_to_blob a = m_spend_public_key a @ m_view_public_key a"

definition integrated_to_blob :: "integrated_address \<Rightarrow> u8 list" where
  "integrated_to_blob i = address_to_blob (adr i) @ payment_id i"

section \<open>Text\<close>

text \<open>\<open>get_account_address_checksum\<close>: the sum of all bytes of the packed structure but the last.\<close>

definition outer_blob_bytes :: "public_address_outer_blob \<Rightarrow> u8 list" where
  "outer_blob_bytes bl = m_ver bl # address_to_blob (m_address bl) @ [check_sum bl]"

definition get_account_address_checksum :: "public_address_outer_blob \<Rightarrow> u8" where
  "get_account_address_checksum bl = foldl (+) 0 (butlast (outer_blob_bytes bl))"

definition get_account_address_as_str ::
  "(u8 list \<Rightarrow> u8 list) \<Rightarrow> network_type \<Rightarrow> bool \<Rightarrow> account_public_address \<Rightarrow> config_error + string option" where
  "get_account_address_as_str cn_fast_hash nettype subaddress a =
     (case get_config nettype of Inl e \<Rightarrow> Inl e
      | Inr c \<Rightarrow>
          let address_prefix = (if subaddress then CRYPTONOTE_PUBLIC_SUBADDRESS_BASE58_PREFIX c
                                else CRYPTONOTE_PUBLIC_ADDRESS_BASE58_PREFIX c)
          in Inr (encode_addr cn_fast_hash address_prefix (address_to_blob a)))"

definition get_account_integrated_address_as_str ::
  "(u8 list \<Rightarrow> u8 list) \<Rightarrow> network_type \<Rightarrow> account_public_address \<Rightarrow> u8 list \<Rightarrow> config_error + string option" where
  "get_account_integrated_address_as_str cn_fast_hash nettype a pid =
     (case get_config nettype of Inl e \<Rightarrow> Inl e
      | Inr c \<Rightarrow> Inr (encode_addr cn_fast_hash (CRYPTONOTE_PUBLIC_INTEGRATED_ADDRESS_BASE58_PREFIX c)
          (integrated_to_blob \<lparr>adr = a, payment_id = pid\<rparr>)))"

text \<open>
  The two branches of \<open>get_account_address_from_str\<close>. The structure filled in is an argument, since a
  plain address leaves its payment identifier as it was; on failure its contents are not used, and
  the identifier is read only where the flag for it is set.
\<close>

definition prefix_info :: "config_t \<Rightarrow> u64 \<Rightarrow> address_parse_info \<Rightarrow> address_parse_info option" where
  "prefix_info c prefix info =
     (if CRYPTONOTE_PUBLIC_INTEGRATED_ADDRESS_BASE58_PREFIX c = prefix
      then Some (info\<lparr>is_subaddress := False, has_payment_id := True\<rparr>)
      else if CRYPTONOTE_PUBLIC_ADDRESS_BASE58_PREFIX c = prefix
      then Some (info\<lparr>is_subaddress := False, has_payment_id := False\<rparr>)
      else if CRYPTONOTE_PUBLIC_SUBADDRESS_BASE58_PREFIX c = prefix
      then Some (info\<lparr>is_subaddress := True, has_payment_id := False\<rparr>)
      else None)"

definition address_from_base58 ::
  "(u8 list \<Rightarrow> bool) \<Rightarrow> (u8 list \<Rightarrow> u8 list) \<Rightarrow> config_t \<Rightarrow> string \<Rightarrow> address_parse_info \<Rightarrow> address_parse_info option" where
  "address_from_base58 check_key cn_fast_hash c str info =
     Option.bind (decode_addr cn_fast_hash str) (\<lambda>(prefix, data).
     Option.bind (prefix_info c prefix info) (\<lambda>info.
     Option.bind
       (if has_payment_id info
        then map_option (\<lambda>iadr. info\<lparr>address := adr iadr, info_payment_id := payment_id iadr\<rparr>)
               (parse_binary serialize_integrated data)
        else map_option (\<lambda>a. info\<lparr>address := a\<rparr>) (parse_binary serialize_address data)) (\<lambda>info.
     if \<not> check_key (m_spend_public_key (address info)) \<or> \<not> check_key (m_view_public_key (address info)) then None
     else Some info)))"

definition address_from_hex :: "string \<Rightarrow> address_parse_info \<Rightarrow> address_parse_info option" where
  "address_from_hex str info =
     Option.bind (from_hex_to_string str) (\<lambda>buff.
     if length buff \<noteq> 66 then None
     else let blob = \<lparr>m_ver = buff ! 0,
                m_address = \<lparr>m_spend_public_key = take 32 (drop 1 buff), m_view_public_key = take 32 (drop 33 buff)\<rparr>,
                check_sum = buff ! 65\<rparr>
          in if m_ver blob > CRYPTONOTE_PUBLIC_ADDRESS_TEXTBLOB_VER then None
             else if check_sum blob \<noteq> get_account_address_checksum blob then None
             else Some (info\<lparr>address := m_address blob, is_subaddress := False, has_payment_id := False\<rparr>))"

definition get_account_address_from_str ::
  "(u8 list \<Rightarrow> bool) \<Rightarrow> (u8 list \<Rightarrow> u8 list) \<Rightarrow> address_parse_info \<Rightarrow> network_type \<Rightarrow> string \<Rightarrow>
   config_error + address_parse_info option" where
  "get_account_address_from_str check_key cn_fast_hash info nettype str =
     (case get_config nettype of Inl e \<Rightarrow> Inl e
      | Inr c \<Rightarrow> Inr (if 2 * 66 \<noteq> length str then address_from_base58 check_key cn_fast_hash c str info
                       else address_from_hex str info))"

definition get_account_address_from_str_or_url ::
  "(u8 list \<Rightarrow> bool) \<Rightarrow> (u8 list \<Rightarrow> u8 list) \<Rightarrow> (string \<Rightarrow> string) \<Rightarrow> address_parse_info \<Rightarrow> network_type \<Rightarrow> string \<Rightarrow>
   config_error + address_parse_info option" where
  "get_account_address_from_str_or_url check_key cn_fast_hash address_str_from_url info nettype str_or_url =
     (case get_account_address_from_str check_key cn_fast_hash info nettype str_or_url of
        Inl e \<Rightarrow> Inl e
      | Inr (Some info) \<Rightarrow> Inr (Some info)
      | Inr None \<Rightarrow>
          let address_str = address_str_from_url str_or_url
          in if address_str = [] then Inr None
             else get_account_address_from_str check_key cn_fast_hash info nettype address_str)"

definition parse_hash256 :: "string \<Rightarrow> hash option" where
  "parse_hash256 str_hash =
     Option.bind (from_hex_to_string str_hash) (\<lambda>buf. if length buf \<noteq> 32 then None else Some buf)"

section \<open>Anonymous queries\<close>

text \<open>The loops run over the words of a hash from the last to the first; the counter is one above the index.\<close>

fun compare_loop :: "hash \<Rightarrow> hash \<Rightarrow> nat \<Rightarrow> u32 \<Rightarrow> int" where
  "compare_loop ha hb 0 nbits = 0"
| "compare_loop ha hb (Suc n) nbits =
     (if nbits = 0 then 0
      else let msb_nbits = min 64 nbits;
               lsb_nbits_dropped = 64 - msb_nbits;
               van = drop_bit (unat lsb_nbits_dropped) (hash_word ha n);
               vbn = drop_bit (unat lsb_nbits_dropped) (hash_word hb n)
           in if van < vbn then - 1 else if van > vbn then 1
              else compare_loop ha hb n (nbits - msb_nbits))"

definition compare_hash32_reversed_nbits :: "hash \<Rightarrow> hash \<Rightarrow> u32 \<Rightarrow> int" where
  "compare_hash32_reversed_nbits ha hb nbits = compare_loop ha hb 4 nbits"

fun template_loop :: "nat \<Rightarrow> u32 \<Rightarrow> u64 list \<Rightarrow> u64 list" where
  "template_loop 0 nbits vh = vh"
| "template_loop (Suc n) nbits vh =
     (let msb_nbits = min 64 nbits;
          mask = (if msb_nbits \<noteq> 0 then NOT (push_bit (unat (64 - msb_nbits)) 1 - 1) else 0)
      in template_loop n (nbits - msb_nbits) (vh[n := vh ! n AND mask]))"

definition le_bytes :: "u64 \<Rightarrow> u8 list" where
  "le_bytes w = map (\<lambda>i. ucast (drop_bit (8 * i) w)) [0..<8]"

definition make_hash32_loose_template :: "u32 \<Rightarrow> hash \<Rightarrow> hash" where
  "make_hash32_loose_template nbits h = concat (map le_bytes (template_loop 4 nbits (map (hash_word h) [0..<4])))"

section \<open>Addresses: lemmas\<close>

text \<open>What a printed address holds: keys of 32 bytes that lie on the curve.\<close>

definition valid_address :: "(u8 list \<Rightarrow> bool) \<Rightarrow> account_public_address \<Rightarrow> bool" where
  "valid_address check_key a \<longleftrightarrow>
     length (m_spend_public_key a) = 32 \<and> length (m_view_public_key a) = 32 \<and>
     check_key (m_spend_public_key a) \<and> check_key (m_view_public_key a)"

lemma parse_binary_address:
  "parse_binary serialize_address data = Some a \<longleftrightarrow>
     data = address_to_blob a \<and> length (m_spend_public_key a) = 32 \<and> length (m_view_public_key a) = 32"
proof
  assume "parse_binary serialize_address data = Some a"
  then show "data = address_to_blob a \<and> length (m_spend_public_key a) = 32 \<and> length (m_view_public_key a) = 32"
    by (auto simp: parse_binary_def serialize_address_def serialize_blob_def address_to_blob_def
      split: if_splits Option.bind_splits)
next
  assume "data = address_to_blob a \<and> length (m_spend_public_key a) = 32 \<and> length (m_view_public_key a) = 32"
  then show "parse_binary serialize_address data = Some a"
    by (simp add: parse_binary_def serialize_address_def serialize_blob_def address_to_blob_def)
qed

lemma keys_and_rest: "data = take 32 data @ take 32 (drop 32 data) @ drop 64 data"
  using append_take_drop_id [of 32 "drop 32 data"] by simp

lemma parse_binary_integrated:
  "parse_binary serialize_integrated data = Some i \<longleftrightarrow>
     data = integrated_to_blob i \<and> length (m_spend_public_key (adr i)) = 32 \<and>
     length (m_view_public_key (adr i)) = 32 \<and> length (payment_id i) = 8"
proof
  assume "parse_binary serialize_integrated data = Some i"
  then show "data = integrated_to_blob i \<and> length (m_spend_public_key (adr i)) = 32 \<and>
     length (m_view_public_key (adr i)) = 32 \<and> length (payment_id i) = 8"
    by (auto simp: parse_binary_def serialize_integrated_def serialize_address_def serialize_blob_def
      address_to_blob_def integrated_to_blob_def keys_and_rest [symmetric] split: if_splits Option.bind_splits)
next
  assume "data = integrated_to_blob i \<and> length (m_spend_public_key (adr i)) = 32 \<and>
     length (m_view_public_key (adr i)) = 32 \<and> length (payment_id i) = 8"
  then show "parse_binary serialize_integrated data = Some i"
    by (simp add: parse_binary_def serialize_integrated_def serialize_address_def serialize_blob_def
      address_to_blob_def integrated_to_blob_def)
qed

lemma get_config_cases:
  assumes "get_config nettype = Inr c"
  shows "c \<in> {config_mainnet, config_testnet, config_stagenet}"
  using assms by (cases nettype) auto

lemma prefixes [simp]:
  "CRYPTONOTE_PUBLIC_ADDRESS_BASE58_PREFIX config_mainnet = 48"
  "CRYPTONOTE_PUBLIC_INTEGRATED_ADDRESS_BASE58_PREFIX config_mainnet = 49"
  "CRYPTONOTE_PUBLIC_SUBADDRESS_BASE58_PREFIX config_mainnet = 50"
  "CRYPTONOTE_PUBLIC_ADDRESS_BASE58_PREFIX config_testnet = 53"
  "CRYPTONOTE_PUBLIC_INTEGRATED_ADDRESS_BASE58_PREFIX config_testnet = 54"
  "CRYPTONOTE_PUBLIC_SUBADDRESS_BASE58_PREFIX config_testnet = 63"
  "CRYPTONOTE_PUBLIC_ADDRESS_BASE58_PREFIX config_stagenet = 24"
  "CRYPTONOTE_PUBLIC_INTEGRATED_ADDRESS_BASE58_PREFIX config_stagenet = 25"
  "CRYPTONOTE_PUBLIC_SUBADDRESS_BASE58_PREFIX config_stagenet = 36"
  by (simp_all only: config_mainnet_def config_testnet_def config_stagenet_def config_t.simps)

lemma encode_addr_length:
  assumes "\<And>bytes. 4 \<le> length (cn_fast_hash bytes)" and "unat tag < 128" and "encode_addr cn_fast_hash tag data = Some s"
  shows "length s = 11 * ((5 + length data) div 8) + encoded_block_sizes ! ((5 + length data) mod 8)"
proof -
  let ?buf = "write_varint tag @ data"
  have "length (take addr_checksum_size (cn_fast_hash ?buf)) = 4" using assms(1) [of ?buf] by (simp add: addr_checksum_size_def)
  moreover have "length (write_varint tag) = 1" using assms(2) by (simp add: write_varint_small)
  ultimately have "length (?buf @ take addr_checksum_size (cn_fast_hash ?buf)) = 5 + length data" by simp
  moreover have "encode (?buf @ take addr_checksum_size (cn_fast_hash ?buf)) = Some s"
    using assms(3) by (simp only: encode_addr_def Let_def)
  ultimately show ?thesis
    using encode_total [of "?buf @ take addr_checksum_size (cn_fast_hash ?buf)"] by (metis option.inject)
qed

text \<open>The prefixes of a network are distinct, short, and shared with no other network.\<close>

lemma prefix_info_iff:
  assumes "get_config nettype = Inr c"
  shows "prefix_info c prefix info = Some info' \<longleftrightarrow>
    prefix = CRYPTONOTE_PUBLIC_INTEGRATED_ADDRESS_BASE58_PREFIX c \<and> info' = info\<lparr>is_subaddress := False, has_payment_id := True\<rparr> \<or>
    prefix = CRYPTONOTE_PUBLIC_ADDRESS_BASE58_PREFIX c \<and> info' = info\<lparr>is_subaddress := False, has_payment_id := False\<rparr> \<or>
    prefix = CRYPTONOTE_PUBLIC_SUBADDRESS_BASE58_PREFIX c \<and> info' = info\<lparr>is_subaddress := True, has_payment_id := False\<rparr>"
  using get_config_cases [OF assms] by (elim insertE emptyE) (auto simp: prefix_info_def)

lemma prefix_info_one_network:
  assumes "get_config n = Inr c" and "get_config n' = Inr c'" and "c \<noteq> c'"
    and "prefix_info c prefix info = Some r"
  shows "prefix_info c' prefix info' = None"
  using get_config_cases [OF assms(1)] get_config_cases [OF assms(2)] assms(3,4)
  by (elim insertE emptyE) (auto simp: prefix_info_def split: if_splits)

lemma short_prefixes:
  assumes "get_config nettype = Inr c"
  shows "unat (CRYPTONOTE_PUBLIC_ADDRESS_BASE58_PREFIX c) < 128"
    and "unat (CRYPTONOTE_PUBLIC_SUBADDRESS_BASE58_PREFIX c) < 128"
    and "unat (CRYPTONOTE_PUBLIC_INTEGRATED_ADDRESS_BASE58_PREFIX c) < 128"
  using get_config_cases [OF assms] by (elim insertE emptyE, simp_all)+

text \<open>What \<open>address_from_base58\<close> accepts, by the kind of the prefix.\<close>

lemma from_base58_plain:
  assumes "get_config nettype = Inr c"
    and "decode_addr cn_fast_hash s = Some (if sub then CRYPTONOTE_PUBLIC_SUBADDRESS_BASE58_PREFIX c
      else CRYPTONOTE_PUBLIC_ADDRESS_BASE58_PREFIX c, data)"
  shows "address_from_base58 check_key cn_fast_hash c s info = Some r \<longleftrightarrow>
    valid_address check_key (address r) \<and> data = address_to_blob (address r) \<and>
    r = info\<lparr>address := address r, is_subaddress := sub, has_payment_id := False\<rparr>"
proof -
  have "prefix_info c (if sub then CRYPTONOTE_PUBLIC_SUBADDRESS_BASE58_PREFIX c
      else CRYPTONOTE_PUBLIC_ADDRESS_BASE58_PREFIX c) info = Some (info\<lparr>is_subaddress := sub, has_payment_id := False\<rparr>)"
    by (simp add: prefix_info_iff [OF assms(1)])
  then have "address_from_base58 check_key cn_fast_hash c s info =
      Option.bind (parse_binary serialize_address data) (\<lambda>a.
        if check_key (m_spend_public_key a) \<and> check_key (m_view_public_key a)
        then Some (info\<lparr>address := a, is_subaddress := sub, has_payment_id := False\<rparr>) else None)"
    unfolding address_from_base58_def assms(2) by (cases "parse_binary serialize_address data") simp_all
  also have "\<dots> = Some r \<longleftrightarrow> (\<exists>a. parse_binary serialize_address data = Some a \<and>
      check_key (m_spend_public_key a) \<and> check_key (m_view_public_key a) \<and>
      r = info\<lparr>address := a, is_subaddress := sub, has_payment_id := False\<rparr>)"
    by (auto simp: bind_eq_Some_conv)
  also have "\<dots> \<longleftrightarrow> valid_address check_key (address r) \<and> data = address_to_blob (address r) \<and>
      r = info\<lparr>address := address r, is_subaddress := sub, has_payment_id := False\<rparr>"
    unfolding parse_binary_address valid_address_def by (cases r; cases info) auto
  finally show ?thesis .
qed

lemma from_base58_integrated:
  assumes "get_config nettype = Inr c"
    and "decode_addr cn_fast_hash s = Some (CRYPTONOTE_PUBLIC_INTEGRATED_ADDRESS_BASE58_PREFIX c, data)"
  shows "address_from_base58 check_key cn_fast_hash c s info = Some r \<longleftrightarrow>
    valid_address check_key (address r) \<and> length (info_payment_id r) = 8 \<and>
    data = integrated_to_blob \<lparr>adr = address r, payment_id = info_payment_id r\<rparr> \<and>
    r = info\<lparr>address := address r, is_subaddress := False, has_payment_id := True, info_payment_id := info_payment_id r\<rparr>"
proof -
  have "prefix_info c (CRYPTONOTE_PUBLIC_INTEGRATED_ADDRESS_BASE58_PREFIX c) info =
      Some (info\<lparr>is_subaddress := False, has_payment_id := True\<rparr>)"
    by (simp add: prefix_info_iff [OF assms(1)])
  then have "address_from_base58 check_key cn_fast_hash c s info =
      Option.bind (parse_binary serialize_integrated data) (\<lambda>i.
        if check_key (m_spend_public_key (adr i)) \<and> check_key (m_view_public_key (adr i))
        then Some (info\<lparr>address := adr i, is_subaddress := False, has_payment_id := True, info_payment_id := payment_id i\<rparr>)
        else None)"
    unfolding address_from_base58_def assms(2) by (cases "parse_binary serialize_integrated data") simp_all
  also have "\<dots> = Some r \<longleftrightarrow> (\<exists>i. parse_binary serialize_integrated data = Some i \<and>
      check_key (m_spend_public_key (adr i)) \<and> check_key (m_view_public_key (adr i)) \<and>
      r = info\<lparr>address := adr i, is_subaddress := False, has_payment_id := True, info_payment_id := payment_id i\<rparr>)"
    by (auto simp: bind_eq_Some_conv)
  also have "\<dots> \<longleftrightarrow> valid_address check_key (address r) \<and> length (info_payment_id r) = 8 \<and>
    data = integrated_to_blob \<lparr>adr = address r, payment_id = info_payment_id r\<rparr> \<and>
    r = info\<lparr>address := address r, is_subaddress := False, has_payment_id := True, info_payment_id := info_payment_id r\<rparr>"
    unfolding parse_binary_integrated valid_address_def
    by (cases r; cases info) (auto simp: integrated_to_blob_def intro!: exI [of _ "\<lparr>adr = address r, payment_id = info_payment_id r\<rparr>"])
  finally show ?thesis .
qed

lemma from_base58_prefix:
  assumes "get_config nettype = Inr c" and "address_from_base58 check_key cn_fast_hash c s info = Some r"
  obtains data where "decode_addr cn_fast_hash s = Some (CRYPTONOTE_PUBLIC_INTEGRATED_ADDRESS_BASE58_PREFIX c, data)"
  | data sub where "decode_addr cn_fast_hash s = Some (if sub then CRYPTONOTE_PUBLIC_SUBADDRESS_BASE58_PREFIX c
      else CRYPTONOTE_PUBLIC_ADDRESS_BASE58_PREFIX c, data)"
proof -
  from assms(2) obtain prefix data i where d: "decode_addr cn_fast_hash s = Some (prefix, data)"
    and p: "prefix_info c prefix info = Some i"
    by (auto simp: address_from_base58_def bind_eq_Some_conv)
  from p consider "prefix = CRYPTONOTE_PUBLIC_INTEGRATED_ADDRESS_BASE58_PREFIX c"
    | "prefix = CRYPTONOTE_PUBLIC_ADDRESS_BASE58_PREFIX c" | "prefix = CRYPTONOTE_PUBLIC_SUBADDRESS_BASE58_PREFIX c"
    unfolding prefix_info_iff [OF assms(1)] by blast
  then show thesis
    using d that(1) [of data] that(2) [of True data] that(2) [of False data] by cases simp_all
qed

lemma address_not_old_format:
  assumes "\<And>bytes. 4 \<le> length (cn_fast_hash bytes)" and "unat tag < 128"
    and "length data = 64 \<or> length data = 72" and "encode_addr cn_fast_hash tag data = Some s"
  shows "2 * 66 \<noteq> length s"
  using encode_addr_length [OF assms(1,2,4)] assms(3) by (auto simp: encoded_block_sizes_def)

text \<open>Printed addresses are read back, by the general form of the prefix.\<close>

lemma plain_roundtrip:
  assumes "\<And>bytes. 4 \<le> length (cn_fast_hash bytes)" and "nettype \<noteq> UNDEFINED" and "valid_address check_key a"
  shows "\<exists>s. get_account_address_as_str cn_fast_hash nettype sub a = Inr (Some s) \<and> length s \<noteq> 132 \<and>
    get_account_address_from_str check_key cn_fast_hash info nettype s =
      Inr (Some (info\<lparr>address := a, is_subaddress := sub, has_payment_id := False\<rparr>))"
proof -
  obtain c where c: "get_config nettype = Inr c" using assms(2) by (cases nettype) auto
  let ?tag = "if sub then CRYPTONOTE_PUBLIC_SUBADDRESS_BASE58_PREFIX c else CRYPTONOTE_PUBLIC_ADDRESS_BASE58_PREFIX c"
  obtain s where s: "encode_addr cn_fast_hash ?tag (address_to_blob a) = Some s"
      "decode_addr cn_fast_hash s = Some (?tag, address_to_blob a)"
    using addr_roundtrip [of cn_fast_hash, OF assms(1)] by blast
  have "unat ?tag < 128" using short_prefixes [OF c] by simp
  then have "2 * 66 \<noteq> length s"
    using address_not_old_format [OF assms(1) _ _ s(1)] assms(3) by (simp add: valid_address_def address_to_blob_def)
  then show ?thesis
    using s(1) from_base58_plain [OF c s(2), of check_key info "info\<lparr>address := a, is_subaddress := sub, has_payment_id := False\<rparr>"]
      assms(3) c by (auto simp: get_account_address_as_str_def get_account_address_from_str_def Let_def)
qed

lemma integrated_roundtrip:
  assumes "\<And>bytes. 4 \<le> length (cn_fast_hash bytes)" and "nettype \<noteq> UNDEFINED" and "valid_address check_key a"
    and "length pid = 8"
  shows "\<exists>s. get_account_integrated_address_as_str cn_fast_hash nettype a pid = Inr (Some s) \<and> length s \<noteq> 132 \<and>
    get_account_address_from_str check_key cn_fast_hash info nettype s =
      Inr (Some (info\<lparr>address := a, is_subaddress := False, has_payment_id := True, info_payment_id := pid\<rparr>))"
proof -
  obtain c where c: "get_config nettype = Inr c" using assms(2) by (cases nettype) auto
  let ?tag = "CRYPTONOTE_PUBLIC_INTEGRATED_ADDRESS_BASE58_PREFIX c" and ?i = "\<lparr>adr = a, payment_id = pid\<rparr>"
  obtain s where s: "encode_addr cn_fast_hash ?tag (integrated_to_blob ?i) = Some s"
      "decode_addr cn_fast_hash s = Some (?tag, integrated_to_blob ?i)"
    using addr_roundtrip [of cn_fast_hash, OF assms(1)] by blast
  have "2 * 66 \<noteq> length s"
    using address_not_old_format [OF assms(1) short_prefixes(3) [OF c] _ s(1)] assms(3,4)
    by (simp add: valid_address_def address_to_blob_def integrated_to_blob_def)
  then show ?thesis
    using s(1) from_base58_integrated [OF c s(2), of check_key info
        "info\<lparr>address := a, is_subaddress := False, has_payment_id := True, info_payment_id := pid\<rparr>"]
      assms(3,4) c by (auto simp: get_account_integrated_address_as_str_def get_account_address_from_str_def)
qed

text \<open>Accepted texts are the printed ones.\<close>

lemma accepted_is_printed:
  assumes "get_account_address_from_str check_key cn_fast_hash info nettype s = Inr (Some r)" and "length s \<noteq> 132"
  shows "valid_address check_key (address r) \<and>
    (if has_payment_id r
     then get_account_integrated_address_as_str cn_fast_hash nettype (address r) (info_payment_id r) = Inr (Some s)
     else get_account_address_as_str cn_fast_hash nettype (is_subaddress r) (address r) = Inr (Some s))"
proof -
  obtain c where c: "get_config nettype = Inr c" and b: "address_from_base58 check_key cn_fast_hash c s info = Some r"
    using assms by (cases "get_config nettype") (auto simp: get_account_address_from_str_def)
  from c b show ?thesis
  proof (cases rule: from_base58_prefix)
    case (1 data)
    note r = b [unfolded from_base58_integrated [OF c 1]]
    then have "data \<noteq> []" by (auto simp: valid_address_def address_to_blob_def integrated_to_blob_def)
    then have "encode_addr cn_fast_hash (CRYPTONOTE_PUBLIC_INTEGRATED_ADDRESS_BASE58_PREFIX c) data = Some s"
      by (rule addr_canonical [OF 1])
    moreover have "has_payment_id r" using r by (metis address_parse_info.select_convs(3) address_parse_info.surjective address_parse_info.update_convs(3,4))
    ultimately show ?thesis using r c by (simp add: get_account_integrated_address_as_str_def)
  next
    case (2 data sub)
    note r = b [unfolded from_base58_plain [OF c 2]]
    then have "data \<noteq> []" by (auto simp: valid_address_def address_to_blob_def)
    then have "encode_addr cn_fast_hash (if sub then CRYPTONOTE_PUBLIC_SUBADDRESS_BASE58_PREFIX c
      else CRYPTONOTE_PUBLIC_ADDRESS_BASE58_PREFIX c) data = Some s"
      by (rule addr_canonical [OF 2])
    moreover have "\<not> has_payment_id r" "is_subaddress r = sub"
      using r by (metis address_parse_info.select_convs(2,3) address_parse_info.surjective address_parse_info.update_convs(2,3))+
    ultimately show ?thesis using r c by (simp add: get_account_address_as_str_def Let_def)
  qed
qed

lemma one_network:
  assumes "get_account_address_from_str check_key cn_fast_hash info n s = Inr (Some r)" and "length s \<noteq> 132"
    and "get_config n' = Inr c'" and "get_config n \<noteq> get_config n'"
  shows "get_account_address_from_str check_key' cn_fast_hash info' n' s = Inr None"
proof -
  obtain c where c: "get_config n = Inr c" and b: "address_from_base58 check_key cn_fast_hash c s info = Some r"
    using assms(1,2) by (cases "get_config n") (auto simp: get_account_address_from_str_def)
  from b obtain prefix data i where d: "decode_addr cn_fast_hash s = Some (prefix, data)"
    and p: "prefix_info c prefix info = Some i"
    by (auto simp: address_from_base58_def bind_eq_Some_conv)
  have "prefix_info c' prefix info' = None"
    by (rule prefix_info_one_network [OF c assms(3) _ p]) (use assms(3,4) c in auto)
  then show ?thesis
    using assms(2,3) d by (simp add: get_account_address_from_str_def address_from_base58_def)
qed

lemma old_format_everywhere:
  assumes "length s = 132" and "get_config n = Inr c" and "get_config n' = Inr c'"
  shows "get_account_address_from_str check_key cn_fast_hash info n s = get_account_address_from_str check_key' cn_fast_hash' info n' s"
  using assms by (simp add: get_account_address_from_str_def)

section \<open>Anonymous queries: lemmas\<close>

text \<open>The number that the lowest words of a hash stand for.\<close>

fun words_nat :: "(nat \<Rightarrow> u64) \<Rightarrow> nat \<Rightarrow> nat" where
  "words_nat f 0 = 0"
| "words_nat f (Suc n) = words_nat f n + 2 ^ (64 * n) * unat (f n)"

lemma words_nat_4:
  "words_nat f 4 = unat (f 0) + unat (f 1) * 18446744073709551616 +
     unat (f 2) * 340282366920938463463374607431768211456 +
     unat (f 3) * 6277101735386680763835789423207666416102355444464034512896"
proof -
  have "words_nat f 1 = words_nat f (Suc 0)" "words_nat f 2 = words_nat f (Suc 1)"
    "words_nat f 3 = words_nat f (Suc 2)" "words_nat f 4 = words_nat f (Suc 3)"
    by (rule arg_cong, simp)+
  then show ?thesis by (simp only: words_nat.simps) simp
qed

lemma words_nat_hash: "length h = 32 \<Longrightarrow> words_nat (hash_word h) 4 = le_nat h"
  by (simp only: words_nat_4 le_nat_hash)

lemma words_nat_less: "words_nat f n < 2 ^ (64 * n)"
proof (induction n)
  case (Suc n)
  have "Suc (unat (f n)) \<le> 18446744073709551616" using unat_lt_64 [of "f n"] by (simp only: Suc_le_eq)
  then have "2 ^ (64 * n) * Suc (unat (f n)) \<le> 2 ^ (64 * n) * 18446744073709551616" by (rule mult_le_mono2)
  moreover have "2 ^ (64 * n) * Suc (unat (f n)) = 2 ^ (64 * n) + 2 ^ (64 * n) * unat (f n)" by simp
  moreover have "(2 :: nat) ^ (64 * Suc n) = 2 ^ (64 * n) * 18446744073709551616" by (simp add: power_add)
  ultimately show ?case using Suc unfolding words_nat.simps by linarith
qed simp

text \<open>The leading bits of a number in two parts, when they end in the lower and in the upper part.\<close>

lemma div_low_part:
  assumes "d \<le> m"
  shows "(x + 2 ^ m * w) div 2 ^ d = x div 2 ^ d + 2 ^ (m - d) * (w :: nat)"
proof -
  have "(2 :: nat) ^ m = 2 ^ d * 2 ^ (m - d)" using assms by (simp flip: power_add)
  then have "x + 2 ^ m * w = x + 2 ^ d * (2 ^ (m - d) * w)" by (simp add: mult.assoc)
  then show ?thesis by (simp only: div_mult_self2 [of "2 ^ d"]) simp
qed

lemma div_high_part:
  assumes "x < 2 ^ m"
  shows "(x + 2 ^ m * w) div 2 ^ (m + d) = (w :: nat) div 2 ^ d"
proof -
  have "(x + 2 ^ m * w) div 2 ^ m = w" using assms by simp
  then show ?thesis by (simp add: power_add div_mult2_eq)
qed

lemma sgn_int_diff: "sgn (int p - int q) = (if p < q then - 1 else if q < p then 1 else 0)"
  by (simp add: sgn_if)

lemma sgn_two_parts:
  assumes "x < m" and "y < m"
  shows "sgn (int (x + m * v) - int (y + m * w)) =
    (if v < w then - 1 else if w < v then 1 else sgn (int x - int (y :: nat)))"
proof -
  consider "v < w" | "w < v" | "v = w" by linarith
  then show ?thesis
  proof cases
    case 1
    then have "m * Suc v \<le> m * w" by (intro mult_le_mono2) simp
    then have "x + m * v < y + m * w" using assms by simp
    then show ?thesis unfolding sgn_int_diff using 1 by (simp only: if_True if_False not_less_iff_gr_or_eq)
  next
    case 2
    then have "m * Suc w \<le> m * v" by (intro mult_le_mono2) simp
    then have "y + m * w < x + m * v" using assms by simp
    then show ?thesis unfolding sgn_int_diff using 2 by (simp only: if_True if_False not_less_iff_gr_or_eq) simp
  qed (simp add: sgn_int_diff)
qed

lemma unat_min_64: "unat (min 64 (nbits :: u32)) = min 64 (unat nbits)"
  by (simp add: min_def word_le_nat_alt)

lemma unat_minus_min: "unat (nbits - min 64 (nbits :: u32)) = unat nbits - 64"
  by (simp add: min_def word_le_nat_alt unat_diff_le)

lemma unat_64_minus_min: "unat (64 - min 64 (nbits :: u32)) = 64 - unat nbits"
  by (simp add: min_def word_le_nat_alt unat_diff_le)

text \<open>The comparison is that of the leading bits as numbers.\<close>

lemma compare_loop_sgn:
  "compare_loop ha hb n nbits =
     sgn (int (words_nat (hash_word ha) n div 2 ^ (64 * n - unat nbits)) -
          int (words_nat (hash_word hb) n div 2 ^ (64 * n - unat nbits)))"
proof (induction n arbitrary: nbits)
  case (Suc n)
  let ?a = "words_nat (hash_word ha) n" and ?b = "words_nat (hash_word hb) n"
  let ?va = "unat (hash_word ha n)" and ?vb = "unat (hash_word hb n)"
  have la: "?a < 2 ^ (64 * n)" and lb: "?b < 2 ^ (64 * n)" by (rule words_nat_less)+
  show ?case
  proof (cases "64 \<le> unat nbits")
    case True
    let ?d = "64 * n - (unat nbits - 64)"
    have d: "?d \<le> 64 * n" by simp
    have e: "64 * Suc n - unat nbits = ?d" using True by simp
    have p: "(2 :: nat) ^ (64 * n) = 2 ^ (64 * n - ?d) * 2 ^ ?d" by (simp flip: power_add)
    have xa: "?a div 2 ^ ?d < 2 ^ (64 * n - ?d)" using la unfolding p by (rule less_mult_imp_div_less)
    have xb: "?b div 2 ^ ?d < 2 ^ (64 * n - ?d)" using lb unfolding p by (rule less_mult_imp_div_less)
    have "nbits \<noteq> 0" using True by auto
    then have "compare_loop ha hb (Suc n) nbits =
        (if ?va < ?vb then - 1 else if ?vb < ?va then 1 else compare_loop ha hb n (nbits - min 64 nbits))"
      using True unat_64_minus_min [of nbits] by (simp add: Let_def word_less_nat_alt)
    then show ?thesis
      unfolding words_nat.simps e div_low_part [OF d] sgn_two_parts [OF xa xb] Suc.IH unat_minus_min .
  next
    case False
    then have e: "64 * Suc n - unat nbits = 64 * n + (64 - unat nbits)" by simp
    have z: "compare_loop ha hb n 0 = 0" by (cases n) simp_all
    have m: "min 64 nbits = nbits" using False by (simp add: min_def word_le_nat_alt)
    have l: "unat (64 - nbits) = 64 - unat nbits" using unat_64_minus_min [of nbits] by (simp only: m)
    have "compare_loop ha hb (Suc n) nbits =
        (if nbits = 0 then 0 else if ?va div 2 ^ (64 - unat nbits) < ?vb div 2 ^ (64 - unat nbits) then - 1
         else if ?vb div 2 ^ (64 - unat nbits) < ?va div 2 ^ (64 - unat nbits) then 1 else 0)"
      by (simp only: compare_loop.simps Let_def m l word_less_nat_alt unat_drop_bit diff_self z)
    moreover have "nbits = 0 \<Longrightarrow> ?va div 2 ^ (64 - unat nbits) = 0 \<and> ?vb div 2 ^ (64 - unat nbits) = 0" by simp
    ultimately show ?thesis
      unfolding words_nat.simps e div_high_part [OF la] div_high_part [OF lb] sgn_int_diff
      by (cases "nbits = 0") (simp_all only: if_True if_False if_cancel less_irrefl)
  qed
qed simp

lemma compare_hash32_sgn:
  assumes "length ha = 32" and "length hb = 32"
  shows "compare_hash32_reversed_nbits ha hb nbits =
    sgn (int (le_nat ha div 2 ^ (256 - unat nbits)) - int (le_nat hb div 2 ^ (256 - unat nbits)))"
  using compare_loop_sgn [of ha hb 4 nbits] assms by (simp add: compare_hash32_reversed_nbits_def words_nat_hash)

text \<open>The template keeps the leading bits and clears the rest.\<close>

lemma unat_clear_low:
  assumes "k < 64"
  shows "unat (w AND NOT (push_bit k 1 - 1) :: u64) = unat w div 2 ^ k * 2 ^ k"
proof -
  have m: "push_bit k 1 - 1 = (mask k :: u64)" by (simp add: mask_eq_exp_minus_1 push_bit_eq_mult)
  have "w AND NOT (mask k) = push_bit k (drop_bit k w)"
    by (rule bit_eqI) (auto simp: bit_simps)
  also have "\<dots> = drop_bit k w * push_bit k 1" by (simp add: push_bit_eq_mult)
  finally have e: "w AND NOT (push_bit k 1 - 1) = drop_bit k w * push_bit k 1" by (simp only: m)
  have one: "unat (push_bit k (1 :: u64)) = 2 ^ k" by (rule unat_shift_one) (use assms in simp)
  have "unat w div 2 ^ k * 2 ^ k < 18446744073709551616" by (rule le_less_trans [OF _ unat_lt_64 [of w]]) simp
  then have "unat (drop_bit k w) * unat (push_bit k (1 :: u64)) < 2 ^ LENGTH(64)" unfolding one unat_drop_bit by simp
  then show ?thesis unfolding e by (simp only: unat_mult_no_overflow one unat_drop_bit)
qed

lemma words_nat_cong: "(\<And>i. i < n \<Longrightarrow> f i = g i) \<Longrightarrow> words_nat f n = words_nat g n"
  by (induction n) simp_all

lemma template_loop_length [simp]: "length (template_loop n nbits vh) = length vh"
  by (induction n nbits vh rule: template_loop.induct) (simp_all add: Let_def)

lemma template_loop_above: "n \<le> i \<Longrightarrow> template_loop n nbits vh ! i = vh ! i"
  by (induction n nbits vh rule: template_loop.induct) (simp_all add: Let_def)

lemma template_loop_value:
  "n \<le> length vh \<Longrightarrow> words_nat ((!) (template_loop n nbits vh)) n =
     words_nat ((!) vh) n div 2 ^ (64 * n - unat nbits) * 2 ^ (64 * n - unat nbits)"
proof (induction n arbitrary: nbits vh)
  case (Suc n)
  let ?mask = "if min 64 nbits \<noteq> 0 then NOT (push_bit (unat (64 - min 64 nbits)) 1 - 1) else 0 :: u64"
  let ?vh = "vh[n := vh ! n AND ?mask]" and ?x = "words_nat ((!) vh) n" and ?w = "unat (vh ! n)"
  let ?d = "64 * n - (unat nbits - 64)"
  have lx: "?x < 2 ^ (64 * n)" by (rule words_nat_less)
  have low: "words_nat ((!) ?vh) n = ?x" by (rule words_nat_cong) simp
  have "words_nat ((!) (template_loop (Suc n) nbits vh)) (Suc n) =
      ?x div 2 ^ ?d * 2 ^ ?d + 2 ^ (64 * n) * unat (vh ! n AND ?mask)"
    using Suc.IH [of ?vh "nbits - min 64 nbits"] Suc.prems
    by (simp only: template_loop.simps Let_def words_nat.simps template_loop_above [OF order_refl] low unat_minus_min)
       simp
  also have "\<dots> = (?x + 2 ^ (64 * n) * ?w) div 2 ^ (64 * Suc n - unat nbits) * 2 ^ (64 * Suc n - unat nbits)"
  proof (cases "64 \<le> unat nbits")
    case True
    then have e: "64 * Suc n - unat nbits = ?d" and m: "min 64 nbits = 64" by (simp_all add: min_def word_le_nat_alt)
    have "(2 :: nat) ^ (64 * n) = 2 ^ (64 * n - ?d) * 2 ^ ?d" by (simp flip: power_add)
    then have "2 ^ (64 * n) * ?w = 2 ^ (64 * n - ?d) * ?w * 2 ^ ?d" by simp
    moreover have "vh ! n AND ?mask = vh ! n" unfolding m by simp
    ultimately show ?thesis unfolding e div_low_part [OF diff_le_self] by (simp only: add_mult_distrib)
  next
    case False
    then have e: "64 * Suc n - unat nbits = 64 * n + (64 - unat nbits)" and d: "?d = 64 * n" by simp_all
    have m: "min 64 nbits = nbits" using False by (simp add: min_def word_le_nat_alt)
    have l: "unat (64 - nbits) = 64 - unat nbits" using unat_64_minus_min [of nbits] by (simp only: m)
    have "unat (vh ! n AND ?mask) = ?w div 2 ^ (64 - unat nbits) * 2 ^ (64 - unat nbits)"
    proof (cases "nbits = 0")
      case False
      then have "64 - unat nbits < 64" by (simp add: unat_gt_0)
      then show ?thesis using False unat_clear_low [of "64 - unat nbits" "vh ! n"] by (simp only: m l if_True not_False_eq_True)
    qed (simp add: m)
    then show ?thesis
      unfolding e d div_high_part [OF lx] using lx by (simp add: power_add)
  qed
  finally show ?case by (simp only: words_nat.simps)
qed simp

lemma le_nat_low_bytes:
  "le_nat (map (\<lambda>i. ucast (drop_bit (8 * i) (w :: u64))) [0..<n]) = unat w mod 256 ^ n"
proof (induction n)
  case (Suc n)
  have p: "(256 :: nat) ^ n = 2 ^ (8 * n)" by (simp add: power_mult)
  have "unat (ucast (drop_bit (8 * n) w) :: u8) = unat w div 256 ^ n mod 256"
    by (simp add: unsigned_ucast_eq take_bit_eq_mod unat_drop_bit p)
  moreover have "unat w mod 256 ^ Suc n = 256 ^ n * (unat w div 256 ^ n mod 256) + unat w mod 256 ^ n"
    by (simp only: power_Suc mult.commute [of 256] mod_mult2_eq)
  ultimately show ?case using Suc by (simp only: upt_Suc_append [OF le0] map_append le_nat_append) simp
qed simp

lemma le_nat_le_bytes: "le_nat (le_bytes w) = unat w"
proof -
  have "(256 :: nat) ^ 8 = 18446744073709551616" by simp
  then show ?thesis using unat_lt_64 [of w] unfolding le_bytes_def le_nat_low_bytes by (simp only: mod_less)
qed

lemma length_le_bytes [simp]: "length (le_bytes w) = 8"
  by (simp add: le_bytes_def)

lemma le_nat_template:
  assumes "length h = 32"
  shows "length (make_hash32_loose_template nbits h) = 32"
    and "le_nat (make_hash32_loose_template nbits h) = le_nat h div 2 ^ (256 - unat nbits) * 2 ^ (256 - unat nbits)"
proof -
  let ?vh = "map (hash_word h) [0..<4]"
  define vs where "vs = template_loop 4 nbits ?vh"
  have "length vs = 4" by (simp add: vs_def)
  then obtain a b c d where vs: "vs = [a, b, c, d]" by (auto simp: length_Suc_conv eval_nat_numeral)
  have t: "make_hash32_loose_template nbits h = le_bytes a @ le_bytes b @ le_bytes c @ le_bytes d"
    by (simp add: make_hash32_loose_template_def flip: vs_def) (simp add: vs)
  show "length (make_hash32_loose_template nbits h) = 32" by (simp add: t)
  have "le_nat (make_hash32_loose_template nbits h) = words_nat ((!) vs) 4"
    unfolding t vs words_nat_4 by (simp add: le_nat_append le_nat_le_bytes)
  also have "\<dots> = words_nat ((!) ?vh) 4 div 2 ^ (256 - unat nbits) * 2 ^ (256 - unat nbits)"
    using template_loop_value [of 4 ?vh nbits] by (simp add: vs_def)
  also have "words_nat ((!) ?vh) 4 = le_nat h"
    unfolding words_nat_hash [OF assms, symmetric] by (rule words_nat_cong) simp
  finally show "le_nat (make_hash32_loose_template nbits h) = le_nat h div 2 ^ (256 - unat nbits) * 2 ^ (256 - unat nbits)" .
qed

lemma le_nat_inj:
  "length xs = length ys \<Longrightarrow> le_nat xs = le_nat ys \<Longrightarrow> xs = ys"
proof (induction xs ys rule: list_induct2)
  case (Cons x xs y ys)
  have "(unat x + 256 * le_nat xs) mod 256 = unat x" "(unat y + 256 * le_nat ys) mod 256 = unat y"
    using unat_lt_8 [of x] unat_lt_8 [of y] by simp_all
  then have "unat x = unat y" using Cons.prems by (simp only: le_nat.simps)
  then have "x = y" "le_nat xs = le_nat ys" using Cons.prems by (simp_all add: word_unat_eq_iff)
  then show ?case using Cons.IH by simp
qed simp

lemma compare_zero_iff:
  assumes "length ha = 32" and "length hb = 32"
  shows "compare_hash32_reversed_nbits ha hb nbits = 0 \<longleftrightarrow>
    le_nat ha div 2 ^ (256 - unat nbits) = le_nat hb div 2 ^ (256 - unat nbits)"
  unfolding compare_hash32_sgn [OF assms] sgn_int_diff by simp

section \<open>Properties\<close>

text \<open>
  C14: Addresses survive printing. On every network, a plain, sub- or integrated address whose keys are
  curve points is printed and read back to the same keys, kind and payment identifier.
\<close>

theorem address_roundtrip:
  assumes "\<And>bytes. 4 \<le> length (cn_fast_hash bytes)" and "nettype \<noteq> UNDEFINED"
    and "valid_address check_key a" and "length pid = 8"
  shows "(\<exists>s. get_account_address_as_str cn_fast_hash nettype sub a = Inr (Some s) \<and>
      get_account_address_from_str check_key cn_fast_hash info nettype s =
        Inr (Some (info\<lparr>address := a, is_subaddress := sub, has_payment_id := False\<rparr>))) \<and>
    (\<exists>s. get_account_integrated_address_as_str cn_fast_hash nettype a pid = Inr (Some s) \<and>
      get_account_address_from_str check_key cn_fast_hash info nettype s =
        Inr (Some (info\<lparr>address := a, is_subaddress := False, has_payment_id := True, info_payment_id := pid\<rparr>)))"
  using plain_roundtrip [of cn_fast_hash, OF assms(1-3)] integrated_roundtrip [of cn_fast_hash, OF assms] by blast

definition sample_address :: account_public_address where
  "sample_address = \<lparr>m_spend_public_key = replicate 32 7, m_view_public_key = replicate 32 9\<rparr>"

definition blank_info :: address_parse_info where
  "blank_info = \<lparr>address = sample_address, is_subaddress = False, has_payment_id = False, info_payment_id = replicate 8 0\<rparr>"

lemma sample_valid: "valid_address (\<lambda>_. True) sample_address"
  by (simp add: valid_address_def sample_address_def)

theorem address_roundtrip_witness:
  "\<exists>s. get_account_address_as_str (\<lambda>_. [1, 2, 3, 4]) TESTNET True sample_address = Inr (Some s) \<and>
     get_account_address_from_str (\<lambda>_. True) (\<lambda>_. [1, 2, 3, 4]) blank_info TESTNET s =
       Inr (Some (blank_info\<lparr>address := sample_address, is_subaddress := True, has_payment_id := False\<rparr>))"
  using address_roundtrip [of "\<lambda>_. [1, 2, 3, 4]" TESTNET "\<lambda>_. True" sample_address "replicate 8 5" True blank_info]
    sample_valid by simp

text \<open>
  C13: An accepted address is well formed and has one spelling. Outside the old format, a text that is
  accepted holds two 32-byte keys that are curve points and is exactly what is printed for the
  result on that network.
\<close>

theorem address_accepted_typed:
  assumes "get_account_address_from_str check_key cn_fast_hash info nettype s = Inr (Some r)" and "length s \<noteq> 132"
  shows "valid_address check_key (address r) \<and>
    (if has_payment_id r
     then get_account_integrated_address_as_str cn_fast_hash nettype (address r) (info_payment_id r) = Inr (Some s)
     else get_account_address_as_str cn_fast_hash nettype (is_subaddress r) (address r) = Inr (Some s))"
  using assms by (rule accepted_is_printed)

theorem address_accepted_typed_witness:
  "\<exists>s. get_account_address_from_str (\<lambda>_. True) (\<lambda>_. [1, 2, 3, 4]) blank_info MAINNET s =
       Inr (Some (blank_info\<lparr>address := sample_address, is_subaddress := True, has_payment_id := False\<rparr>)) \<and>
     get_account_address_as_str (\<lambda>_. [1, 2, 3, 4]) MAINNET True sample_address = Inr (Some s)"
proof -
  obtain s where s: "length s \<noteq> 132" "get_account_address_from_str (\<lambda>_. True) (\<lambda>_. [1, 2, 3, 4]) blank_info MAINNET s =
      Inr (Some (blank_info\<lparr>address := sample_address, is_subaddress := True, has_payment_id := False\<rparr>))"
    using plain_roundtrip [of "\<lambda>_. [1, 2, 3, 4]" MAINNET "\<lambda>_. True" sample_address True blank_info] sample_valid by auto
  from address_accepted_typed [OF s(2,1)] s(2) show ?thesis by auto
qed

text \<open>
  C15: Addresses belong to one network. A text accepted on one network is refused on every network with
  another configuration, unless it has the length of the old format, which is read alike on all.
\<close>

theorem address_one_network:
  assumes "get_account_address_from_str check_key cn_fast_hash info n s = Inr (Some r)"
    and "n' \<noteq> UNDEFINED" and "get_config n \<noteq> get_config n'"
  shows "get_account_address_from_str check_key cn_fast_hash info n' s = Inr (if length s = 132 then Some r else None)"
proof -
  obtain c' where c': "get_config n' = Inr c'" using assms(2) by (cases n') auto
  obtain c where c: "get_config n = Inr c"
    using assms(1) by (cases "get_config n") (auto simp: get_account_address_from_str_def)
  show ?thesis
  proof (cases "length s = 132")
    case True
    then show ?thesis using old_format_everywhere [OF True c c'] assms(1) by (metis (full_types))
  next
    case False
    then show ?thesis using one_network [OF assms(1) False c' assms(3)] by simp
  qed
qed

theorem address_one_network_witness:
  "\<exists>s. get_account_address_from_str (\<lambda>_. True) (\<lambda>_. [1, 2, 3, 4]) blank_info MAINNET s =
       Inr (Some (blank_info\<lparr>address := sample_address, is_subaddress := True, has_payment_id := False\<rparr>)) \<and>
     get_account_address_from_str (\<lambda>_. True) (\<lambda>_. [1, 2, 3, 4]) blank_info STAGENET s = Inr None"
proof -
  obtain s where s: "length s \<noteq> 132" "get_account_address_from_str (\<lambda>_. True) (\<lambda>_. [1, 2, 3, 4]) blank_info MAINNET s =
      Inr (Some (blank_info\<lparr>address := sample_address, is_subaddress := True, has_payment_id := False\<rparr>))"
    using plain_roundtrip [of "\<lambda>_. [1, 2, 3, 4]" MAINNET "\<lambda>_. True" sample_address True blank_info] sample_valid by auto
  have "CRYPTONOTE_PUBLIC_ADDRESS_BASE58_PREFIX config_mainnet \<noteq> CRYPTONOTE_PUBLIC_ADDRESS_BASE58_PREFIX config_stagenet" by simp
  then have "get_config MAINNET \<noteq> get_config STAGENET" by (metis get_config.simps(1,3) sum.inject(2))
  from address_one_network [OF s(2) _ this] s show ?thesis by auto
qed

text \<open>
  C25: The template for an anonymous query agrees with the hash on its leading bits, is not above any hash
  that agrees on them, and tells nothing else: all hashes with the same leading bits have the same
  template.
\<close>

theorem loose_template_correct:
  assumes "length h = 32" and "length h' = 32" and "compare_hash32_reversed_nbits h h' nbits = 0"
  shows "compare_hash32_reversed_nbits h (make_hash32_loose_template nbits h) nbits = 0 \<and>
    compare_hash32_reversed_nbits (make_hash32_loose_template nbits h) h' 256 < 1 \<and>
    make_hash32_loose_template nbits h' = make_hash32_loose_template nbits h"
proof -
  let ?d = "(2 :: nat) ^ (256 - unat nbits)"
  note t = le_nat_template [OF assms(1)] and t' = le_nat_template [OF assms(2)]
  have e: "le_nat h div ?d = le_nat h' div ?d" using assms(3) compare_zero_iff [OF assms(1,2)] by simp
  have d: "le_nat h div ?d * ?d div ?d = le_nat h div ?d" by simp
  have "compare_hash32_reversed_nbits h (make_hash32_loose_template nbits h) nbits = 0"
    unfolding compare_zero_iff [OF assms(1) t(1)] t(2) d by simp
  moreover have "le_nat (make_hash32_loose_template nbits h) \<le> le_nat h'" unfolding t(2) e by simp
  then have "compare_hash32_reversed_nbits (make_hash32_loose_template nbits h) h' 256 < 1"
    unfolding compare_hash32_sgn [OF t(1) assms(2)] by (simp add: sgn_int_diff)
  moreover have "make_hash32_loose_template nbits h' = make_hash32_loose_template nbits h"
    by (rule le_nat_inj) (simp_all only: t t' e)
  ultimately show ?thesis by blast
qed

theorem loose_template_correct_witness:
  "make_hash32_loose_template 8 (replicate 32 7) = make_hash32_loose_template 8 (replicate 31 9 @ [7])"
proof -
  have c: "compare_hash32_reversed_nbits (replicate 31 9 @ [7]) (replicate 32 7) 8 = 0" by code_simp
  from loose_template_correct [OF _ _ c] show ?thesis by simp
qed

end
