(* ===== verification/Tree_Hash.thy ===== *)
theory Tree_Hash
  imports Difficulty
begin

text \<open>
  The transaction tree of a block: \<open>crypto/tree-hash.c\<close>. The root over a list of hashes, the branch that
  proves membership of one of them and its check. The buffer \<open>ints\<close> of the code, which each
  level overwrites in place, is a list that is read and written with bounds checks; an access outside it
  and a failed assertion are the value \<open>None\<close>. The hash \<open>cn_fast_hash\<close> is a parameter. The lemmas relate
  the buffer to the nodes of the tree, show that the loops end and stay in bounds, that branches are
  accepted, and that a root fixes its leaves unless the hash has a collision.
\<close>

section \<open>Definitions\<close>

text \<open>\<open>while (pow < count) pow <<= 1\<close> on 64 bits does not end for a count above the last power.\<close>

partial_function (option) tree_hash_cnt_loop :: "u64 \<Rightarrow> u64 \<Rightarrow> u64 option" where
  "tree_hash_cnt_loop pow num =
     (if pow < num then tree_hash_cnt_loop (push_bit 1 pow) num else Some pow)"

definition tree_hash_cnt :: "u64 \<Rightarrow> u64 option" where
  "tree_hash_cnt num =
     (if \<not> (num \<ge> 3) then None
      else if \<not> (num \<le> 0x10000000) then None
      else map_option (drop_bit 1) (tree_hash_cnt_loop 2 num))"

text \<open>\<open>cn_fast_hash(hashes[i], 64, ...)\<close>: the hash of two neighbours.\<close>

definition hash_pair :: "(hash \<Rightarrow> hash) \<Rightarrow> hash list \<Rightarrow> nat \<Rightarrow> hash option" where
  "hash_pair cn_fast_hash hs i =
     (if i + 1 < length hs then Some (cn_fast_hash (hs ! i @ hs ! (i + 1))) else None)"

definition store :: "hash list \<Rightarrow> nat \<Rightarrow> hash \<Rightarrow> hash list option" where
  "store ints j x = (if j < length ints then Some (ints[j := x]) else None)"

text \<open>The loop over the leaves that share a slot; it returns the last index as well.\<close>

function leaf_loop :: "(hash \<Rightarrow> hash) \<Rightarrow> hash list \<Rightarrow> nat \<Rightarrow> nat \<Rightarrow> nat \<Rightarrow> hash list \<Rightarrow> (nat \<times> hash list) option" where
  "leaf_loop cn_fast_hash hashes i j cnt ints =
     (if j < cnt
      then Option.bind (hash_pair cn_fast_hash hashes i) (\<lambda>x.
           Option.bind (store ints j x) (\<lambda>ints. leaf_loop cn_fast_hash hashes (i + 2) (j + 1) cnt ints))
      else Some (i, ints))"
  by pat_completeness auto
termination by (relation "measure (\<lambda>(_, _, _, j, cnt, _). cnt - j)") auto

declare leaf_loop.simps [simp del]

text \<open>The loop over one level, in place.\<close>

function level_loop :: "(hash \<Rightarrow> hash) \<Rightarrow> nat \<Rightarrow> nat \<Rightarrow> nat \<Rightarrow> hash list \<Rightarrow> hash list option" where
  "level_loop cn_fast_hash i j cnt ints =
     (if j < cnt
      then Option.bind (hash_pair cn_fast_hash ints i) (\<lambda>x.
           Option.bind (store ints j x) (\<lambda>ints. level_loop cn_fast_hash (i + 2) (j + 1) cnt ints))
      else Some ints)"
  by pat_completeness auto
termination by (relation "measure (\<lambda>(_, _, j, cnt, _). cnt - j)") auto

declare level_loop.simps [simp del]

fun levels :: "(hash \<Rightarrow> hash) \<Rightarrow> nat \<Rightarrow> hash list \<Rightarrow> hash list option" where
  "levels cn_fast_hash cnt ints =
     (if cnt > 2
      then Option.bind (level_loop cn_fast_hash 0 0 (cnt div 2) ints) (levels cn_fast_hash (cnt div 2))
      else Some ints)"

declare levels.simps [simp del]

text \<open>\<open>calloc\<close> and \<open>memcpy\<close> of the leaves that have a slot of their own.\<close>

definition fill_ints :: "hash list \<Rightarrow> nat \<Rightarrow> hash list" where
  "fill_ints hashes cnt = take (2 * cnt - length hashes) hashes @ replicate (cnt - (2 * cnt - length hashes)) (replicate 32 0)"

definition tree_hash :: "(hash \<Rightarrow> hash) \<Rightarrow> hash list \<Rightarrow> hash option" where
  "tree_hash cn_fast_hash hashes =
     (let count = length hashes
      in if count = 0 then None
         else if count = 1 then Some (hashes ! 0)
         else if count = 2 then hash_pair cn_fast_hash hashes 0
         else Option.bind (map_option unat (tree_hash_cnt (of_nat count))) (\<lambda>cnt.
              let ints = fill_ints hashes cnt in
              Option.bind (leaf_loop cn_fast_hash hashes (2 * cnt - count) (2 * cnt - count) cnt ints) (\<lambda>(i, ints).
              if i \<noteq> count then None
              else Option.bind (levels cn_fast_hash cnt ints) (\<lambda>ints. hash_pair cn_fast_hash ints 0))))"

text \<open>The step of \<open>tree_path\<close>, on the index and the path.\<close>

definition path_step :: "nat \<Rightarrow> nat \<Rightarrow> nat \<times> u32 \<Rightarrow> nat \<times> u32" where
  "path_step i j = (\<lambda>(idx, path).
     if idx = i \<or> idx = i + 1 then (j, push_bit 1 path OR (if idx = i then 0 else 1)) else (idx, path))"

function path_loop :: "nat \<Rightarrow> nat \<Rightarrow> nat \<Rightarrow> nat \<times> u32 \<Rightarrow> nat \<times> (nat \<times> u32)" where
  "path_loop i j cnt st = (if j < cnt then path_loop (i + 2) (j + 1) cnt (path_step i j st) else (i, st))"
  by pat_completeness auto
termination by (relation "measure (\<lambda>(_, j, cnt, _). cnt - j)") auto

declare path_loop.simps [simp del]

fun path_levels :: "nat \<Rightarrow> nat \<times> u32 \<Rightarrow> nat \<times> u32" where
  "path_levels cnt st = (if cnt > 2 then path_levels (cnt div 2) (snd (path_loop 0 0 (cnt div 2) st)) else st)"

declare path_levels.simps [simp del]

text \<open>The path; \<open>Some None\<close> is the result false and \<open>None\<close> a failed assertion.\<close>

definition tree_path :: "nat \<Rightarrow> nat \<Rightarrow> u32 option option" where
  "tree_path num idx =
     (if num = 0 then Some None
      else if num = 1 then Some (Some 0)
      else if num = 2 then Some (Some (if idx = 0 then 0 else 1))
      else Option.bind (map_option unat (tree_hash_cnt (of_nat num))) (\<lambda>cnt.
           let (i, st) = path_loop (2 * cnt - num) (2 * cnt - num) cnt (idx, 0)
           in if i \<noteq> num then None
              else Some (Some (snd (path_step 0 0 (path_levels cnt st))))))"

text \<open>The local variables of \<open>tree_branch\<close>; entries of the branch are written in order.\<close>

record branch_state =
  b_idx :: nat
  b_branch :: "hash list"
  b_depth :: nat
  b_path :: u32

definition branch_step :: "hash list \<Rightarrow> nat \<Rightarrow> nat \<Rightarrow> branch_state \<Rightarrow> branch_state option" where
  "branch_step src i j st =
     (if b_idx st = i \<or> b_idx st = i + 1
      then let sibling = (if b_idx st = i then i + 1 else i)
           in if sibling < length src
              then Some \<lparr>b_idx = j, b_branch = b_branch st @ [src ! sibling], b_depth = b_depth st + 1,
                b_path = push_bit 1 (b_path st) OR (if b_idx st = i then 0 else 1)\<rparr>
              else None
      else Some st)"

function leaf_branch_loop ::
  "(hash \<Rightarrow> hash) \<Rightarrow> hash list \<Rightarrow> nat \<Rightarrow> nat \<Rightarrow> nat \<Rightarrow> hash list \<Rightarrow> branch_state \<Rightarrow> (nat \<times> hash list \<times> branch_state) option" where
  "leaf_branch_loop cn_fast_hash hashes i j cnt ints st =
     (if j < cnt
      then Option.bind (branch_step hashes i j st) (\<lambda>st.
           Option.bind (hash_pair cn_fast_hash hashes i) (\<lambda>x.
           Option.bind (store ints j x) (\<lambda>ints. leaf_branch_loop cn_fast_hash hashes (i + 2) (j + 1) cnt ints st)))
      else Some (i, ints, st))"
  by pat_completeness auto
termination by (relation "measure (\<lambda>(_, _, _, j, cnt, _, _). cnt - j)") auto

declare leaf_branch_loop.simps [simp del]

function level_branch_loop ::
  "(hash \<Rightarrow> hash) \<Rightarrow> nat \<Rightarrow> nat \<Rightarrow> nat \<Rightarrow> hash list \<Rightarrow> branch_state \<Rightarrow> (hash list \<times> branch_state) option" where
  "level_branch_loop cn_fast_hash i j cnt ints st =
     (if j < cnt
      then Option.bind (branch_step ints i j st) (\<lambda>st.
           Option.bind (hash_pair cn_fast_hash ints i) (\<lambda>x.
           Option.bind (store ints j x) (\<lambda>ints. level_branch_loop cn_fast_hash (i + 2) (j + 1) cnt ints st)))
      else Some (ints, st))"
  by pat_completeness auto
termination by (relation "measure (\<lambda>(_, _, j, cnt, _, _). cnt - j)") auto

declare level_branch_loop.simps [simp del]

fun branch_levels ::
  "(hash \<Rightarrow> hash) \<Rightarrow> nat \<Rightarrow> hash list \<Rightarrow> branch_state \<Rightarrow> (hash list \<times> branch_state) option" where
  "branch_levels cn_fast_hash cnt ints st =
     (if cnt > 2
      then Option.bind (level_branch_loop cn_fast_hash 0 0 (cnt div 2) ints st) (\<lambda>(ints, st).
        branch_levels cn_fast_hash (cnt div 2) ints st)
      else Some (ints, st))"

declare branch_levels.simps [simp del]

text \<open>The search for the hash: its first index, or the count.\<close>

fun find_hash :: "hash \<Rightarrow> hash list \<Rightarrow> nat" where
  "find_hash h [] = 0"
| "find_hash h (x # xs) = (if h = x then 0 else Suc (find_hash h xs))"

text \<open>Branch, depth and path; \<open>Some None\<close> is the result false.\<close>

definition tree_branch :: "(hash \<Rightarrow> hash) \<Rightarrow> hash list \<Rightarrow> hash \<Rightarrow> (hash list \<times> nat \<times> u32) option option" where
  "tree_branch cn_fast_hash hashes hash =
     (let count = length hashes; idx = find_hash hash hashes
      in if count = 0 then Some None
         else if idx = count then Some None
         else if count = 1 then Some (Some ([], 0, 0))
         else if count = 2 then Some (Some ([hashes ! (if idx = 0 then 1 else 0)], 1, if idx = 0 then 0 else 1))
         else Option.bind (map_option unat (tree_hash_cnt (of_nat count))) (\<lambda>cnt.
              let ints = fill_ints hashes cnt;
                  st = \<lparr>b_idx = idx, b_branch = [], b_depth = 0, b_path = 0\<rparr> in
              Option.bind (leaf_branch_loop cn_fast_hash hashes (2 * cnt - count) (2 * cnt - count) cnt ints st) (\<lambda>(i, ints, st).
              if i \<noteq> count then None
              else Option.bind (branch_levels cn_fast_hash cnt ints st) (\<lambda>(ints, st).
                map_option (\<lambda>st. Some (b_branch st, b_depth st, b_path st)) (branch_step ints 0 0 st)))))"

text \<open>The loop of \<open>tree_branch_hash\<close>; a shift by the width of the path or more is undefined.\<close>

function branch_hash_loop :: "(hash \<Rightarrow> hash) \<Rightarrow> hash list \<Rightarrow> nat \<Rightarrow> u32 \<Rightarrow> nat \<Rightarrow> hash \<Rightarrow> hash option" where
  "branch_hash_loop cn_fast_hash branch depth path d partial =
     (if d < depth
      then if d < length branch \<and> depth - d - 1 < 32
           then branch_hash_loop cn_fast_hash branch depth path (d + 1)
             (if drop_bit (depth - d - 1) path AND 1 \<noteq> 0 then cn_fast_hash (branch ! d @ partial)
              else cn_fast_hash (partial @ branch ! d))
           else None
      else Some partial)"
  by pat_completeness auto
termination by (relation "measure (\<lambda>(_, _, depth, _, d, _). depth - d)") auto

declare branch_hash_loop.simps [simp del]

definition tree_branch_hash :: "(hash \<Rightarrow> hash) \<Rightarrow> hash \<Rightarrow> hash list \<Rightarrow> nat \<Rightarrow> u32 \<Rightarrow> hash option" where
  "tree_branch_hash cn_fast_hash hash branch depth path = branch_hash_loop cn_fast_hash branch depth path 0 hash"

definition is_branch_in_tree :: "(hash \<Rightarrow> hash) \<Rightarrow> hash \<Rightarrow> hash \<Rightarrow> hash list \<Rightarrow> nat \<Rightarrow> u32 \<Rightarrow> bool option" where
  "is_branch_in_tree cn_fast_hash hash root branch depth path =
     map_option (\<lambda>res. res = root) (tree_branch_hash cn_fast_hash hash branch depth path)"

section \<open>The power of two\<close>

lemma unat_pow2: "k < 64 \<Longrightarrow> unat ((2 :: u64) ^ k) = 2 ^ k"
  using unat_shift_one [of k, where 'a = 64] by (simp add: push_bit_eq_mult)

lemma tree_hash_cnt_loop_pow:
  assumes "unat num \<le> 2 ^ 28" and "1 \<le> k" and "k \<le> 29" and "k = 1 \<or> 2 ^ (k - 1) < unat num" and "3 \<le> unat num"
  shows "\<exists>e. tree_hash_cnt_loop (2 ^ k) num = Some (2 ^ e) \<and> 1 < e \<and> e \<le> 29 \<and> unat num \<le> 2 ^ e \<and> 2 ^ (e - 1) < unat num"
  using assms
proof (induction "29 - k" arbitrary: k rule: less_induct)
  case less
  have u: "unat ((2 :: u64) ^ k) = 2 ^ k" using less.prems(3) by (intro unat_pow2) simp
  show ?case
  proof (cases "2 ^ k < unat num")
    case True
    then have "(2 :: nat) ^ k < 2 ^ 28" using less.prems(1) by linarith
    then have k: "k < 28" by (rule power_less_imp_less_exp [rotated]) simp
    have "tree_hash_cnt_loop (2 ^ k) num = tree_hash_cnt_loop (2 ^ Suc k) num"
      using True u by (subst tree_hash_cnt_loop.simps) (simp add: word_less_nat_alt push_bit_eq_mult mult.commute)
    moreover have "29 - Suc k < 29 - k" using k by simp
    ultimately show ?thesis using less.hyps [of "Suc k"] less.prems k True by simp
  next
    case False
    then have "tree_hash_cnt_loop (2 ^ k) num = Some (2 ^ k)"
      using u by (subst tree_hash_cnt_loop.simps) (simp add: word_less_nat_alt)
    moreover have "k \<noteq> 1" using False less.prems(5) by auto
    ultimately show ?thesis using False less.prems by (intro exI [of _ k]) simp
  qed
qed

lemma tree_hash_cnt_pow:
  assumes "3 \<le> n" and "n \<le> 2 ^ 28"
  shows "\<exists>e. map_option unat (tree_hash_cnt (of_nat n)) = Some (2 ^ e) \<and> 1 \<le> e \<and> e \<le> 28 \<and> 2 ^ e < n \<and> n \<le> 2 * 2 ^ e"
proof -
  have n: "unat (of_nat n :: u64) = n" using assms by (simp only: unat_of_nat) simp
  obtain e where e: "tree_hash_cnt_loop (2 ^ 1) (of_nat n) = Some (2 ^ e)" "1 < e" "e \<le> 29" "n \<le> 2 ^ e" "2 ^ (e - 1) < n"
    using tree_hash_cnt_loop_pow [of "of_nat n" 1] assms unfolding n by auto
  have s: "(2 :: nat) ^ e = 2 * 2 ^ (e - 1)" using e(2) by (cases e) simp_all
  have "unat (drop_bit 1 ((2 :: u64) ^ e)) = 2 ^ e div 2"
    using e(3) by (simp add: unat_drop_bit unat_pow2)
  then have "map_option unat (tree_hash_cnt (of_nat n)) = Some (2 ^ (e - 1))"
    using e(1) assms s by (simp add: tree_hash_cnt_def word_le_nat_alt n)
  then show ?thesis using e s by (intro exI [of _ "e - 1"]) auto
qed

section \<open>The nodes of the tree\<close>

text \<open>
  The reference. A tree over \<open>2 ^ e\<close> slots; node \<open>k\<close> of level \<open>d\<close> hashes the nodes \<open>2 k\<close> and \<open>2 k + 1\<close> below
  it. The first slots hold a leaf each, the others the hash of two leaves.
\<close>

fun node :: "(hash \<Rightarrow> hash) \<Rightarrow> (nat \<Rightarrow> hash) \<Rightarrow> nat \<Rightarrow> nat \<Rightarrow> hash" where
  "node H slots 0 k = slots k"
| "node H slots (Suc d) k = H (node H slots d (2 * k) @ node H slots d (2 * k + 1))"

definition slot :: "(hash \<Rightarrow> hash) \<Rightarrow> hash list \<Rightarrow> nat \<Rightarrow> nat \<Rightarrow> hash" where
  "slot H hashes cnt k =
     (let m = 2 * cnt - length hashes
      in if k < m then hashes ! k else H (hashes ! (2 * k - m) @ hashes ! (2 * k - m + 1)))"

text \<open>One level, in place: slot \<open>j\<close> is written after the slots it is computed from were read.\<close>

lemma level_loop_step:
  assumes "j < cnt" and "2 * cnt \<le> length ints"
  shows "level_loop H (2 * j) j cnt ints =
    level_loop H (2 * Suc j) (Suc j) cnt (ints[j := H (ints ! (2 * j) @ ints ! (2 * j + 1))])"
  using assms by (subst level_loop.simps) (simp add: hash_pair_def store_def)

lemma level_loop_nth:
  assumes "j \<le> cnt" and "2 * cnt \<le> length ints"
  shows "\<exists>ints'. level_loop H (2 * j) j cnt ints = Some ints' \<and> length ints' = length ints \<and>
    (\<forall>k < j. ints' ! k = ints ! k) \<and> (\<forall>k. j \<le> k \<and> k < cnt \<longrightarrow> ints' ! k = H (ints ! (2 * k) @ ints ! (2 * k + 1)))"
  using assms
proof (induction "cnt - j" arbitrary: j ints)
  case 0
  then show ?case by (subst level_loop.simps) auto
next
  case (Suc n)
  let ?ints = "ints[j := H (ints ! (2 * j) @ ints ! (2 * j + 1))]"
  have j: "j < cnt" using Suc.hyps(2) by simp
  have "n = cnt - Suc j" "Suc j \<le> cnt" "2 * cnt \<le> length ?ints" using j Suc.hyps(2) Suc.prems by auto
  from Suc.hyps(1) [OF this] obtain ints' where i: "level_loop H (2 * Suc j) (Suc j) cnt ?ints = Some ints'"
      "length ints' = length ?ints" "\<forall>k < Suc j. ints' ! k = ?ints ! k"
      "\<forall>k. Suc j \<le> k \<and> k < cnt \<longrightarrow> ints' ! k = H (?ints ! (2 * k) @ ?ints ! (2 * k + 1))" by blast
  have "ints' ! k = H (ints ! (2 * k) @ ints ! (2 * k + 1))" if "j \<le> k" "k < cnt" for k
    using i(3,4) that j Suc.prems by (cases "k = j") auto
  then show ?case unfolding level_loop_step [OF j Suc.prems(2)] using i by auto
qed

lemma leaf_loop_step:
  assumes "m \<le> j" and "j < cnt" and "length ints = cnt" and "length hashes = 2 * cnt - m"
  shows "leaf_loop H hashes (2 * j - m) j cnt ints =
    leaf_loop H hashes (2 * Suc j - m) (Suc j) cnt (ints[j := H (hashes ! (2 * j - m) @ hashes ! (2 * j - m + 1))])"
proof -
  have i2: "2 * j - m + 2 = 2 * Suc j - m" and b: "2 * j - m + 1 < length hashes" using assms by simp_all
  show ?thesis
    using assms(2,3) b by (subst leaf_loop.simps) (simp only: hash_pair_def store_def i2 if_True bind.simps Suc_eq_plus1)
qed

lemma leaf_loop_nth:
  assumes "m \<le> j" and "j \<le> cnt" and "length ints = cnt" and "length hashes = 2 * cnt - m"
  shows "\<exists>ints'. leaf_loop H hashes (2 * j - m) j cnt ints = Some (length hashes, ints') \<and> length ints' = cnt \<and>
    (\<forall>k < j. ints' ! k = ints ! k) \<and>
    (\<forall>k. j \<le> k \<and> k < cnt \<longrightarrow> ints' ! k = H (hashes ! (2 * k - m) @ hashes ! (2 * k - m + 1)))"
  using assms
proof (induction "cnt - j" arbitrary: j ints)
  case 0
  then show ?case by (subst leaf_loop.simps) auto
next
  case (Suc n)
  let ?ints = "ints[j := H (hashes ! (2 * j - m) @ hashes ! (2 * j - m + 1))]"
  have j: "j < cnt" using Suc.hyps(2) by simp
  have "n = cnt - Suc j" "m \<le> Suc j" "Suc j \<le> cnt" "length ?ints = cnt" using j Suc.hyps(2) Suc.prems by auto
  from Suc.hyps(1) [OF this Suc.prems(4)] obtain ints' where
      i: "leaf_loop H hashes (2 * Suc j - m) (Suc j) cnt ?ints = Some (length hashes, ints')"
      "length ints' = cnt" "\<forall>k < Suc j. ints' ! k = ?ints ! k"
      "\<forall>k. Suc j \<le> k \<and> k < cnt \<longrightarrow> ints' ! k = H (hashes ! (2 * k - m) @ hashes ! (2 * k - m + 1))" by blast
  have "ints' ! k = H (hashes ! (2 * k - m) @ hashes ! (2 * k - m + 1))" if "j \<le> k" "k < cnt" for k
    using i(3,4) that j Suc.prems by (cases "k = j") auto
  then show ?case unfolding leaf_loop_step [OF Suc.prems(1) j Suc.prems(3,4)] using i by auto
qed

text \<open>The buffer holds a level.\<close>

definition holds :: "(hash \<Rightarrow> hash) \<Rightarrow> (nat \<Rightarrow> hash) \<Rightarrow> nat \<Rightarrow> nat \<Rightarrow> hash list \<Rightarrow> bool" where
  "holds H slots d n ints \<longleftrightarrow> n \<le> length ints \<and> (\<forall>k < n. ints ! k = node H slots d k)"

lemma level_loop_holds:
  assumes "holds H slots d (2 * n) ints"
  obtains ints' where "level_loop H 0 0 n ints = Some ints'" and "holds H slots (Suc d) n ints'"
  using assms level_loop_nth [of 0 n ints H] by (auto simp: holds_def)

lemma levels_holds:
  assumes "holds H slots d (2 ^ Suc r) ints"
  shows "\<exists>ints'. levels H (2 ^ Suc r) ints = Some ints' \<and> holds H slots (d + r) 2 ints'"
  using assms
proof (induction r arbitrary: d ints)
  case 0
  then show ?case by (subst levels.simps) simp
next
  case (Suc r)
  have "2 ^ Suc (Suc r) = 2 * (2 :: nat) ^ Suc r" by simp
  with Suc.prems obtain ints1 where i: "level_loop H 0 0 (2 ^ Suc r) ints = Some ints1" "holds H slots (Suc d) (2 ^ Suc r) ints1"
    using level_loop_holds by metis
  have "(2 :: nat) ^ Suc (Suc r) = 4 * 2 ^ r" "(1 :: nat) \<le> 2 ^ r" by simp_all
  then have "(2 :: nat) < 2 ^ Suc (Suc r)" by linarith
  moreover have "(2 :: nat) ^ Suc (Suc r) div 2 = 2 ^ Suc r" by simp
  ultimately have "levels H (2 ^ Suc (Suc r)) ints = levels H (2 ^ Suc r) ints1"
    using i(1) by (subst levels.simps) (simp del: power_Suc)
  then show ?case using Suc.IH [OF i(2)] by simp
qed

lemma leaf_loop_holds:
  assumes "cnt \<le> length hashes" and "length hashes \<le> 2 * cnt"
  obtains ints' where "leaf_loop H hashes (2 * cnt - length hashes) (2 * cnt - length hashes) cnt (fill_ints hashes cnt) =
      Some (length hashes, ints')" and "holds H (slot H hashes cnt) 0 cnt ints'"
proof -
  let ?m = "2 * cnt - length hashes"
  have l: "length (fill_ints hashes cnt) = cnt" using assms by (simp add: fill_ints_def)
  have f: "fill_ints hashes cnt ! k = hashes ! k" if "k < ?m" for k
    using that assms by (simp add: fill_ints_def nth_append)
  have m: "2 * ?m - ?m = ?m" and h: "?m \<le> cnt" "length hashes = 2 * cnt - ?m" using assms by simp_all
  obtain ints' where i: "leaf_loop H hashes ?m ?m cnt (fill_ints hashes cnt) = Some (length hashes, ints')" "length ints' = cnt"
      "\<forall>k < ?m. ints' ! k = fill_ints hashes cnt ! k"
      "\<forall>k. ?m \<le> k \<and> k < cnt \<longrightarrow> ints' ! k = H (hashes ! (2 * k - ?m) @ hashes ! (2 * k - ?m + 1))"
    using leaf_loop_nth [OF order_refl h(1) l h(2), of H, unfolded m] by blast
  then have "holds H (slot H hashes cnt) 0 cnt ints'" using f by (auto simp: holds_def slot_def Let_def)
  then show thesis using that i(1) by blast
qed

text \<open>The root of the tree, with the small cases of the code.\<close>

definition merkle_root :: "(hash \<Rightarrow> hash) \<Rightarrow> hash list \<Rightarrow> nat \<Rightarrow> hash" where
  "merkle_root H hashes e = node H (slot H hashes (2 ^ e)) e 0"

definition slots_exponent :: "nat \<Rightarrow> nat \<Rightarrow> bool" where
  "slots_exponent e n \<longleftrightarrow> n \<le> 2 * 2 ^ e \<and> (2 ^ e < n \<or> n = 1 \<and> e = 0)"

lemma tree_hash_root:
  assumes "0 < length hashes" and "length hashes \<le> 2 ^ 28"
  shows "\<exists>e \<le> 28. slots_exponent e (length hashes) \<and> tree_hash H hashes = Some (merkle_root H hashes e)"
proof -
  consider "length hashes = 1" | "length hashes = 2" | "3 \<le> length hashes" using assms(1) by linarith
  then show ?thesis
  proof cases
    case 1
    then show ?thesis
      by (intro exI [of _ 0]) (simp add: slots_exponent_def tree_hash_def merkle_root_def slot_def)
  next
    case 2
    then show ?thesis
      by (intro exI [of _ 0]) (simp add: slots_exponent_def tree_hash_def merkle_root_def slot_def hash_pair_def)
  next
    case 3
    obtain e where e: "map_option unat (tree_hash_cnt (of_nat (length hashes))) = Some (2 ^ e)" "1 \<le> e" "e \<le> 28"
        "2 ^ e < length hashes" "length hashes \<le> 2 * 2 ^ e"
      using tree_hash_cnt_pow [OF 3 assms(2)] by blast
    then obtain r where r: "e = Suc r" by (cases e) simp_all
    obtain ints where i: "leaf_loop H hashes (2 * 2 ^ e - length hashes) (2 * 2 ^ e - length hashes) (2 ^ e) (fill_ints hashes (2 ^ e)) =
        Some (length hashes, ints)" "holds H (slot H hashes (2 ^ e)) 0 (2 ^ e) ints"
      using leaf_loop_holds [of "2 ^ e" hashes H] e(4,5) by (metis less_imp_le)
    obtain ints' where l: "levels H (2 ^ e) ints = Some ints'" "holds H (slot H hashes (2 ^ e)) r 2 ints'"
      using levels_holds [of H _ 0 r ints] i(2) unfolding r by auto
    have "hash_pair H ints' 0 = Some (node H (slot H hashes (2 ^ e)) e 0)"
      using l(2) unfolding r by (auto simp: hash_pair_def holds_def)
    then have "tree_hash H hashes = Some (merkle_root H hashes e)"
      unfolding tree_hash_def Let_def e(1) using 3 i(1) l(1) by (auto simp: merkle_root_def)
    then show ?thesis using e by (auto simp: slots_exponent_def)
  qed
qed

section \<open>Branches\<close>

text \<open>One step up a branch, with the sibling and whether it is on the left; the path as a number.\<close>

definition climb :: "(hash \<Rightarrow> hash) \<Rightarrow> hash \<Rightarrow> hash \<times> bool \<Rightarrow> hash" where
  "climb H x = (\<lambda>(sibling, right). if right then H (sibling @ x) else H (x @ sibling))"

definition path_value :: "bool list \<Rightarrow> nat" where
  "path_value bits = foldl (\<lambda>p b. 2 * p + of_bool b) 0 bits"

lemma path_value_snoc [simp]: "path_value (bits @ [b]) = 2 * path_value bits + of_bool b"
  by (simp add: path_value_def)

lemma path_value_less: "path_value bits < 2 ^ length bits"
  by (induction bits rule: rev_induct) (auto simp: path_value_def)

text \<open>The branch of a state leads from the hash to a node.\<close>

definition on_path :: "(hash \<Rightarrow> hash) \<Rightarrow> hash \<Rightarrow> branch_state \<Rightarrow> hash \<Rightarrow> bool" where
  "on_path H h st x \<longleftrightarrow> b_depth st = length (b_branch st) \<and>
     (\<exists>bits. length bits = b_depth st \<and> unat (b_path st) = path_value bits \<and>
       foldl (climb H) h (zip (b_branch st) bits) = x)"

lemma unat_path_step:
  assumes "unat (path :: u32) < 2 ^ 31"
  shows "unat (push_bit 1 path OR (if b then 1 else 0)) = 2 * unat path + of_bool b"
proof -
  have "unat (push_bit 1 path) = 2 * unat path"
    using assms by (simp add: push_bit_eq_mult) (subst unat_mult_no_overflow, simp_all)
  moreover have "push_bit 1 path OR 1 = push_bit 1 path + 1"
    by (simp add: push_bit_eq_mult or_one_eq)
  moreover have "unat (push_bit 1 path + 1) = unat (push_bit 1 path) + 1"
    using calculation(1) assms by (subst unat_add_no_overflow) simp_all
  ultimately show ?thesis by simp
qed

lemma branch_step_on_path:
  assumes "on_path H h st (src ! b_idx st)" and "b_idx st = i \<or> b_idx st = i + 1" and "i + 1 < length src"
    and "b_depth st < 32"
  obtains st' where "branch_step src i j st = Some st'" and "b_idx st' = j" and "b_depth st' = b_depth st + 1"
    and "on_path H h st' (H (src ! i @ src ! (i + 1)))"
proof -
  obtain bits where b: "b_depth st = length (b_branch st)" "length bits = b_depth st" "unat (b_path st) = path_value bits"
      "foldl (climb H) h (zip (b_branch st) bits) = src ! b_idx st"
    using assms(1) by (auto simp: on_path_def)
  let ?b = "b_idx st \<noteq> i"
  let ?st = "\<lparr>b_idx = j, b_branch = b_branch st @ [src ! (if ?b then i else i + 1)], b_depth = b_depth st + 1,
    b_path = push_bit 1 (b_path st) OR (if ?b then 1 else 0)\<rparr>"
  have s: "branch_step src i j st = Some ?st" using assms(2,3) by (auto simp: branch_step_def Let_def)
  have "path_value bits < 2 ^ b_depth st" using path_value_less [of bits] b(2) by simp
  also have "(2 :: nat) ^ b_depth st \<le> 2 ^ 31" using assms(4) by (intro power_increasing) simp_all
  finally have "unat (b_path ?st) = path_value (bits @ [?b])"
    using unat_path_step [of "b_path st" ?b] b(3) by (simp only: path_value_snoc branch_state.simps)
  moreover have "foldl (climb H) h (zip (b_branch ?st) (bits @ [?b])) = H (src ! i @ src ! (i + 1))"
    using b assms(2) by (auto simp: climb_def)
  ultimately have "on_path H h ?st (H (src ! i @ src ! (i + 1)))"
    unfolding on_path_def using b(1,2) by (intro conjI exI [of _ "bits @ [?b]"]) simp_all
  with s that show thesis by simp
qed

lemma branch_step_skip: "b_idx st < i \<or> i + 1 < b_idx st \<Longrightarrow> branch_step src i j st = Some st"
  by (auto simp: branch_step_def)

text \<open>The loop over a level does what \<open>level_loop\<close> does to the buffer and takes one step up the branch.\<close>

lemma level_branch_loop_step:
  assumes "j < cnt" and "2 * cnt \<le> length ints" and "branch_step ints (2 * j) j st = Some st'"
  shows "level_branch_loop H (2 * j) j cnt ints st =
    level_branch_loop H (2 * Suc j) (Suc j) cnt (ints[j := H (ints ! (2 * j) @ ints ! (2 * j + 1))]) st'"
  using assms by (subst level_branch_loop.simps) (simp add: hash_pair_def store_def)

lemma level_branch_loop_past:
  assumes "j \<le> cnt" and "2 * cnt \<le> length ints" and "b_idx st < 2 * j"
  shows "level_branch_loop H (2 * j) j cnt ints st = map_option (\<lambda>ints. (ints, st)) (level_loop H (2 * j) j cnt ints)"
  using assms
proof (induction "cnt - j" arbitrary: j ints)
  case 0
  then show ?case by (subst level_branch_loop.simps, subst level_loop.simps) simp
next
  case (Suc n)
  then have j: "j < cnt" by simp
  note s = level_branch_loop_step [OF j Suc.prems(2) branch_step_skip [OF disjI1 [OF Suc.prems(3)]]]
  show ?case unfolding s level_loop_step [OF j Suc.prems(2)] using Suc by (intro Suc.hyps(1)) auto
qed

lemma level_branch_loop_up:
  assumes "2 * j \<le> b_idx st" and "b_idx st < 2 * cnt" and "2 * cnt \<le> length ints" and "b_depth st < 32"
    and "on_path H h st (ints ! b_idx st)"
  shows "\<exists>st'. level_branch_loop H (2 * j) j cnt ints st = map_option (\<lambda>ints. (ints, st')) (level_loop H (2 * j) j cnt ints) \<and>
    b_idx st' = b_idx st div 2 \<and> b_depth st' = b_depth st + 1 \<and>
    on_path H h st' (H (ints ! (2 * (b_idx st div 2)) @ ints ! (2 * (b_idx st div 2) + 1)))"
  using assms
proof (induction "cnt - j" arbitrary: j ints)
  case 0
  then show ?case by simp
next
  case (Suc n)
  have j: "j < cnt" using Suc.hyps(2) by simp
  let ?ints = "ints[j := H (ints ! (2 * j) @ ints ! (2 * j + 1))]"
  show ?case
  proof (cases "b_idx st < 2 * Suc j")
    case True
    then have i: "b_idx st = 2 * j \<or> b_idx st = 2 * j + 1" and d: "b_idx st div 2 = j" using Suc.prems(1) by auto
    have "2 * j + 1 < length ints" using j Suc.prems(3) by simp
    then obtain st' where st': "branch_step ints (2 * j) j st = Some st'" "b_idx st' = j" "b_depth st' = b_depth st + 1"
        "on_path H h st' (H (ints ! (2 * j) @ ints ! (2 * j + 1)))"
      using branch_step_on_path [OF Suc.prems(5) i _ Suc.prems(4)] by metis
    have "level_branch_loop H (2 * Suc j) (Suc j) cnt ?ints st' =
        map_option (\<lambda>ints. (ints, st')) (level_loop H (2 * Suc j) (Suc j) cnt ?ints)"
      by (rule level_branch_loop_past) (use j st'(2) Suc.prems(3) in auto)
    then show ?thesis
      unfolding level_branch_loop_step [OF j Suc.prems(3) st'(1)] level_loop_step [OF j Suc.prems(3)] d using st' by blast
  next
    case False
    then have "branch_step ints (2 * j) j st = Some st" by (intro branch_step_skip) simp
    note s = level_branch_loop_step [OF j Suc.prems(3) this]
    have n: "?ints ! k = ints ! k" if "2 * Suc j \<le> k" for k using that by simp
    have "2 * Suc j \<le> b_idx st" using False by simp
    moreover from this have "2 * Suc j \<le> 2 * (b_idx st div 2)" using div_le_mono [of "2 * Suc j" "b_idx st" 2] by simp
    ultimately show ?thesis
      unfolding s level_loop_step [OF j Suc.prems(3)]
      using Suc.hyps(1) [of "Suc j" ?ints] Suc.hyps(2) Suc.prems j n [of "b_idx st"] n [of "2 * (b_idx st div 2)"]
        n [of "2 * (b_idx st div 2) + 1"] by auto
  qed
qed

text \<open>The loop over the shared leaves, likewise; a leaf with a slot of its own takes no step.\<close>

lemma leaf_branch_loop_step:
  assumes "m \<le> j" and "j < cnt" and "length ints = cnt" and "length hashes = 2 * cnt - m"
    and "branch_step hashes (2 * j - m) j st = Some st'"
  shows "leaf_branch_loop H hashes (2 * j - m) j cnt ints st =
    leaf_branch_loop H hashes (2 * Suc j - m) (Suc j) cnt (ints[j := H (hashes ! (2 * j - m) @ hashes ! (2 * j - m + 1))]) st'"
proof -
  have i2: "2 * j - m + 2 = 2 * Suc j - m" and b: "2 * j - m + 1 < length hashes" using assms by simp_all
  show ?thesis
    using assms(2,3) b
    by (subst leaf_branch_loop.simps) (simp only: assms(5) hash_pair_def store_def i2 if_True bind.simps Suc_eq_plus1)
qed

lemma leaf_branch_loop_past:
  assumes "m \<le> j" and "j \<le> cnt" and "length ints = cnt" and "length hashes = 2 * cnt - m" and "b_idx st < 2 * j - m"
  shows "leaf_branch_loop H hashes (2 * j - m) j cnt ints st =
    map_option (\<lambda>(i, ints). (i, ints, st)) (leaf_loop H hashes (2 * j - m) j cnt ints)"
  using assms
proof (induction "cnt - j" arbitrary: j ints)
  case 0
  then show ?case by (subst leaf_branch_loop.simps, subst leaf_loop.simps) simp
next
  case (Suc n)
  then have j: "j < cnt" by simp
  note s = leaf_branch_loop_step [OF Suc.prems(1) j Suc.prems(3,4) branch_step_skip [OF disjI1 [OF Suc.prems(5)]]]
  show ?case unfolding s leaf_loop_step [OF Suc.prems(1) j Suc.prems(3,4)] using Suc by (intro Suc.hyps(1)) auto
qed

lemma leaf_branch_loop_up:
  assumes "m \<le> j" and "2 * j - m \<le> b_idx st" and "b_idx st < length hashes" and "length ints = cnt"
    and "length hashes = 2 * cnt - m" and "b_depth st < 32" and "on_path H h st (hashes ! b_idx st)"
  shows "\<exists>st' k. leaf_branch_loop H hashes (2 * j - m) j cnt ints st =
      map_option (\<lambda>(i, ints). (i, ints, st')) (leaf_loop H hashes (2 * j - m) j cnt ints) \<and>
    b_idx st' = k \<and> j \<le> k \<and> k < cnt \<and> b_depth st' = b_depth st + 1 \<and>
    on_path H h st' (H (hashes ! (2 * k - m) @ hashes ! (2 * k - m + 1)))"
  using assms
proof (induction "cnt - j" arbitrary: j ints)
  case 0
  then show ?case by simp
next
  case (Suc n)
  have j: "j < cnt" using Suc.hyps(2) by simp
  note l = leaf_loop_step [OF Suc.prems(1) j Suc.prems(4,5)]
  let ?ints = "ints[j := H (hashes ! (2 * j - m) @ hashes ! (2 * j - m + 1))]"
  show ?case
  proof (cases "b_idx st < 2 * Suc j - m")
    case True
    then have i: "b_idx st = 2 * j - m \<or> b_idx st = 2 * j - m + 1" using Suc.prems(1,2) by auto
    have "2 * j - m + 1 < length hashes" using j Suc.prems(1,5) by simp
    then obtain st' where st': "branch_step hashes (2 * j - m) j st = Some st'" "b_idx st' = j" "b_depth st' = b_depth st + 1"
        "on_path H h st' (H (hashes ! (2 * j - m) @ hashes ! (2 * j - m + 1)))"
      using branch_step_on_path [OF Suc.prems(7) i _ Suc.prems(6)] by metis
    have "leaf_branch_loop H hashes (2 * Suc j - m) (Suc j) cnt ?ints st' =
        map_option (\<lambda>(i, ints). (i, ints, st')) (leaf_loop H hashes (2 * Suc j - m) (Suc j) cnt ?ints)"
      by (rule leaf_branch_loop_past) (use j st'(2) Suc.prems(1,4,5) in auto)
    then show ?thesis
      unfolding leaf_branch_loop_step [OF Suc.prems(1) j Suc.prems(4,5) st'(1)] l using st' j by blast
  next
    case False
    moreover have "2 * Suc j - m = 2 * j - m + 2" using Suc.prems(1) by simp
    ultimately have "branch_step hashes (2 * j - m) j st = Some st" by (intro branch_step_skip disjI2) linarith
    note s = leaf_branch_loop_step [OF Suc.prems(1) j Suc.prems(4,5) this]
    have "\<exists>st' k. leaf_branch_loop H hashes (2 * Suc j - m) (Suc j) cnt ?ints st =
        map_option (\<lambda>(i, ints). (i, ints, st')) (leaf_loop H hashes (2 * Suc j - m) (Suc j) cnt ?ints) \<and>
      b_idx st' = k \<and> Suc j \<le> k \<and> k < cnt \<and> b_depth st' = b_depth st + 1 \<and>
      on_path H h st' (H (hashes ! (2 * k - m) @ hashes ! (2 * k - m + 1)))"
      by (rule Suc.hyps(1)) (use Suc.hyps(2) Suc.prems False in auto)
    then show ?thesis unfolding s l by (meson Suc_leD)
  qed
qed

lemma branch_levels_holds:
  assumes "holds H slots d (2 ^ Suc r) ints" and "b_idx st < 2 ^ Suc r" and "b_depth st + r < 32"
    and "on_path H h st (node H slots d (b_idx st))"
  shows "\<exists>ints' st'. branch_levels H (2 ^ Suc r) ints st = Some (ints', st') \<and> holds H slots (d + r) 2 ints' \<and>
    b_idx st' < 2 \<and> b_depth st' = b_depth st + r \<and> on_path H h st' (node H slots (d + r) (b_idx st'))"
  using assms
proof (induction r arbitrary: d ints st)
  case 0
  then show ?case by (subst branch_levels.simps) simp
next
  case (Suc r)
  let ?n = "(2 :: nat) ^ Suc r"
  have p: "2 ^ Suc (Suc r) = 2 * ?n" by simp
  have h: "2 * ?n \<le> length ints" "ints ! k = node H slots d k" if "k < 2 * ?n" for k
    using Suc.prems(1) that by (simp_all only: holds_def p)
  have i: "b_idx st < 2 * ?n" using Suc.prems(2) by (simp only: p)
  obtain ints1 where l: "level_loop H 0 0 ?n ints = Some ints1" "holds H slots (Suc d) ?n ints1"
    using level_loop_holds Suc.prems(1) unfolding p by metis
  obtain st1 where st1: "level_branch_loop H 0 0 ?n ints st = Some (ints1, st1)" "b_idx st1 = b_idx st div 2"
      "b_depth st1 = b_depth st + 1"
      "on_path H h st1 (H (ints ! (2 * (b_idx st div 2)) @ ints ! (2 * (b_idx st div 2) + 1)))"
    using level_branch_loop_up [of 0 st ?n ints H h] Suc.prems(3,4) h(1) [OF i] h(2) [OF i] i l(1) by auto
  have k: "b_idx st1 < ?n" using st1(2) i by linarith
  have "on_path H h st1 (node H slots (Suc d) (b_idx st1))" using st1(4) h(2) k by (simp add: st1(2))
  from Suc.IH [OF l(2) k _ this] obtain ints' st' where r: "branch_levels H ?n ints1 st1 = Some (ints', st')"
      "holds H slots (Suc d + r) 2 ints'" "b_idx st' < 2" "b_depth st' = b_depth st1 + r"
      "on_path H h st' (node H slots (Suc d + r) (b_idx st'))"
    using Suc.prems(3) st1(3) by auto
  have "(2 :: nat) ^ Suc (Suc r) = 4 * 2 ^ r" "(1 :: nat) \<le> 2 ^ r" by simp_all
  then have "(2 :: nat) < 2 ^ Suc (Suc r)" by linarith
  moreover have "(2 :: nat) ^ Suc (Suc r) div 2 = ?n" by simp
  ultimately have "branch_levels H (2 ^ Suc (Suc r)) ints st = branch_levels H ?n ints1 st1"
    using st1(1) by (subst branch_levels.simps) (simp del: power_Suc)
  then show ?case using r st1(3) by auto
qed

lemma on_path_start: "on_path H h \<lparr>b_idx = idx, b_branch = [], b_depth = 0, b_path = 0\<rparr> h"
  by (simp add: on_path_def path_value_def)

lemma leaf_branch_holds:
  assumes "cnt \<le> length hashes" and "length hashes \<le> 2 * cnt" and "idx < length hashes" and "hashes ! idx = h"
  shows "\<exists>ints st. leaf_branch_loop H hashes (2 * cnt - length hashes) (2 * cnt - length hashes) cnt (fill_ints hashes cnt)
      \<lparr>b_idx = idx, b_branch = [], b_depth = 0, b_path = 0\<rparr> = Some (length hashes, ints, st) \<and>
    holds H (slot H hashes cnt) 0 cnt ints \<and> b_idx st < cnt \<and> b_depth st \<le> 1 \<and>
    on_path H h st (slot H hashes cnt (b_idx st))"
proof -
  define m where "m = 2 * cnt - length hashes"
  let ?st = "\<lparr>b_idx = idx, b_branch = [], b_depth = 0, b_path = 0\<rparr>"
  have l: "length (fill_ints hashes cnt) = cnt" using assms(1,2) by (simp add: fill_ints_def)
  have m: "2 * m - m = m" and h: "m \<le> cnt" "length hashes = 2 * cnt - m" using assms(1,2) by (simp_all add: m_def)
  obtain ints where i: "leaf_loop H hashes m m cnt (fill_ints hashes cnt) = Some (length hashes, ints)"
      "holds H (slot H hashes cnt) 0 cnt ints"
    using leaf_loop_holds [OF assms(1,2), of H, folded m_def] by blast
  show ?thesis
  proof (cases "idx < m")
    case True
    have "leaf_branch_loop H hashes m m cnt (fill_ints hashes cnt) ?st = Some (length hashes, ints, ?st)"
      using leaf_branch_loop_past [OF order_refl h(1) l h(2), of ?st H, unfolded m] True i(1) by simp
    moreover have "slot H hashes cnt idx = h" using True assms(4) by (simp add: slot_def Let_def m_def)
    ultimately show ?thesis
      using i(2) True h(1) on_path_start [of H h idx] unfolding m_def [symmetric] by (intro exI [of _ ints] exI [of _ ?st]) simp
  next
    case False
    have "on_path H h ?st (hashes ! b_idx ?st)" using on_path_start [of H h idx] assms(4) by simp
    then obtain st where st: "leaf_branch_loop H hashes m m cnt (fill_ints hashes cnt) ?st = Some (length hashes, ints, st)"
        "m \<le> b_idx st" "b_idx st < cnt" "b_depth st = 1"
        "on_path H h st (H (hashes ! (2 * b_idx st - m) @ hashes ! (2 * b_idx st - m + 1)))"
      using leaf_branch_loop_up [OF order_refl, of m ?st hashes "fill_ints hashes cnt" cnt H h, unfolded m] False assms(3) l h(2) i(1)
      by auto
    then show ?thesis
      using i(2) unfolding m_def [symmetric] by (intro exI [of _ ints] exI [of _ st]) (simp add: slot_def Let_def flip: m_def)
  qed
qed

lemma find_hash_less: "h \<in> set hashes \<Longrightarrow> find_hash h hashes < length hashes \<and> hashes ! find_hash h hashes = h"
  by (induction hashes) auto

lemma find_hash_none: "h \<notin> set hashes \<Longrightarrow> find_hash h hashes = length hashes"
  by (induction hashes) auto

lemma slots_exponent_unique:
  assumes "slots_exponent e n" and "slots_exponent e' n"
  shows "e = e'"
proof (rule ccontr)
  have lt: False if "slots_exponent e n" "slots_exponent e' n" "e < e'" for e e'
  proof -
    have "(2 :: nat) ^ Suc e \<le> 2 ^ e'" using that(3) by (intro power_increasing) simp_all
    moreover have "n \<noteq> 1 \<or> e' = 0" using that(2) by (auto simp: slots_exponent_def)
    ultimately show False using that by (auto simp: slots_exponent_def)
  qed
  assume "e \<noteq> e'"
  then show False using lt assms by (meson nat_neq_iff)
qed

text \<open>The whole of \<open>tree_branch\<close>: the branch it returns leads to the root.\<close>

lemma tree_branch_on_path:
  assumes "h \<in> set hashes" and "length hashes \<le> 2 ^ 28"
  shows "\<exists>st e. slots_exponent e (length hashes) \<and>
    tree_branch H hashes h = Some (Some (b_branch st, b_depth st, b_path st)) \<and> b_depth st \<le> 32 \<and>
    on_path H h st (merkle_root H hashes e)"
proof -
  let ?idx = "find_hash h hashes"
  let ?st = "\<lparr>b_idx = ?idx, b_branch = [], b_depth = 0, b_path = 0\<rparr>"
  have f: "?idx < length hashes" "hashes ! ?idx = h" using find_hash_less [OF assms(1)] by simp_all
  consider "length hashes = 1" | "length hashes = 2" | "3 \<le> length hashes" using f(1) by linarith
  then show ?thesis
  proof cases
    case 1
    then show ?thesis
      using f on_path_start [of H h 0] by (intro exI [of _ ?st] exI [of _ 0])
        (simp add: slots_exponent_def tree_branch_def merkle_root_def slot_def on_path_def)
  next
    case 2
    then obtain st where "branch_step hashes 0 0 ?st = Some st" "b_depth st = 1" "on_path H h st (H (hashes ! 0 @ hashes ! (0 + 1)))"
      using branch_step_on_path [of H h ?st hashes 0 0] on_path_start [of H h ?idx] f by (auto simp: less_Suc_eq numeral_2_eq_2)
    moreover from this 2 have "tree_branch H hashes h = Some (Some (b_branch st, b_depth st, b_path st))"
      using f(1) by (auto simp: tree_branch_def branch_step_def Let_def split: if_splits)
    ultimately show ?thesis
      using 2 by (intro exI [of _ st] exI [of _ 0]) (simp add: slots_exponent_def merkle_root_def slot_def)
  next
    case 3
    obtain e where e: "map_option unat (tree_hash_cnt (of_nat (length hashes))) = Some (2 ^ e)" "1 \<le> e" "e \<le> 28"
        "2 ^ e < length hashes" "length hashes \<le> 2 * 2 ^ e"
      using tree_hash_cnt_pow [OF 3 assms(2)] by blast
    then obtain r where r: "e = Suc r" by (cases e) simp_all
    let ?m = "2 * 2 ^ e - length hashes" and ?slots = "slot H hashes (2 ^ e)"
    obtain ints st where l: "leaf_branch_loop H hashes ?m ?m (2 ^ e) (fill_ints hashes (2 ^ e)) ?st = Some (length hashes, ints, st)"
        "holds H ?slots 0 (2 ^ e) ints" "b_idx st < 2 ^ e" "b_depth st \<le> 1" "on_path H h st (node H ?slots 0 (b_idx st))"
      using leaf_branch_holds [of "2 ^ e" hashes ?idx h H] e(4,5) f by auto
    obtain ints' st' where v: "branch_levels H (2 ^ e) ints st = Some (ints', st')" "holds H ?slots r 2 ints'" "b_idx st' < 2"
        "b_depth st' = b_depth st + r" "on_path H h st' (node H ?slots r (b_idx st'))"
      using branch_levels_holds [of H ?slots 0 r ints st h] l(2-5) e(3) unfolding r by auto
    have n: "ints' ! k = node H ?slots r k" if "k < 2" for k using v(2) that by (simp add: holds_def)
    have "on_path H h st' (ints' ! b_idx st')" "b_idx st' = 0 \<or> b_idx st' = 0 + 1" "0 + 1 < length ints'" "b_depth st' < 32"
      using v n l(4) e(3) r by (auto simp: holds_def)
    then obtain st2 where s: "branch_step ints' 0 0 st' = Some st2" "b_depth st2 = b_depth st' + 1"
        "on_path H h st2 (H (ints' ! 0 @ ints' ! (0 + 1)))"
      using branch_step_on_path by metis
    have "tree_branch H hashes h = Some (Some (b_branch st2, b_depth st2, b_path st2))"
      unfolding tree_branch_def Let_def e(1) using 3 f(1) l(1) v(1) s(1) by auto
    moreover have "H (ints' ! 0 @ ints' ! (0 + 1)) = merkle_root H hashes e" using n by (simp add: merkle_root_def r)
    ultimately show ?thesis
      using s e v(4) l(4) r by (intro exI [of _ st2] exI [of _ e]) (auto simp: slots_exponent_def)
  qed
qed

text \<open>The check of a branch climbs it.\<close>

lemma path_value_bit:
  "d < length bits \<Longrightarrow> path_value bits div 2 ^ (length bits - d - 1) mod 2 = of_bool (bits ! d)"
proof (induction bits rule: rev_induct)
  case (snoc b bits)
  show ?case
  proof (cases "d = length bits")
    case False
    then have d: "d < length bits" using snoc.prems by simp
    then have "length (bits @ [b]) - d - 1 = Suc (length bits - d - 1)" by simp
    then show ?thesis using snoc.IH [OF d] d by (simp add: div_mult2_eq nth_append)
  qed simp
qed simp

lemma path_bit:
  fixes path :: u32
  assumes "unat path = path_value bits" and "d < length bits"
  shows "drop_bit (length bits - d - 1) path AND 1 \<noteq> 0 \<longleftrightarrow> bits ! d"
proof -
  have "unat (drop_bit (length bits - d - 1) path AND 1) = path_value bits div 2 ^ (length bits - d - 1) mod 2"
    using unat_and_mask [of "drop_bit (length bits - d - 1) path" 1] assms(1) by (simp add: unat_drop_bit)
  then have "unat (drop_bit (length bits - d - 1) path AND 1) = of_bool (bits ! d)" using path_value_bit [OF assms(2)] by simp
  then show ?thesis by (metis of_bool_eq_0_iff unat_0 unat_eq_0)
qed

lemma branch_hash_loop_climb:
  assumes "length bits = length branch" and "length branch \<le> 32" and "unat path = path_value bits" and "d \<le> length branch"
  shows "branch_hash_loop H branch (length branch) path d x = Some (foldl (climb H) x (zip (drop d branch) (drop d bits)))"
  using assms(4)
proof (induction "length branch - d" arbitrary: d x)
  case 0
  then show ?case using assms(1) by (subst branch_hash_loop.simps) simp
next
  case (Suc n)
  then have d: "d < length branch" "d < length bits" using assms(1) by simp_all
  have "drop d branch = branch ! d # drop (Suc d) branch" "drop d bits = bits ! d # drop (Suc d) bits"
    using d by (simp_all add: Cons_nth_drop_Suc)
  then have f: "foldl (climb H) x (zip (drop d branch) (drop d bits)) =
      foldl (climb H) (climb H x (branch ! d, bits ! d)) (zip (drop (Suc d) branch) (drop (Suc d) bits))" by simp
  have "branch_hash_loop H branch (length branch) path d x =
      branch_hash_loop H branch (length branch) path (Suc d) (climb H x (branch ! d, bits ! d))"
    using d assms(2) path_bit [OF assms(3) d(2)] assms(1) by (subst branch_hash_loop.simps) (auto simp: climb_def)
  then show ?case unfolding f using Suc d by (simp add: Suc.hyps(1))
qed

lemma on_path_check:
  assumes "on_path H h st x" and "b_depth st \<le> 32"
  shows "tree_branch_hash H h (b_branch st) (b_depth st) (b_path st) = Some x"
proof -
  obtain bits where b: "b_depth st = length (b_branch st)" "length bits = length (b_branch st)" "unat (b_path st) = path_value bits"
      "foldl (climb H) h (zip (b_branch st) bits) = x" using assms(1) by (auto simp: on_path_def)
  then show ?thesis
    using branch_hash_loop_climb [OF b(2) _ b(3), of 0 H h] assms(2) by (simp add: tree_branch_hash_def)
qed

text \<open>\<open>tree_path\<close> follows the index and the path of \<open>tree_branch\<close>.\<close>

lemma branch_step_path:
  "branch_step src i j st = Some st' \<Longrightarrow> path_step i j (b_idx st, b_path st) = (b_idx st', b_path st')"
  by (auto simp: branch_step_def path_step_def Let_def split: if_splits)

lemma leaf_branch_loop_path:
  "leaf_branch_loop H hashes i j cnt ints st = Some (i', ints', st') \<Longrightarrow>
   path_loop i j cnt (b_idx st, b_path st) = (i', b_idx st', b_path st')"
proof (induction H hashes i j cnt ints st rule: leaf_branch_loop.induct)
  case (1 H hashes i j cnt ints st)
  show ?case
  proof (cases "j < cnt")
    case True
    with "1.prems" obtain st1 x ints1 where s: "branch_step hashes i j st = Some st1" "hash_pair H hashes i = Some x"
        "store ints j x = Some ints1" "leaf_branch_loop H hashes (i + 2) (j + 1) cnt ints1 st1 = Some (i', ints', st')"
      by (subst (asm) leaf_branch_loop.simps) (auto simp: bind_eq_Some_conv)
    then show ?thesis
      using "1.IH" [OF True s] branch_step_path [OF s(1)] True by (subst path_loop.simps) simp
  qed (use "1.prems" in \<open>simp add: leaf_branch_loop.simps path_loop.simps\<close>)
qed

lemma level_branch_loop_path:
  "level_branch_loop H i j cnt ints st = Some (ints', st') \<Longrightarrow>
   snd (path_loop i j cnt (b_idx st, b_path st)) = (b_idx st', b_path st')"
proof (induction H i j cnt ints st rule: level_branch_loop.induct)
  case (1 H i j cnt ints st)
  show ?case
  proof (cases "j < cnt")
    case True
    with "1.prems" obtain st1 x ints1 where s: "branch_step ints i j st = Some st1" "hash_pair H ints i = Some x"
        "store ints j x = Some ints1" "level_branch_loop H (i + 2) (j + 1) cnt ints1 st1 = Some (ints', st')"
      by (subst (asm) level_branch_loop.simps) (auto simp: bind_eq_Some_conv)
    then show ?thesis
      using "1.IH" [OF True s] branch_step_path [OF s(1)] True by (subst path_loop.simps) simp
  qed (use "1.prems" in \<open>simp add: level_branch_loop.simps path_loop.simps\<close>)
qed

lemma branch_levels_path:
  "branch_levels H cnt ints st = Some (ints', st') \<Longrightarrow> path_levels cnt (b_idx st, b_path st) = (b_idx st', b_path st')"
proof (induction H cnt ints st rule: branch_levels.induct)
  case (1 H cnt ints st)
  show ?case
  proof (cases "cnt > 2")
    case True
    with "1.prems" obtain ints1 st1 where s: "level_branch_loop H 0 0 (cnt div 2) ints st = Some (ints1, st1)"
        "branch_levels H (cnt div 2) ints1 st1 = Some (ints', st')"
      by (subst (asm) branch_levels.simps) (auto simp: bind_eq_Some_conv)
    then show ?thesis
      using "1.IH" [OF True s(1) refl s(2)] level_branch_loop_path [OF s(1)] True by (subst path_levels.simps) simp
  qed (use "1.prems" in \<open>simp add: branch_levels.simps path_levels.simps\<close>)
qed

lemma tree_branch_path:
  assumes "tree_branch H hashes h = Some (Some (branch, depth, path))"
  shows "tree_path (length hashes) (find_hash h hashes) = Some (Some path)"
proof -
  let ?idx = "find_hash h hashes"
  have z: "length hashes \<noteq> 0" "?idx \<noteq> length hashes" using assms unfolding tree_branch_def Let_def by (auto split: if_splits)
  show ?thesis
  proof (cases "length hashes = 1 \<or> length hashes = 2")
    case True
    then show ?thesis using assms z by (auto simp: tree_branch_def tree_path_def Let_def split: if_splits)
  next
    case False
    then have n: "length hashes \<noteq> 1" "length hashes \<noteq> 2" by simp_all
    define c where "c = map_option unat (tree_hash_cnt (of_nat (length hashes)))"
    from assms obtain cnt i ints st ints' st' st2 where s:
        "c = Some cnt"
        "leaf_branch_loop H hashes (2 * cnt - length hashes) (2 * cnt - length hashes) cnt (fill_ints hashes cnt)
          \<lparr>b_idx = ?idx, b_branch = [], b_depth = 0, b_path = 0\<rparr> = Some (i, ints, st)"
        "i = length hashes" "branch_levels H cnt ints st = Some (ints', st')" "branch_step ints' 0 0 st' = Some st2" "b_path st2 = path"
      unfolding tree_branch_def Let_def if_not_P [OF z(1)] if_not_P [OF z(2)] if_not_P [OF n(1)] if_not_P [OF n(2)]
        c_def [symmetric]
      by (auto simp: bind_eq_Some_conv split: if_splits)
    have "path_loop (2 * cnt - length hashes) (2 * cnt - length hashes) cnt (?idx, 0) = (length hashes, b_idx st, b_path st)"
      using leaf_branch_loop_path [OF s(2)] s(3) by simp
    then show ?thesis
      unfolding tree_path_def if_not_P [OF z(1)] if_not_P [OF n(1)] if_not_P [OF n(2)] c_def [symmetric] s(1)
      using branch_levels_path [OF s(4)] branch_step_path [OF s(5)] s(6) by simp
  qed
qed

section \<open>Binding\<close>

text \<open>
  The inputs that the hash is applied to in a tree, and in the check of a branch. A hash that maps long
  inputs to short ones has collisions, so binding is stated for the inputs at hand: two trees
  with one root that differ exhibit a collision among their inputs.
\<close>

fun node_inputs :: "(hash \<Rightarrow> hash) \<Rightarrow> (nat \<Rightarrow> hash) \<Rightarrow> nat \<Rightarrow> nat \<Rightarrow> hash list" where
  "node_inputs H slots 0 k = []"
| "node_inputs H slots (Suc d) k =
     (node H slots d (2 * k) @ node H slots d (2 * k + 1)) #
     node_inputs H slots d (2 * k) @ node_inputs H slots d (2 * k + 1)"

definition tree_inputs :: "(hash \<Rightarrow> hash) \<Rightarrow> hash list \<Rightarrow> nat \<Rightarrow> hash list" where
  "tree_inputs H hashes e =
     (let m = 2 * 2 ^ e - length hashes
      in map (\<lambda>k. hashes ! (2 * k - m) @ hashes ! (2 * k - m + 1)) [m..<2 ^ e] @
         node_inputs H (slot H hashes (2 ^ e)) e 0)"

function branch_inputs :: "(hash \<Rightarrow> hash) \<Rightarrow> hash list \<Rightarrow> nat \<Rightarrow> u32 \<Rightarrow> nat \<Rightarrow> hash \<Rightarrow> hash list" where
  "branch_inputs H branch depth path d x =
     (if d < depth
      then let buffer = (if drop_bit (depth - d - 1) path AND 1 \<noteq> 0 then branch ! d @ x else x @ branch ! d)
           in buffer # branch_inputs H branch depth path (d + 1) (H buffer)
      else [])"
  by pat_completeness auto
termination by (relation "measure (\<lambda>(_, _, depth, _, d, _). depth - d)") auto

declare branch_inputs.simps [simp del]

lemma pair_binding:
  assumes "inj_on H S" and "a @ b \<in> S" and "c @ d \<in> S" and "H (a @ b) = H (c @ d)" and "length a = length c"
  shows "a = c \<and> b = d"
  using inj_onD [OF assms(1,4,2,3)] assms(5) by simp

lemma node_binding:
  assumes "inj_on H S" and "set (node_inputs H f d k) \<subseteq> S" and "set (node_inputs H g d k) \<subseteq> S"
    and "\<And>x. length (H x) = 32" and "\<And>i. i < n \<Longrightarrow> length (f i) = 32" and "\<And>i. i < n \<Longrightarrow> length (g i) = 32"
    and "2 ^ d * Suc k \<le> n" and "node H f d k = node H g d k"
  shows "\<forall>i. 2 ^ d * k \<le> i \<and> i < 2 ^ d * Suc k \<longrightarrow> f i = g i"
  using assms(2,3,7,8)
proof (induction d arbitrary: k)
  case 0
  then show ?case by (auto simp: less_Suc_eq_le)
next
  case (Suc d)
  have b: "2 ^ d * Suc (2 * k) \<le> n" "2 ^ d * Suc (2 * k + 1) \<le> n"
    using Suc.prems(3) by (simp_all add: algebra_simps)
  have "2 * k < n" if "d = 0" using b that by simp
  then have l: "length (node H f d (2 * k)) = length (node H g d (2 * k))"
    using assms(4-6) by (cases d) simp_all
  have "node H f d (2 * k) = node H g d (2 * k) \<and> node H f d (2 * k + 1) = node H g d (2 * k + 1)"
    by (rule pair_binding [OF assms(1) _ _ _ l]) (use Suc.prems(1,2,4) in simp_all)
  moreover have "set (node_inputs H f d (2 * k)) \<subseteq> S" "set (node_inputs H g d (2 * k)) \<subseteq> S"
      "set (node_inputs H f d (2 * k + 1)) \<subseteq> S" "set (node_inputs H g d (2 * k + 1)) \<subseteq> S"
    using Suc.prems(1,2) by simp_all
  ultimately have IH: "\<forall>i. 2 ^ d * (2 * k) \<le> i \<and> i < 2 ^ d * Suc (2 * k) \<longrightarrow> f i = g i"
      "\<forall>i. 2 ^ d * (2 * k + 1) \<le> i \<and> i < 2 ^ d * Suc (2 * k + 1) \<longrightarrow> f i = g i"
    using Suc.IH [OF _ _ b(1)] Suc.IH [OF _ _ b(2)] by blast+
  show ?case
  proof (intro allI impI)
    fix i
    assume "2 ^ Suc d * k \<le> i \<and> i < 2 ^ Suc d * Suc k"
    then have "2 ^ d * (2 * k) \<le> i" "i < 2 ^ d * Suc (2 * k + 1)" by (simp_all add: algebra_simps)
    then show "f i = g i" using IH by (cases "i < 2 ^ d * Suc (2 * k)") (simp_all only: Suc_eq_plus1 not_less)
  qed
qed

lemma slot_length:
  assumes "\<forall>x \<in> set hashes. length x = 32" and "\<And>x. length (H x) = 32" and "cnt \<le> length hashes" and "k < cnt"
  shows "length (slot H hashes cnt k) = 32"
  using assms by (auto simp: slot_def Let_def)

lemma slots_binding:
  assumes "inj_on H S" and "set (tree_inputs H xs e) \<subseteq> S" and "set (tree_inputs H ys e) \<subseteq> S"
    and "\<forall>x \<in> set xs. length x = 32" and "\<forall>y \<in> set ys. length y = 32" and "length xs = length ys"
    and "2 ^ e \<le> length xs" and "length xs \<le> 2 * 2 ^ e"
    and "\<And>k. k < 2 ^ e \<Longrightarrow> slot H xs (2 ^ e) k = slot H ys (2 ^ e) k"
  shows "xs = ys"
proof (rule nth_equalityI [OF assms(6)])
  fix i
  assume i: "i < length xs"
  let ?m = "2 * 2 ^ e - length xs"
  show "xs ! i = ys ! i"
  proof (cases "i < ?m")
    case True
    then have "i < 2 ^ e" using assms(7) by simp
    then show ?thesis using assms(9) [of i] True assms(6) by (simp add: slot_def Let_def)
  next
    case False
    define k where "k = (i + ?m) div 2"
    have k: "?m \<le> k" "k < 2 ^ e" "i = 2 * k - ?m \<or> i = 2 * k - ?m + 1"
      using False i assms(8) unfolding k_def by linarith+
    then have k4: "2 * k - ?m + 1 < length xs" using assms(8) by linarith
    have "xs ! (2 * k - ?m) @ xs ! (2 * k - ?m + 1) \<in> S" "ys ! (2 * k - ?m) @ ys ! (2 * k - ?m + 1) \<in> S"
      using assms(2,3,6) k(1,2) by (auto simp: tree_inputs_def Let_def)
    moreover have "H (xs ! (2 * k - ?m) @ xs ! (2 * k - ?m + 1)) = H (ys ! (2 * k - ?m) @ ys ! (2 * k - ?m + 1))"
      using assms(9) [OF k(2)] k(1) assms(6) by (simp add: slot_def Let_def)
    moreover have "length (xs ! (2 * k - ?m)) = length (ys ! (2 * k - ?m))" using assms(4-6) k4 by simp
    ultimately have "xs ! (2 * k - ?m) = ys ! (2 * k - ?m) \<and> xs ! (2 * k - ?m + 1) = ys ! (2 * k - ?m + 1)"
      by (rule pair_binding [OF assms(1)])
    then show ?thesis using k(3) by auto
  qed
qed

lemma branch_binding:
  assumes "inj_on H S" and "\<And>x. length (H x) = 32" and "\<forall>b \<in> set br \<union> set br'. length b = 32"
    and "branch_hash_loop H br depth path d x = Some r" and "branch_hash_loop H br' depth path d x' = Some r"
    and "set (branch_inputs H br depth path d x) \<subseteq> S" and "set (branch_inputs H br' depth path d x') \<subseteq> S"
    and "length x = 32" and "length x' = 32"
  shows "x = x' \<and> (\<forall>i. d \<le> i \<and> i < depth \<longrightarrow> br ! i = br' ! i)"
  using assms(4-9)
proof (induction "depth - d" arbitrary: d x x')
  case 0
  then show ?case by (auto simp: branch_hash_loop.simps [of _ _ _ _ d])
next
  case (Suc n)
  have d: "d < depth" using Suc.hyps(2) by simp
  let ?b = "drop_bit (depth - d - 1) path AND 1 \<noteq> 0"
  let ?y = "if ?b then br ! d @ x else x @ br ! d" and ?y' = "if ?b then br' ! d @ x' else x' @ br' ! d"
  have l: "d < length br" "branch_hash_loop H br depth path (Suc d) (H ?y) = Some r"
    and l': "d < length br'" "branch_hash_loop H br' depth path (Suc d) (H ?y') = Some r"
    using Suc.prems(1,2) d by (simp_all add: branch_hash_loop.simps [of _ _ _ _ d] if_distrib split: if_splits)
  have q: "branch_inputs H br depth path d x = ?y # branch_inputs H br depth path (Suc d) (H ?y)"
      "branch_inputs H br' depth path d x' = ?y' # branch_inputs H br' depth path (Suc d) (H ?y')"
    using d by (simp_all only: branch_inputs.simps [of _ _ _ _ d] if_True Let_def Suc_eq_plus1)
  have IH: "H ?y = H ?y' \<and> (\<forall>i. Suc d \<le> i \<and> i < depth \<longrightarrow> br ! i = br' ! i)"
    by (rule Suc.hyps(1) [OF _ l(2) l'(2)]) (use Suc.hyps(2) Suc.prems(3,4) q assms(2) in auto)
  have "?y = ?y'" using inj_onD [OF assms(1), of ?y ?y'] IH Suc.prems(3,4) q by auto
  moreover have "length (br ! d) = 32" "length (br' ! d) = 32" using assms(3) l(1) l'(1) by auto
  ultimately have "x = x' \<and> br ! d = br' ! d" using Suc.prems(5,6) by (simp split: if_splits)
  then show ?case using IH by (metis Suc_leI le_neq_implies_less)
qed

section \<open>Properties\<close>

text \<open>
  C4: The root. For up to \<open>2 ^ 28\<close> hashes, the code's own limit, the loops end, every access to the buffer is
  in bounds, no assertion fails, and the levels computed in place give the root of the tree over the
  largest power of two below the number of leaves.
\<close>

theorem tree_hash_correct:
  assumes "0 < length hashes" and "length hashes \<le> 2 ^ 28"
  shows "\<exists>e. slots_exponent e (length hashes) \<and> tree_hash cn_fast_hash hashes = Some (merkle_root cn_fast_hash hashes e)"
  using tree_hash_root [OF assms] by blast

theorem tree_hash_correct_witness:
  "\<exists>e. slots_exponent e 3 \<and> tree_hash (\<lambda>x. x) [[1], [2], [3]] = Some (merkle_root (\<lambda>x. x) [[1], [2], [3]] e)"
  using tree_hash_correct [of "[[1], [2], [3]]" "\<lambda>x. x"] by (simp add: numeral_3_eq_3)

text \<open>
  C9: Branches. A hash of the list has a branch, which \<open>is_branch_in_tree\<close> accepts for the root and
  whose path is that of \<open>tree_path\<close>; for another hash \<open>tree_branch\<close> reports failure.
\<close>

theorem tree_branch_verifies:
  assumes "length hashes \<le> 2 ^ 28"
  shows "if h \<in> set hashes
    then \<exists>branch depth path root. tree_branch cn_fast_hash hashes h = Some (Some (branch, depth, path)) \<and>
      tree_path (length hashes) (find_hash h hashes) = Some (Some path) \<and>
      tree_hash cn_fast_hash hashes = Some root \<and> is_branch_in_tree cn_fast_hash h root branch depth path = Some True
    else tree_branch cn_fast_hash hashes h = Some None"
proof (cases "h \<in> set hashes")
  case True
  obtain st e where st: "slots_exponent e (length hashes)"
      "tree_branch cn_fast_hash hashes h = Some (Some (b_branch st, b_depth st, b_path st))" "b_depth st \<le> 32"
      "on_path cn_fast_hash h st (merkle_root cn_fast_hash hashes e)"
    using tree_branch_on_path [OF True assms] by blast
  have "0 < length hashes" using True by auto
  then have "tree_hash cn_fast_hash hashes = Some (merkle_root cn_fast_hash hashes e)"
    using tree_hash_root [OF _ assms] slots_exponent_unique [OF st(1)] by blast
  then show ?thesis
    using True st(2) tree_branch_path [OF st(2)] on_path_check [OF st(4,3)] by (auto simp: is_branch_in_tree_def)
next
  case False
  then show ?thesis by (simp add: tree_branch_def find_hash_none Let_def)
qed

theorem tree_branch_verifies_witness:
  "\<exists>branch depth path root. tree_branch (\<lambda>x. x) [[1], [2], [3]] [3] = Some (Some (branch, depth, path)) \<and>
     tree_hash (\<lambda>x. x) [[1], [2], [3]] = Some root \<and> is_branch_in_tree (\<lambda>x. x) [3] root branch depth path = Some True"
  using tree_branch_verifies [of "[[1], [2], [3]]" "[3]" "\<lambda>x. x"] by auto

text \<open>
  C12: A root fixes its leaves. Two lists of hashes of the same length with the same root are equal, unless
  the hash collides on two of the inputs in their trees.
\<close>

theorem tree_root_binding:
  assumes "tree_hash cn_fast_hash xs = Some root" and "tree_hash cn_fast_hash ys = Some root"
    and "length xs = length ys" and "0 < length xs" and "length xs \<le> 2 ^ 28"
    and "\<forall>x \<in> set xs \<union> set ys. length x = 32" and "\<And>x. length (cn_fast_hash x) = 32"
    and "\<And>e. slots_exponent e (length xs) \<Longrightarrow>
      inj_on cn_fast_hash (set (tree_inputs cn_fast_hash xs e) \<union> set (tree_inputs cn_fast_hash ys e))"
  shows "xs = ys"
proof -
  obtain e where e: "slots_exponent e (length xs)" "tree_hash cn_fast_hash xs = Some (merkle_root cn_fast_hash xs e)"
    using tree_hash_root [OF assms(4,5)] by blast
  have "tree_hash cn_fast_hash ys = Some (merkle_root cn_fast_hash ys e)"
    using tree_hash_root [of ys] assms(3-5) slots_exponent_unique [OF e(1)] by metis
  then have r: "node cn_fast_hash (slot cn_fast_hash xs (2 ^ e)) e 0 = node cn_fast_hash (slot cn_fast_hash ys (2 ^ e)) e 0"
    using assms(1,2) e(2) by (simp add: merkle_root_def)
  have b: "2 ^ e \<le> length xs" "length xs \<le> 2 * 2 ^ e" using e(1) by (auto simp: slots_exponent_def)
  let ?S = "set (tree_inputs cn_fast_hash xs e) \<union> set (tree_inputs cn_fast_hash ys e)"
  have "\<forall>i. 2 ^ e * 0 \<le> i \<and> i < 2 ^ e * Suc 0 \<longrightarrow> slot cn_fast_hash xs (2 ^ e) i = slot cn_fast_hash ys (2 ^ e) i"
    by (rule node_binding [where n = "2 ^ e", OF assms(8) [OF e(1)] _ _ assms(7) slot_length slot_length _ r])
      (use assms(3,6,7) b in \<open>auto simp: tree_inputs_def Let_def\<close>)
  then show ?thesis
    using slots_binding [OF assms(8) [OF e(1)] Un_upper1 Un_upper2 _ _ assms(3) b] assms(6) by simp
qed

theorem tree_root_binding_witness:
  "tree_hash (\<lambda>x. replicate 32 5) [replicate 32 1, replicate 32 2] = Some (replicate 32 5) \<and>
   [replicate 32 1, replicate 32 2 :: hash] = [replicate 32 1, replicate 32 2]"
proof -
  let ?H = "\<lambda>x :: hash. replicate 32 5 :: hash" and ?xs = "[replicate 32 1, replicate 32 2] :: hash list"
  have t: "tree_hash ?H ?xs = Some (replicate 32 5)" by (simp add: tree_hash_def hash_pair_def)
  have "slots_exponent 0 (length ?xs)" by (simp add: slots_exponent_def)
  then have "e = 0" if "slots_exponent e (length ?xs)" for e using slots_exponent_unique that by blast
  then have "inj_on ?H (set (tree_inputs ?H ?xs e) \<union> set (tree_inputs ?H ?xs e))" if "slots_exponent e (length ?xs)" for e
    using that by (force simp: tree_inputs_def)
  from tree_root_binding [OF t t _ _ _ _ _ this] t show ?thesis by simp
qed

text \<open>
  C18: A position fixes the hash that can be proved there. Two branches that \<open>is_branch_in_tree\<close> accepts for
  one root, depth and path prove the same hash with the same siblings, unless the hash
  collides on two of the inputs of the checks.
\<close>

theorem branch_position_binding:
  assumes "is_branch_in_tree cn_fast_hash h root br depth path = Some True"
    and "is_branch_in_tree cn_fast_hash h' root br' depth path = Some True"
    and "length h = 32" and "length h' = 32" and "\<forall>b \<in> set br \<union> set br'. length b = 32"
    and "\<And>x. length (cn_fast_hash x) = 32"
    and "inj_on cn_fast_hash (set (branch_inputs cn_fast_hash br depth path 0 h) \<union> set (branch_inputs cn_fast_hash br' depth path 0 h'))"
  shows "h = h' \<and> (\<forall>i < depth. br ! i = br' ! i)"
  using branch_binding [OF assms(7,6,5) _ _ _ _ assms(3,4), of depth path 0 root] assms(1,2)
  by (auto simp: is_branch_in_tree_def tree_branch_hash_def)

theorem branch_position_binding_witness:
  "is_branch_in_tree (\<lambda>x. replicate 32 5) (replicate 32 1) (replicate 32 5) [replicate 32 2] 1 0 = Some True \<and>
   [replicate 32 2 :: hash] ! 0 = [replicate 32 2] ! 0"
proof -
  let ?H = "\<lambda>x :: hash. replicate 32 5 :: hash" and ?br = "[replicate 32 2] :: hash list"
  have t: "is_branch_in_tree ?H (replicate 32 1) (replicate 32 5) ?br 1 0 = Some True" by code_simp
  have "branch_inputs ?H ?br 1 0 0 (replicate 32 1) = [replicate 32 1 @ replicate 32 2]" by code_simp
  then show ?thesis using branch_position_binding [OF t t] t by simp
qed

end
