(* ===== verification/Mnemonics.thy ===== *)
theory Mnemonics
  imports Varint "HOL-Library.AList"
begin

text \<open>
  Seed words: \<open>mnemonics/electrum-words.cpp\<close> and \<open>language_base.h\<close>, with the splitting of \<open>wipeable_string\<close> and
  the case folding of \<open>common/utf8.h\<close>. Texts are lists of bytes. A language is its word list with the two
  maps that \<open>populate_maps\<close> builds; the lists themselves are data and parameters, as are the CRC of
  Boost and \<open>towlower\<close>. Every refusal, exception and trap is a value of \<open>seed_error\<close>. The lemmas
  show that three words are a code for 32 bits, that a printed seed is read back, and what becomes of
  seeds of twelve words.
\<close>

section \<open>Definitions\<close>

datatype seed_error =
  Not_multiple_of_4 | Unexpected_number_of_words | Language_not_found | Invalid_checksum | Mumble_mumble |
  Wrong_output_size | Wrong_word_list_length | Too_short_word | Duplicate_prefix | Word_not_found |
  Invalid_UTF8 | Division_by_zero

definition rbind :: "'e + 'a \<Rightarrow> ('a \<Rightarrow> 'e + 'b) \<Rightarrow> 'e + 'b" where
  "rbind r f = (case r of Inl e \<Rightarrow> Inl e | Inr x \<Rightarrow> f x)"

subsection \<open>Bytes and characters\<close>

definition isspace :: "u8 \<Rightarrow> bool" where
  "isspace c \<longleftrightarrow> c = 32 \<or> 9 \<le> c \<and> c \<le> 13"

fun split_loop :: "bool \<Rightarrow> u8 list \<Rightarrow> u8 list list \<Rightarrow> u8 list list" where
  "split_loop space_prev [] fields = fields"
| "split_loop space_prev (c # cs) fields =
     (if \<not> isspace c
      then let fields = (if space_prev then fields @ [[]] else fields)
           in split_loop False cs (butlast fields @ [last fields @ [c]])
      else split_loop True cs fields)"

definition split :: "u8 list \<Rightarrow> u8 list list" where
  "split s = split_loop True s []"

definition continuation :: "u8 \<Rightarrow> bool" where
  "continuation b \<longleftrightarrow> b AND 0xc0 = 0x80"

function utf8prefix :: "u8 list \<Rightarrow> nat \<Rightarrow> u8 list" where
  "utf8prefix s 0 = []"
| "utf8prefix [] (Suc n) = []"
| "utf8prefix (b # bs) (Suc n) = b # takeWhile continuation bs @ utf8prefix (dropWhile continuation bs) n"
  by pat_completeness auto
termination by (relation "measure snd") auto

text \<open>One code point read and written; the continuation bytes are not looked at.\<close>

definition utf8_read :: "u8 list \<Rightarrow> (u32 \<times> u8 list) option" where
  "utf8_read s =
     (case s of
        [] \<Rightarrow> None
      | b # bs \<Rightarrow>
          if b AND 0x80 = 0 then Some (ucast b, bs)
          else if b AND 0xe0 = 0xc0 then
            (case bs of
               b1 # r \<Rightarrow> Some (push_bit 6 (ucast (b AND 0x1f)) OR ucast (b1 AND 0x3f), r)
             | _ \<Rightarrow> None)
          else if b AND 0xf0 = 0xe0 then
            (case bs of
               b1 # b2 # r \<Rightarrow> Some (push_bit 12 (ucast (b AND 0xf)) OR push_bit 6 (ucast (b1 AND 0x3f)) OR ucast (b2 AND 0x3f), r)
             | _ \<Rightarrow> None)
          else if b AND 0xf8 = 0xf0 then
            (case bs of
               b1 # b2 # b3 # r \<Rightarrow> Some (push_bit 18 (ucast (b AND 0x7)) OR push_bit 12 (ucast (b1 AND 0x3f)) OR
                 push_bit 6 (ucast (b2 AND 0x3f)) OR ucast (b3 AND 0x3f), r)
             | _ \<Rightarrow> None)
          else None)"

definition utf8_write :: "u32 \<Rightarrow> u8 list option" where
  "utf8_write cp =
     (if cp \<le> 0x7f then Some [ucast cp]
      else if cp \<le> 0x7ff then Some [0xc0 OR ucast (drop_bit 6 cp), 0x80 OR ucast (cp AND 0x3f)]
      else if cp \<le> 0xffff then
        Some [0xe0 OR ucast (drop_bit 12 cp), 0x80 OR ucast (drop_bit 6 cp AND 0x3f), 0x80 OR ucast (cp AND 0x3f)]
      else if cp \<le> 0x10ffff then
        Some [0xf0 OR ucast (drop_bit 18 cp), 0x80 OR ucast (drop_bit 12 cp AND 0x3f),
              0x80 OR ucast (drop_bit 6 cp AND 0x3f), 0x80 OR ucast (cp AND 0x3f)]
      else None)"

lemma utf8_read_shorter: "utf8_read s = Some (cp, r) \<Longrightarrow> length r < length s"
  by (auto simp: utf8_read_def split: list.splits if_splits)

function utf8canonical :: "(u32 \<Rightarrow> u32) \<Rightarrow> u8 list \<Rightarrow> u8 list option" where
  "utf8canonical t s =
     (if s = [] then Some []
      else Option.bind (utf8_read s) (\<lambda>(cp, r).
           Option.bind (utf8_write (t cp)) (\<lambda>out.
           map_option ((@) out) (utf8canonical t r))))"
  by pat_completeness auto
termination by (relation "measure (\<lambda>(_, s). length s)") (auto dest: utf8_read_shorter)

declare utf8canonical.simps [simp del]

text \<open>The key under which the hash tables with \<open>WordHash\<close> and \<open>WordEqual\<close> hold a word.\<close>

definition word_key :: "(u32 \<Rightarrow> u32) \<Rightarrow> u8 list \<Rightarrow> seed_error + u8 list" where
  "word_key towlower w = (case utf8canonical towlower w of None \<Rightarrow> Inl Invalid_UTF8 | Some c \<Rightarrow> Inr c)"

subsection \<open>Languages\<close>

text \<open>The maps go from keys to indices; the trimmed map also has the word first inserted under the key.\<close>

record language =
  word_list :: "u8 list list"
  word_map :: "(u8 list \<times> nat) list"
  trimmed_word_map :: "(u8 list \<times> (u8 list \<times> nat)) list"
  language_name :: "u8 list"
  english_language_name :: "u8 list"
  unique_prefix_length :: nat

definition NWORDS :: nat where
  "NWORDS = 1626"

definition trim_word :: "nat \<Rightarrow> u8 list \<Rightarrow> u8 list" where
  "trim_word n w = (if length w > n then utf8prefix w n else w)"

text \<open>The flags are \<open>ALLOW_SHORT_WORDS\<close> and \<open>ALLOW_DUPLICATE_PREFIXES\<close>.\<close>

fun populate_loop :: "(u32 \<Rightarrow> u32) \<Rightarrow> bool \<Rightarrow> bool \<Rightarrow> u8 list list \<Rightarrow> nat \<Rightarrow> language \<Rightarrow> seed_error + language" where
  "populate_loop towlower short dup [] ii l = Inr l"
| "populate_loop towlower short dup (w # ws) ii l =
     rbind (word_key towlower w) (\<lambda>c.
     if length w < unique_prefix_length l \<and> \<not> short then Inl Too_short_word
     else let trimmed = trim_word (unique_prefix_length l) w in
     rbind (word_key towlower trimmed) (\<lambda>tc.
     let old = map_of (trimmed_word_map l) tc in
     if old \<noteq> None \<and> \<not> dup then Inl Duplicate_prefix
     else populate_loop towlower short dup ws (Suc ii)
       (l\<lparr>word_map := AList.update c ii (word_map l),
          trimmed_word_map := AList.update tc (case old of Some (k, _) \<Rightarrow> (k, ii) | None \<Rightarrow> (trimmed, ii)) (trimmed_word_map l)\<rparr>)))"

definition populate_maps :: "(u32 \<Rightarrow> u32) \<Rightarrow> bool \<Rightarrow> bool \<Rightarrow> language \<Rightarrow> seed_error + language" where
  "populate_maps towlower short dup l =
     (if length (word_list l) \<noteq> NWORDS then Inl Wrong_word_list_length
      else populate_loop towlower short dup (word_list l) 0 l)"

definition find_word :: "(u32 \<Rightarrow> u32) \<Rightarrow> language \<Rightarrow> u8 list \<Rightarrow> seed_error + nat option" where
  "find_word towlower l w = rbind (word_key towlower w) (\<lambda>c. Inr (map_of (word_map l) c))"

definition find_trimmed :: "(u32 \<Rightarrow> u32) \<Rightarrow> language \<Rightarrow> u8 list \<Rightarrow> seed_error + (u8 list \<times> nat) option" where
  "find_trimmed towlower l w =
     rbind (word_key towlower (utf8prefix w (unique_prefix_length l))) (\<lambda>c. Inr (map_of (trimmed_word_map l) c))"

subsection \<open>Checksum\<close>

fun trimmed_words :: "(u32 \<Rightarrow> u32) \<Rightarrow> language \<Rightarrow> u8 list list \<Rightarrow> seed_error + u8 list" where
  "trimmed_words towlower l [] = Inr []"
| "trimmed_words towlower l (w # ws) =
     rbind (find_trimmed towlower l w) (\<lambda>r.
       case r of None \<Rightarrow> Inl Word_not_found
       | Some (k, _) \<Rightarrow> rbind (trimmed_words towlower l ws) (\<lambda>ks. Inr (k @ ks)))"

definition create_checksum_index ::
  "(u32 \<Rightarrow> u32) \<Rightarrow> (u8 list \<Rightarrow> u32) \<Rightarrow> u8 list list \<Rightarrow> language \<Rightarrow> seed_error + nat" where
  "create_checksum_index towlower crc ws l =
     rbind (trimmed_words towlower l ws) (\<lambda>t.
       if length ws = 0 then Inl Division_by_zero else Inr (unat (crc t) mod length ws))"

definition checksum_test :: "(u32 \<Rightarrow> u32) \<Rightarrow> (u8 list \<Rightarrow> u32) \<Rightarrow> u8 list list \<Rightarrow> language \<Rightarrow> seed_error + bool" where
  "checksum_test towlower crc seed l =
     (if seed = [] then Inr False
      else let last_word = last seed; seed = butlast seed in
        rbind (create_checksum_index towlower crc seed l) (\<lambda>idx.
        rbind (word_key towlower (trim_word (unique_prefix_length l) (seed ! idx))) (\<lambda>a.
        rbind (word_key towlower (trim_word (unique_prefix_length l) last_word)) (\<lambda>b. Inr (a = b)))))"

subsection \<open>From words to bytes\<close>

fun match_words :: "(u32 \<Rightarrow> u32) \<Rightarrow> bool \<Rightarrow> language \<Rightarrow> u8 list list \<Rightarrow> seed_error + nat list option" where
  "match_words towlower has_checksum l [] = Inr (Some [])"
| "match_words towlower has_checksum l (w # ws) =
     rbind (if has_checksum then rbind (find_trimmed towlower l w) (\<lambda>r. Inr (map_option snd r))
            else find_word towlower l w) (\<lambda>r.
       case r of None \<Rightarrow> Inr None
       | Some i \<Rightarrow> rbind (match_words towlower has_checksum l ws) (\<lambda>is. Inr (map_option ((#) i) is)))"

datatype match = Full_match "nat list" | Bad_checksum | No_match

definition try_language ::
  "(u32 \<Rightarrow> u32) \<Rightarrow> (u8 list \<Rightarrow> u32) \<Rightarrow> bool \<Rightarrow> u8 list list \<Rightarrow> language \<Rightarrow> seed_error + match" where
  "try_language towlower crc has_checksum seed l =
     rbind (match_words towlower has_checksum l seed) (\<lambda>r.
       case r of None \<Rightarrow> Inr No_match
       | Some matched \<Rightarrow>
           if has_checksum then rbind (checksum_test towlower crc seed l) (\<lambda>ok.
             Inr (if ok then Full_match matched else Bad_checksum))
           else Inr (Full_match matched))"

fun find_seed_language ::
  "(u32 \<Rightarrow> u32) \<Rightarrow> (u8 list \<Rightarrow> u32) \<Rightarrow> u8 list list \<Rightarrow> bool \<Rightarrow> language list \<Rightarrow> language option \<Rightarrow>
   seed_error + (language \<times> nat list)" where
  "find_seed_language towlower crc seed has_checksum [] fallback =
     (case fallback of Some l \<Rightarrow> Inr (l, []) | None \<Rightarrow> Inl Language_not_found)"
| "find_seed_language towlower crc seed has_checksum (l # ls) fallback =
     rbind (try_language towlower crc has_checksum seed l) (\<lambda>m.
       case m of Full_match matched \<Rightarrow> Inr (l, matched)
       | Bad_checksum \<Rightarrow> find_seed_language towlower crc seed has_checksum ls (Some l)
       | No_match \<Rightarrow> find_seed_language towlower crc seed has_checksum ls fallback)"

text \<open>Three words to 32 bits, in 32-bit arithmetic, and the bytes of a number, least significant first.\<close>

definition words_to_number :: "u32 \<Rightarrow> u32 \<times> u32 \<times> u32 \<Rightarrow> u32 option" where
  "words_to_number n = (\<lambda>(w1, w2, w3).
     let w0 = w1 + n * (((n - w1) + w2) mod n) + n * n * (((n - w2) + w3) mod n)
     in if w0 mod n \<noteq> w1 then None else Some w0)"

definition le_bytes32 :: "u32 \<Rightarrow> u8 list" where
  "le_bytes32 w = [ucast w, ucast (drop_bit 8 w), ucast (drop_bit 16 w), ucast (drop_bit 24 w)]"

fun triples_to_bytes :: "u32 \<Rightarrow> nat list \<Rightarrow> seed_error + u8 list" where
  "triples_to_bytes n (i # j # k # is) =
     (case words_to_number n (of_nat i, of_nat j, of_nat k) of
        None \<Rightarrow> Inl Mumble_mumble
      | Some w0 \<Rightarrow> rbind (triples_to_bytes n is) (\<lambda>bs. Inr (le_bytes32 w0 @ bs)))"
| "triples_to_bytes n is = Inr []"

definition words_to_bytes ::
  "(u32 \<Rightarrow> u32) \<Rightarrow> (u8 list \<Rightarrow> u32) \<Rightarrow> language list \<Rightarrow> u8 list \<Rightarrow> u8 list \<Rightarrow> nat \<Rightarrow> bool \<Rightarrow>
   seed_error + (u8 list \<times> u8 list)" where
  "words_to_bytes towlower crc languages words dst len duplicate =
     (let seed = split words; expected = len * 8 * 3 div 32 in
      if len mod 4 \<noteq> 0 then Inl Not_multiple_of_4
      else if len \<noteq> 0 \<and> length seed \<noteq> expected div 2 \<and> length seed \<noteq> expected \<and> length seed \<noteq> expected + 1
      then Inl Unexpected_number_of_words
      else let has_checksum = (if len \<noteq> 0 then length seed = expected + 1 else True) in
        rbind (find_seed_language towlower crc seed has_checksum languages None) (\<lambda>(l, matched).
        rbind (if has_checksum then rbind (checksum_test towlower crc seed l) (\<lambda>ok.
                 if ok then Inr (butlast seed) else Inl Invalid_checksum)
               else Inr seed) (\<lambda>seed.
        rbind (triples_to_bytes (of_nat (length (word_list l))) (take (3 * (length seed div 3)) matched)) (\<lambda>bs.
        let dst = dst @ bs;
            dst = (if len > 0 \<and> duplicate \<and> length seed = (len * 3 div 32) div 2 then dst @ dst else dst)
        in Inr (dst, language_name l)))))"

definition words_to_bytes_key ::
  "(u32 \<Rightarrow> u32) \<Rightarrow> (u8 list \<Rightarrow> u32) \<Rightarrow> language list \<Rightarrow> u8 list \<Rightarrow> seed_error + (u8 list \<times> u8 list)" where
  "words_to_bytes_key towlower crc languages words =
     rbind (words_to_bytes towlower crc languages words [] 32 True) (\<lambda>(s, name).
       if length s \<noteq> 32 then Inl Wrong_output_size else Inr (s, name))"

subsection \<open>From bytes to words\<close>

definition number_to_words :: "u32 \<Rightarrow> u32 \<Rightarrow> u32 \<times> u32 \<times> u32" where
  "number_to_words n w0 =
     (let w1 = w0 mod n;
          w2 = (w0 div n + w1) mod n;
          w3 = (w0 div n div n + w2) mod n
      in (w1, w2, w3))"

fun le_word32 :: "u8 list \<Rightarrow> u32" where
  "le_word32 [] = 0"
| "le_word32 (b # bs) = ucast b + 256 * le_word32 bs"

fun bytes_loop :: "u8 list list \<Rightarrow> u8 list \<Rightarrow> nat \<Rightarrow> u8 list \<Rightarrow> u8 list list \<Rightarrow> u8 list \<times> u8 list list" where
  "bytes_loop ws src 0 words words_store = (words, words_store)"
| "bytes_loop ws src (Suc k) words words_store =
     (case number_to_words (of_nat (length ws)) (le_word32 (take 4 src)) of (w1, w2, w3) \<Rightarrow>
        let a = ws ! unat w1; b = ws ! unat w2; c = ws ! unat w3
        in bytes_loop ws (drop 4 src) k (words @ a @ [32] @ b @ [32] @ c @ [32]) (words_store @ [a, b, c]))"

text \<open>The last language of the list with the name, in either form.\<close>

definition pick_language :: "language list \<Rightarrow> u8 list \<Rightarrow> language option" where
  "pick_language languages name =
     foldl (\<lambda>r l. if name = language_name l \<or> name = english_language_name l then Some l else r) None languages"

text \<open>\<open>Inr None\<close> is the result false.\<close>

definition bytes_to_words ::
  "(u32 \<Rightarrow> u32) \<Rightarrow> (u8 list \<Rightarrow> u32) \<Rightarrow> language list \<Rightarrow> u8 list \<Rightarrow> u8 list \<Rightarrow> u8 list \<Rightarrow> seed_error + u8 list option" where
  "bytes_to_words towlower crc languages src words name =
     (if length src mod 4 \<noteq> 0 \<or> length src = 0 then Inr None
      else case pick_language languages name of
        None \<Rightarrow> Inr None
      | Some l \<Rightarrow>
          let (words, words_store) = bytes_loop (word_list l) src (length src div 4) words []
          in rbind (create_checksum_index towlower crc words_store l) (\<lambda>i. Inr (Some (words @ words_store ! i))))"

definition seed_length :: nat where
  "seed_length = 24"

definition get_is_old_style_seed :: "u8 list \<Rightarrow> bool" where
  "get_is_old_style_seed seed \<longleftrightarrow> length (split seed) \<noteq> seed_length + 1"

definition get_language_names :: "language list \<Rightarrow> u8 list list \<Rightarrow> bool \<Rightarrow> u8 list list" where
  "get_language_names language_instances languages english =
     languages @ map (if english then english_language_name else language_name) language_instances"

definition get_english_name_for :: "language list \<Rightarrow> u8 list \<Rightarrow> u8 list" where
  "get_english_name_for language_instances name =
     (case find (\<lambda>l. language_name l = name) language_instances of
        Some l \<Rightarrow> english_language_name l
      | None \<Rightarrow> map of_char ''<language not found>'')"

definition is_valid_language :: "language list \<Rightarrow> u8 list \<Rightarrow> bool" where
  "is_valid_language languages name \<longleftrightarrow>
     list_ex (\<lambda>l. english_language_name l = name \<or> language_name l = name) languages"

section \<open>Three words and 32 bits\<close>

text \<open>The number that three indices stand for; it can be above 32 bits.\<close>

definition triple_value :: "nat \<Rightarrow> nat \<Rightarrow> nat \<Rightarrow> nat" where
  "triple_value i j k = i + 1626 * ((1626 - i + j) mod 1626 + 1626 * ((1626 - j + k) mod 1626))"

lemma triple_value_less:
  assumes "i < 1626"
  shows "triple_value i j k < 4300000000"
proof -
  have "i + 1626 * (a + 1626 * b) < 4300000000" if "a \<le> 1625" and "b \<le> 1625" for a b :: nat
  proof -
    have "a + 1626 * b \<le> 1625 + 1626 * 1625" using that by (intro add_mono mult_le_mono2)
    then have "1626 * (a + 1626 * b) \<le> 1626 * (1625 + 1626 * 1625)" by (rule mult_le_mono2)
    then have "i + 1626 * (a + 1626 * b) \<le> 1626 + 1626 * (1625 + 1626 * 1625)" using assms by (intro add_mono) simp_all
    then show ?thesis by simp
  qed
  then show ?thesis unfolding triple_value_def by (simp add: less_Suc_eq_le [symmetric])
qed

lemma unat_index_diff:
  assumes "unat (v :: u32) < 1626" and "unat (w :: u32) < 1626"
  shows "unat ((1626 - v + w) mod 1626) = (1626 - unat v + unat w) mod 1626"
proof -
  have d: "unat (1626 - v) = 1626 - unat v" using assms(1) by (subst unat_diff_le) (simp_all add: word_le_nat_alt)
  then have "unat (1626 - v + w) = 1626 - unat v + unat w"
    using assms by (subst unat_add_no_overflow) simp_all
  then show ?thesis by (simp add: unat_mod_distrib)
qed

lemma words_to_number_value:
  assumes "unat w1 < 1626" and "unat w2 < 1626" and "unat w3 < 1626"
  defines "v \<equiv> triple_value (unat w1) (unat w2) (unat w3)"
  shows "words_to_number 1626 (w1, w2, w3) = (if v < 2 ^ 32 then Some (of_nat v) else None)"
proof -
  let ?a = "(1626 - w1 + w2) mod 1626 :: u32" and ?b = "(1626 - w2 + w3) mod 1626 :: u32"
  define w0 where "w0 = w1 + 1626 * ?a + 1626 * 1626 * ?b"
  have "v = unat w1 + 1626 * unat ?a + 1626 * 1626 * unat ?b"
    unfolding v_def triple_value_def unat_index_diff [OF assms(1,2)] unat_index_diff [OF assms(2,3)] by simp
  then have w0: "w0 = of_nat v" by (simp add: w0_def)
  then have u: "unat w0 = v mod 4294967296" by (simp add: unat_of_nat)
  have v1: "v mod 1626 = unat w1"
  proof -
    have "v mod 1626 = unat w1 mod 1626" unfolding v_def triple_value_def by (simp only: mod_mult_self2)
    then show ?thesis using assms(1) by simp
  qed
  have "w0 mod 1626 = w1 \<longleftrightarrow> v < 4294967296"
  proof (cases "v < 4294967296")
    case True
    then show ?thesis using u v1 by (simp add: word_unat_eq_iff unat_mod_distrib)
  next
    case False
    have "v < 4300000000" unfolding v_def using assms(1) by (rule triple_value_less)
    then have "v mod 4294967296 = v - 4294967296" using False by (simp add: mod_if)
    moreover have "(v - 4294967296) mod 1626 \<noteq> v mod 1626"
    proof
      assume "(v - 4294967296) mod 1626 = v mod 1626"
      then have "1626 dvd v - (v - 4294967296)" by (metis diff_le_self mod_eq_dvd_iff_nat)
      then show False using False by simp
    qed
    ultimately show ?thesis using False u v1 by (simp add: word_unat_eq_iff unat_mod_distrib)
  qed
  then show ?thesis unfolding words_to_number_def prod.case Let_def w0_def [symmetric] using w0 by simp
qed

lemma mod_back:
  assumes "i < (n :: nat)"
  shows "(n - i + (q + i) mod n) mod n = q mod n"
proof -
  have "(n - i + (q + i) mod n) mod n = (n - i + (q + i)) mod n" by (rule mod_add_right_eq)
  also have "n - i + (q + i) = q + n" using assms by simp
  finally show ?thesis by simp
qed

lemma number_to_words_unat:
  assumes "number_to_words 1626 w0 = (w1, w2, w3)"
  defines "q \<equiv> unat w0 div 1626"
  shows "unat w1 = unat w0 mod 1626" and "unat w2 = (q + unat w1) mod 1626" and "unat w3 = (q div 1626 + unat w2) mod 1626"
proof -
  have q: "unat (w0 div 1626) = q" "unat (w0 div 1626 div 1626) = q div 1626" by (simp_all add: q_def unat_div_distrib)
  have b: "q \<le> 2641431" using div_le_mono [OF unat_lt_32 [of w0, THEN less_imp_le], of 1626] unfolding q_def by simp
  have w: "w1 = w0 mod 1626" "w2 = (w0 div 1626 + w1) mod 1626" "w3 = (w0 div 1626 div 1626 + w2) mod 1626"
    using assms(1) by (auto simp: number_to_words_def Let_def)
  show u1: "unat w1 = unat w0 mod 1626" by (simp add: w unat_mod_distrib)
  have "unat w1 < 1626" unfolding u1 by simp
  then have "unat (w0 div 1626 + w1) = q + unat w1" using q b by (subst unat_add_no_overflow) simp_all
  then show u2: "unat w2 = (q + unat w1) mod 1626" by (simp add: w(2) unat_mod_distrib)
  have "unat w2 < 1626" unfolding u2 by simp
  then have "unat (w0 div 1626 div 1626 + w2) = q div 1626 + unat w2"
    using q b div_le_dividend [of q 1626] by (subst unat_add_no_overflow) simp_all
  then show "unat w3 = (q div 1626 + unat w2) mod 1626" by (simp add: w(3) unat_mod_distrib)
qed

lemma number_to_words_less:
  assumes "number_to_words 1626 w0 = (w1, w2, w3)"
  shows "unat w1 < 1626" and "unat w2 < 1626" and "unat w3 < 1626"
  using number_to_words_unat [OF assms] by simp_all

lemma number_to_words_value:
  assumes "number_to_words 1626 w0 = (w1, w2, w3)"
  shows "triple_value (unat w1) (unat w2) (unat w3) = unat w0"
proof -
  define q where "q = unat w0 div 1626"
  note n = number_to_words_unat [OF assms, folded q_def]
  have "q div 1626 < 1626" using unat_lt_32 [of w0] unfolding q_def by linarith
  moreover have "(1626 - unat w1 + unat w2) mod 1626 = q mod 1626"
    unfolding n(2) by (rule mod_back) (simp add: n(1))
  moreover have "(1626 - unat w2 + unat w3) mod 1626 = q div 1626 mod 1626"
    unfolding n(3) by (rule mod_back) (simp add: n(2))
  ultimately have "triple_value (unat w1) (unat w2) (unat w3) = unat w1 + 1626 * (q mod 1626 + 1626 * (q div 1626))"
    unfolding triple_value_def by (simp only: mod_less)
  also have "q mod 1626 + 1626 * (q div 1626) = q" by simp
  also have "unat w1 + 1626 * q = unat w0 mod 1626 + 1626 * q" by (simp only: n(1))
  also have "\<dots> = unat w0" unfolding q_def by simp
  finally show ?thesis .
qed

lemma words_to_number_back:
  "number_to_words 1626 w0 = (w1, w2, w3) \<Longrightarrow> words_to_number 1626 (w1, w2, w3) = Some w0"
  using words_to_number_value [OF number_to_words_less] number_to_words_value by simp

lemma number_to_words_back:
  assumes "unat w1 < 1626" and "unat w2 < 1626" and "unat w3 < 1626" and "words_to_number 1626 (w1, w2, w3) = Some w0"
  shows "number_to_words 1626 w0 = (w1, w2, w3)"
proof -
  obtain v1 v2 v3 where n: "number_to_words 1626 w0 = (v1, v2, v3)" by (cases "number_to_words 1626 w0") auto
  let ?a = "(1626 - unat w1 + unat w2) mod 1626" and ?b = "(1626 - unat w2 + unat w3) mod 1626"
  have "unat w0 = triple_value (unat w1) (unat w2) (unat w3)"
    using assms(4) unfolding words_to_number_value [OF assms(1-3)] by (auto simp: unat_of_nat split: if_splits)
  then have e: "unat w0 = unat w1 + 1626 * (?a + 1626 * ?b)" by (simp only: triple_value_def)
  have "unat w0 div 1626 = ?a + 1626 * ?b + unat w1 div 1626" unfolding e by (rule div_mult_self2) simp
  then have q: "unat w0 div 1626 = ?a + 1626 * ?b" using assms(1) by (simp only: div_less add_0_right)
  have "unat v1 = unat w1 mod 1626" unfolding number_to_words_unat(1) [OF n] e by (rule mod_mult_self2)
  then have u1: "unat v1 = unat w1" using assms(1) by simp
  have "unat v2 = (?a + 1626 * ?b + unat w1) mod 1626" unfolding number_to_words_unat(2) [OF n] q u1 ..
  also have "?a + 1626 * ?b + unat w1 = ?a + unat w1 + 1626 * ?b" by (simp only: ac_simps)
  also have "\<dots> mod 1626 = (?a + unat w1) mod 1626" by (rule mod_mult_self2)
  also have "\<dots> = (1626 - unat w1 + unat w2 + unat w1) mod 1626" by (rule mod_add_left_eq)
  also have "\<dots> = unat w2" using assms(1,2) by simp
  finally have u2: "unat v2 = unat w2" .
  have "unat v3 = (?b + unat w2) mod 1626" unfolding number_to_words_unat(3) [OF n] q u2 by simp
  also have "\<dots> = (1626 - unat w2 + unat w3 + unat w2) mod 1626" by (rule mod_add_left_eq)
  also have "\<dots> = unat w3" using assms(2,3) by simp
  finally show ?thesis using n u1 u2 by (simp add: word_unat_eq_iff)
qed

section \<open>Bytes of a number\<close>

lemma unat_le_word32:
  "unat (le_word32 [a, b, c, d]) = unat a + 256 * (unat b + 256 * (unat c + 256 * unat d))"
proof -
  have step: "unat (ucast x + 256 * w :: u32) = unat x + 256 * unat w" if "unat w < 16777216" for x :: u8 and w :: u32
  proof -
    have m: "unat (256 * w) = 256 * unat w" using that by (subst unat_mult_no_overflow) simp_all
    have "unat (ucast x :: u32) = unat x" by (simp add: unat_ucast_le)
    moreover have "unat w \<le> 16777215" using that by simp
    with unat_lt_8 [of x] have "unat x + 256 * unat w < 4294967296" by linarith
    ultimately show ?thesis by (subst unat_add_no_overflow) (simp_all add: m)
  qed
  have u: "unat d < 256" "unat c < 256" "unat b < 256" by simp_all
  have d: "unat (le_word32 [d]) = unat d" by (simp add: unat_ucast_le)
  have c: "unat (le_word32 [c, d]) = unat c + 256 * unat d"
    unfolding le_word32.simps(2) [of c] using d u by (subst step) (linarith, simp only: d)
  have b: "unat (le_word32 [b, c, d]) = unat b + 256 * (unat c + 256 * unat d)"
    unfolding le_word32.simps(2) [of b] using c u by (subst step) (linarith, simp only: c)
  define x where "x = unat c + 256 * unat d"
  have "x < 65536" using u unfolding x_def by linarith
  then have "unat b + 256 * x < 16777216" using u by linarith
  then show ?thesis unfolding le_word32.simps(2) [of a] by (subst step) (simp_all only: b x_def)
qed

lemma unat_byte32: "unat (ucast (drop_bit k (w :: u32)) :: u8) = unat w div 2 ^ k mod 256"
  by (simp add: unsigned_ucast_eq take_bit_eq_mod unat_drop_bit)

lemma byte_mod: "(unat (a :: u8) + 256 * x) mod 256 = unat a"
  by (simp only: mod_mult_self2) simp

lemma byte_div: "(unat (a :: u8) + 256 * x) div 256 = x"
  by (subst div_mult_self2) simp_all

lemma le_bytes32_word:
  assumes "length bs = 4"
  shows "le_bytes32 (le_word32 bs) = bs"
proof -
  obtain a b c d where bs: "bs = [a, b, c, d]" using assms by (auto simp: length_Suc_conv numeral_eq_Suc)
  let ?w = "le_word32 [a, b, c, d]"
  have p: "(2 :: nat) ^ 0 = 1" "(2 :: nat) ^ 8 = 256" "(2 :: nat) ^ 16 = 256 * 256" "(2 :: nat) ^ 24 = 256 * 256 * 256"
    by simp_all
  have "unat (ucast (drop_bit 0 ?w) :: u8) = unat a" "unat (ucast (drop_bit 8 ?w) :: u8) = unat b"
    "unat (ucast (drop_bit 16 ?w) :: u8) = unat c" "unat (ucast (drop_bit 24 ?w) :: u8) = unat d"
    unfolding unat_byte32 unat_le_word32 p by (simp_all only: div_mult2_eq byte_div byte_mod div_by_1) simp
  then show ?thesis by (simp add: bs le_bytes32_def word_unat_eq_iff del: le_word32.simps)
qed

section \<open>Splitting\<close>

definition plain_word :: "u8 list \<Rightarrow> bool" where
  "plain_word w \<longleftrightarrow> w \<noteq> [] \<and> list_all (\<lambda>c. \<not> isspace c) w"

lemma split_loop_word:
  "list_all (\<lambda>c. \<not> isspace c) w \<Longrightarrow> split_loop False (w @ rest) (fs @ [v]) = split_loop False rest (fs @ [v @ w])"
  by (induction w arbitrary: v) simp_all

lemma split_loop_plain:
  assumes "plain_word w"
  shows "split_loop True (w @ rest) fs = split_loop False rest (fs @ [w])"
  using assms split_loop_word [where w = "tl w" and v = "[hd w]"] by (cases w) (simp_all add: plain_word_def)

lemma split_words:
  assumes "\<forall>w \<in> set ws. plain_word w" and "plain_word v"
  shows "split (concat (map (\<lambda>w. w @ [32]) ws) @ v) = ws @ [v]"
proof -
  have sp: "isspace 32" by (simp add: isspace_def)
  have "split_loop True (concat (map (\<lambda>w. w @ [32]) ws) @ v) fs = fs @ ws @ [v]" for fs
    using assms(1)
  proof (induction ws arbitrary: fs)
    case Nil
    then show ?case using split_loop_plain [OF assms(2), of "[]"] by simp
  next
    case (Cons w ws)
    then show ?case using split_loop_plain [of w "32 # concat (map (\<lambda>w. w @ [32]) ws) @ v"] sp by simp
  qed
  then show ?thesis by (simp add: split_def)
qed

section \<open>Maps\<close>

lemma utf8prefix_all: "length s \<le> n \<Longrightarrow> utf8prefix s n = s"
proof (induction s n rule: utf8prefix.induct)
  case (3 b bs n)
  have "length (dropWhile continuation bs) \<le> length bs" by (rule length_dropWhile_le)
  then show ?case using 3 by simp
qed simp_all

lemma trim_word_prefix: "trim_word n w = utf8prefix w n"
  by (simp add: trim_word_def utf8prefix_all)

lemma rbind_Inr: "rbind r f = Inr y \<longleftrightarrow> (\<exists>x. r = Inr x \<and> f x = Inr y)"
  by (cases r) (simp_all add: rbind_def)

lemma rbind_simps [simp]: "rbind (Inr x) f = f x" "rbind (Inl e) f = Inl e"
  by (simp_all add: rbind_def)

text \<open>What \<open>populate_maps\<close> keeps, and what it establishes where prefixes are not repeated.\<close>

lemma populate_loop_step:
  assumes "populate_loop towlower short False (w # ws) ii l = Inr l'"
  obtains c tc where "word_key towlower w = Inr c"
    and "word_key towlower (trim_word (unique_prefix_length l) w) = Inr tc" and "map_of (trimmed_word_map l) tc = None"
    and "populate_loop towlower short False ws (Suc ii) (l\<lparr>word_map := AList.update c ii (word_map l),
      trimmed_word_map := AList.update tc (trim_word (unique_prefix_length l) w, ii) (trimmed_word_map l)\<rparr>) = Inr l'"
proof -
  from assms obtain c tc where k: "word_key towlower w = Inr c" "word_key towlower (trim_word (unique_prefix_length l) w) = Inr tc"
    by (auto simp: rbind_Inr Let_def split: if_splits)
  then show thesis
    using assms that by (cases "map_of (trimmed_word_map l) tc") (auto simp: Let_def split: if_splits)
qed

lemma populate_loop_keeps:
  "populate_loop towlower short False ws ii l = Inr l' \<Longrightarrow>
   word_list l' = word_list l \<and> language_name l' = language_name l \<and>
   english_language_name l' = english_language_name l \<and> unique_prefix_length l' = unique_prefix_length l \<and>
   map_of (trimmed_word_map l) \<subseteq>\<^sub>m map_of (trimmed_word_map l')"
proof (induction ws arbitrary: ii l)
  case (Cons w ws)
  let ?p = "unique_prefix_length l" and ?t = "trimmed_word_map l"
  from Cons.prems obtain c tc where k: "map_of ?t tc = None"
    and r: "populate_loop towlower short False ws (Suc ii) (l\<lparr>word_map := AList.update c ii (word_map l),
      trimmed_word_map := AList.update tc (trim_word ?p w, ii) ?t\<rparr>) = Inr l'"
    by (rule populate_loop_step)
  have "map_of ?t \<subseteq>\<^sub>m map_of (AList.update tc (trim_word ?p w, ii) ?t)" using k by (auto simp: map_le_def update_conv' dom_def)
  then show ?case using Cons.IH [OF r] by (auto intro: map_le_trans)
qed simp

lemma populate_loop_finds:
  "populate_loop towlower short False ws ii l = Inr l' \<Longrightarrow> j < length ws \<Longrightarrow>
   \<exists>k. find_trimmed towlower l' (ws ! j) = Inr (Some (k, ii + j))"
proof (induction ws arbitrary: ii l j)
  case (Cons w ws)
  let ?p = "unique_prefix_length l" and ?t = "trimmed_word_map l"
  from Cons.prems(1) obtain c tc where k: "word_key towlower (trim_word ?p w) = Inr tc" "map_of ?t tc = None"
    and r: "populate_loop towlower short False ws (Suc ii) (l\<lparr>word_map := AList.update c ii (word_map l),
      trimmed_word_map := AList.update tc (trim_word ?p w, ii) ?t\<rparr>) = Inr l'"
    by (rule populate_loop_step)
  show ?case
  proof (cases j)
    case 0
    have "map_of (trimmed_word_map l') tc = Some (trim_word ?p w, ii)" "unique_prefix_length l' = ?p"
      using populate_loop_keeps [OF r] by (auto simp: map_le_def update_conv' dom_def)
    then show ?thesis using k(1) 0 by (simp add: find_trimmed_def trim_word_prefix)
  next
    case (Suc i)
    then show ?thesis using Cons.IH [OF r, of i] Cons.prems(2) by simp
  qed
qed simp

section \<open>Printed seeds\<close>

text \<open>The indices of the words that stand for the bytes of a key.\<close>

fun src_indices :: "nat \<Rightarrow> u8 list \<Rightarrow> nat list" where
  "src_indices 0 src = []"
| "src_indices (Suc k) src =
     (case number_to_words 1626 (le_word32 (take 4 src)) of (w1, w2, w3) \<Rightarrow>
        [unat w1, unat w2, unat w3] @ src_indices k (drop 4 src))"

lemma src_indices_length [simp]: "length (src_indices k src) = 3 * k"
  by (induction k arbitrary: src) (simp_all split: prod.split)

lemma src_indices_less: "i \<in> set (src_indices k src) \<Longrightarrow> i < 1626"
proof (induction k arbitrary: src)
  case (Suc k)
  obtain w1 w2 w3 where n: "number_to_words 1626 (le_word32 (take 4 src)) = (w1, w2, w3)" by (metis prod_cases3)
  show ?case using Suc number_to_words_less [OF n] by (auto simp: n)
qed simp

lemma bytes_loop_words:
  assumes "length ws = 1626"
  shows "bytes_loop ws src k words store =
    (words @ concat (map (\<lambda>w. w @ [32]) (map ((!) ws) (src_indices k src))), store @ map ((!) ws) (src_indices k src))"
proof (induction k arbitrary: src words store)
  case (Suc k)
  obtain w1 w2 w3 where n: "number_to_words 1626 (le_word32 (take 4 src)) = (w1, w2, w3)" by (metis prod_cases3)
  show ?case using Suc by (simp add: assms n Let_def)
qed simp

lemma triples_of_bytes: "length src = 4 * k \<Longrightarrow> triples_to_bytes 1626 (src_indices k src) = Inr src"
proof (induction k arbitrary: src)
  case (Suc k)
  obtain w1 w2 w3 where n: "number_to_words 1626 (le_word32 (take 4 src)) = (w1, w2, w3)" by (metis prod_cases3)
  have "le_bytes32 (le_word32 (take 4 src)) = take 4 src" using Suc.prems by (intro le_bytes32_word) simp
  moreover have "triples_to_bytes 1626 (src_indices k (drop 4 src)) = Inr (drop 4 src)" using Suc by simp
  ultimately show ?case using words_to_number_back [OF n] by (simp add: n)
qed simp

text \<open>A language whose words are found by their prefixes.\<close>

definition finds_words :: "(u32 \<Rightarrow> u32) \<Rightarrow> language \<Rightarrow> bool" where
  "finds_words towlower l \<longleftrightarrow> length (word_list l) = 1626 \<and>
     (\<forall>i < 1626. \<exists>k. find_trimmed towlower l (word_list l ! i) = Inr (Some (k, i)))"

lemma populate_maps_finds:
  assumes "populate_maps towlower short False l0 = Inr l"
  shows "finds_words towlower l" and "word_list l = word_list l0"
proof -
  have n: "length (word_list l0) = 1626" and r: "populate_loop towlower short False (word_list l0) 0 l0 = Inr l"
    using assms by (auto simp: populate_maps_def NWORDS_def split: if_splits)
  show w: "word_list l = word_list l0" using populate_loop_keeps [OF r] by simp
  show "finds_words towlower l" unfolding finds_words_def w
    using n populate_loop_finds [OF r] by (intro conjI allI impI) (simp_all only: add_0_left)
qed

lemma finds_word:
  "finds_words towlower l \<Longrightarrow> i < 1626 \<Longrightarrow> \<exists>k. find_trimmed towlower l (word_list l ! i) = Inr (Some (k, i))"
  unfolding finds_words_def by blast

lemma finds_word_key:
  assumes "finds_words towlower l" and "i < 1626"
  shows "\<exists>c. word_key towlower (trim_word (unique_prefix_length l) (word_list l ! i)) = Inr c"
proof -
  obtain k where "find_trimmed towlower l (word_list l ! i) = Inr (Some (k, i))" using finds_word [OF assms] by blast
  then show ?thesis unfolding find_trimmed_def trim_word_prefix rbind_Inr by blast
qed

lemma match_words_dictionary:
  assumes "finds_words towlower l" and "\<forall>i \<in> set idxs. i < 1626"
  shows "match_words towlower True l (map ((!) (word_list l)) idxs) = Inr (Some idxs)"
  using assms(2)
proof (induction idxs)
  case (Cons i idxs)
  then obtain k where "find_trimmed towlower l (word_list l ! i) = Inr (Some (k, i))"
    using finds_word [OF assms(1), of i] by (metis list.set_intros(1))
  then show ?case using Cons by simp
qed simp

lemma trimmed_words_dictionary:
  assumes "finds_words towlower l" and "\<forall>i \<in> set idxs. i < 1626"
  shows "\<exists>t. trimmed_words towlower l (map ((!) (word_list l)) idxs) = Inr t"
  using assms(2)
proof (induction idxs)
  case (Cons i idxs)
  then obtain k where "find_trimmed towlower l (word_list l ! i) = Inr (Some (k, i))"
    using finds_word [OF assms(1), of i] by (metis list.set_intros(1))
  then show ?case using Cons by auto
qed simp

lemma checksum_dictionary:
  assumes "finds_words towlower l" and "\<forall>i \<in> set idxs. i < 1626" and "idxs \<noteq> []"
  defines "ws \<equiv> map ((!) (word_list l)) idxs"
  obtains i where "i < length idxs" and "create_checksum_index towlower crc ws l = Inr i"
    and "checksum_test towlower crc (ws @ [ws ! i]) l = Inr True"
proof -
  obtain t where t: "trimmed_words towlower l ws = Inr t"
    unfolding ws_def using trimmed_words_dictionary [OF assms(1,2)] by blast
  let ?i = "unat (crc t) mod length idxs"
  have i: "?i < length idxs" using assms(3) by simp
  have c: "create_checksum_index towlower crc ws l = Inr ?i"
    using t assms(3) by (simp add: create_checksum_index_def ws_def)
  have "idxs ! ?i < 1626" using assms(2) i by simp
  then obtain k where "word_key towlower (trim_word (unique_prefix_length l) (ws ! ?i)) = Inr k"
    using finds_word_key [OF assms(1)] i by (auto simp: ws_def)
  then have "checksum_test towlower crc (ws @ [ws ! ?i]) l = Inr True" using c by (simp add: checksum_test_def Let_def)
  then show thesis using that i c by blast
qed

lemma find_seed_language_first:
  assumes "\<forall>l' \<in> set pre. \<exists>m. try_language towlower crc has_checksum seed l' = Inr m \<and> (\<forall>idxs. m \<noteq> Full_match idxs)"
    and "try_language towlower crc has_checksum seed l = Inr (Full_match matched)"
  shows "find_seed_language towlower crc seed has_checksum (pre @ l # post) fallback = Inr (l, matched)"
  using assms(1)
proof (induction pre arbitrary: fallback)
  case Nil
  then show ?case using assms(2) by simp
next
  case (Cons l' pre)
  then obtain m where "try_language towlower crc has_checksum seed l' = Inr m" "\<forall>idxs. m \<noteq> Full_match idxs" by auto
  then show ?case using Cons by (cases m) simp_all
qed

text \<open>The whole way for a key of \<open>4 k\<close> bytes.\<close>

lemma words_of_bytes:
  assumes "finds_words towlower l" and "\<forall>w \<in> set (word_list l). plain_word w"
    and "length src = 4 * k" and "0 < k" and "pick_language languages name = Some l"
  obtains words ws i where "ws = map ((!) (word_list l)) (src_indices k src)" and "i < 3 * k"
    and "bytes_to_words towlower crc languages src [] name = Inr (Some words)" and "split words = ws @ [ws ! i]"
    and "checksum_test towlower crc (ws @ [ws ! i]) l = Inr True"
proof -
  define ws where "ws = map ((!) (word_list l)) (src_indices k src)"
  have n: "length (word_list l) = 1626" using assms(1) by (simp add: finds_words_def)
  have lt: "\<forall>i \<in> set (src_indices k src). i < 1626" using src_indices_less by blast
  have "src_indices k src \<noteq> []" using assms(4) by (metis length_greater_0_conv mult_pos_pos src_indices_length zero_less_numeral)
  then obtain i where i: "i < 3 * k" "create_checksum_index towlower crc ws l = Inr i"
      "checksum_test towlower crc (ws @ [ws ! i]) l = Inr True"
    using checksum_dictionary [OF assms(1) lt, of crc] unfolding ws_def by auto
  let ?words = "concat (map (\<lambda>w. w @ [32]) ws) @ ws ! i"
  have "bytes_to_words towlower crc languages src [] name = Inr (Some ?words)"
    using assms(3-5) i(2) bytes_loop_words [OF n, of src k "[]" "[]"] by (simp add: bytes_to_words_def flip: ws_def)
  moreover have "\<forall>w \<in> set ws. plain_word w" using assms(2) lt n by (auto simp: ws_def)
  then have "split ?words = ws @ [ws ! i]" using i(1) by (intro split_words) (simp_all add: ws_def)
  ultimately show thesis using that i(1,3) ws_def by blast
qed

lemma bytes_of_words:
  assumes "finds_words towlower l" and "length src = 4 * k" and "0 < k" and "i < 3 * k"
    and "ws = map ((!) (word_list l)) (src_indices k src)" and "split words = ws @ [ws ! i]"
    and "checksum_test towlower crc (ws @ [ws ! i]) l = Inr True"
    and "\<forall>l' \<in> set pre. \<exists>m. try_language towlower crc True (split words) l' = Inr m \<and> (\<forall>idxs. m \<noteq> Full_match idxs)"
  shows "words_to_bytes towlower crc (pre @ l # post) words [] (length src) dup = Inr (src, language_name l)"
proof -
  let ?idxs = "src_indices k src"
  have n: "length (word_list l) = 1626" using assms(1) by (simp add: finds_words_def)
  have lt: "\<forall>i \<in> set ?idxs. i < 1626" using src_indices_less by blast
  have seed: "ws @ [ws ! i] = map ((!) (word_list l)) (?idxs @ [?idxs ! i])" using assms(4,5) by simp
  have "\<forall>j \<in> set (?idxs @ [?idxs ! i]). j < 1626" using lt assms(4) by auto
  then have "try_language towlower crc True (split words) l = Inr (Full_match (?idxs @ [?idxs ! i]))"
    using match_words_dictionary [OF assms(1), of "?idxs @ [?idxs ! i]"] assms(6,7) by (simp add: try_language_def seed)
  then have f: "find_seed_language towlower crc (split words) True (pre @ l # post) None = Inr (l, ?idxs @ [?idxs ! i])"
    by (rule find_seed_language_first [OF assms(8)])
  have e: "length src * 8 * 3 div 32 = 3 * k" "length src * 3 div 32 div 2 \<noteq> 3 * k" using assms(2,3) by simp_all
  have l: "length (split words) = 3 * k + 1" using assms(5,6) by simp
  show ?thesis
    unfolding words_to_bytes_def Let_def e(1) l using f assms(2,3,6,7) triples_of_bytes [OF assms(2)] n e(2) assms(5) by simp
qed

lemma triples_to_bytes_length: "triples_to_bytes n idxs = Inr bs \<Longrightarrow> length bs = 4 * (length idxs div 3)"
proof (induction n idxs arbitrary: bs rule: triples_to_bytes.induct)
  case (1 n i j k idxs)
  then obtain w0 rest where "words_to_number n (of_nat i, of_nat j, of_nat k) = Some w0" "triples_to_bytes n idxs = Inr rest"
      "bs = le_bytes32 w0 @ rest" by (auto simp: rbind_Inr split: option.splits)
  moreover have "length (i # j # k # idxs) div 3 = Suc (length idxs div 3)" by simp
  ultimately show ?case using "1.IH" by (simp add: le_bytes32_def)
qed simp_all

text \<open>A language to try things on: its words are three bytes, in the order of their indices.\<close>

definition sample_word :: "nat \<Rightarrow> u8 list" where
  "sample_word i = [of_nat (48 + i div 100), of_nat (48 + i div 10 mod 10), of_nat (48 + i mod 10)]"

definition sample_language :: language where
  "sample_language = \<lparr>word_list = map sample_word [0..<NWORDS], word_map = [], trimmed_word_map = [],
     language_name = [1], english_language_name = [2], unique_prefix_length = 3\<rparr>"

lemma populate_loop_total:
  assumes "\<forall>w \<in> set ws. word_key towlower w = Inr w \<and> length w = unique_prefix_length l \<and> map_of (trimmed_word_map l) w = None"
    and "distinct ws"
  shows "\<exists>l'. populate_loop towlower False False ws ii l = Inr l'"
  using assms
proof (induction ws arbitrary: ii l)
  case (Cons w ws)
  then have w: "word_key towlower w = Inr w" "trim_word (unique_prefix_length l) w = w" "map_of (trimmed_word_map l) w = None"
    by (simp_all add: trim_word_def)
  let ?l = "l\<lparr>word_map := AList.update w ii (word_map l), trimmed_word_map := AList.update w (w, ii) (trimmed_word_map l)\<rparr>"
  have "populate_loop towlower False False (w # ws) ii l = populate_loop towlower False False ws (Suc ii) ?l"
    using w Cons.prems by (simp add: Let_def)
  moreover have "\<exists>l'. populate_loop towlower False False ws (Suc ii) ?l = Inr l'"
    by (rule Cons.IH) (use Cons.prems in \<open>auto simp: update_conv'\<close>)
  ultimately show ?case by simp
qed simp

lemma ascii_word_key:
  assumes "list_all (\<lambda>b. unat b < 128) w"
  shows "word_key (\<lambda>c. c) w = Inr w"
proof -
  have "utf8canonical (\<lambda>c. c) w = Some w"
    using assms
  proof (induction w)
    case Nil
    then show ?case by (simp add: utf8canonical.simps)
  next
    case (Cons b w)
    have "utf8_read (b # w) = Some (ucast b, w)" using Cons.prems by (simp add: utf8_read_def and_80_eq_0_iff)
    moreover have "unat (ucast b :: u32) = unat b" by (simp add: unat_ucast_le)
    then have "utf8_write (ucast b) = Some [b]" using Cons.prems
      by (simp add: utf8_write_def word_le_nat_alt word_unat_eq_iff unat_ucast_down)
    ultimately show ?case using Cons by (simp add: utf8canonical.simps [of _ "b # w"])
  qed
  then show ?thesis by (simp add: word_key_def)
qed

lemma unat_sample_byte: "d < 80 \<Longrightarrow> unat (of_nat (48 + d) :: u8) = 48 + d"
  by (simp only: unat_of_nat) simp

lemma sample_digits: "i < 1626 \<Longrightarrow> i div 100 < 80" "i div 10 mod 10 < (80 :: nat)" "i mod 10 < (80 :: nat)"
  using mod_less_divisor [of 10 "i div 10"] mod_less_divisor [of 10 i] by linarith+

lemma sample_word_bytes:
  assumes "i < 1626"
  shows "map unat (sample_word i) = [48 + i div 100, 48 + i div 10 mod 10, 48 + i mod 10]"
proof -
  show ?thesis unfolding sample_word_def list.map by (simp only: unat_sample_byte sample_digits assms)
qed

lemma sample_word_plain:
  assumes "i < 1626"
  shows "list_all (\<lambda>b. unat b < 128) (sample_word i)" and "plain_word (sample_word i)"
proof -
  have "list_all (\<lambda>n. 48 \<le> n \<and> n < 128) (map unat (sample_word i))"
    unfolding sample_word_bytes [OF assms] using sample_digits(1) [OF assms] sample_digits(2,3) [of i] by simp
  then have b: "list_all (\<lambda>b. 48 \<le> unat b \<and> unat b < 128) (sample_word i)" by (simp add: list_all_iff)
  then show "list_all (\<lambda>b. unat b < 128) (sample_word i)" by (auto simp: list_all_iff)
  have "\<not> isspace b" if "48 \<le> unat b" for b using that by (auto simp: isspace_def word_le_nat_alt)
  then show "plain_word (sample_word i)" using b by (auto simp: plain_word_def list_all_iff sample_word_def)
qed

lemma sample_word_inj: "inj_on sample_word {..<NWORDS}"
proof
  fix i j
  assume i: "i \<in> {..<NWORDS}" and j: "j \<in> {..<NWORDS}" and e: "sample_word i = sample_word j"
  have "[48 + i div 100, 48 + i div 10 mod 10, 48 + i mod 10] = [48 + j div 100, 48 + j div 10 mod 10, 48 + j mod 10]"
    using sample_word_bytes [of i] sample_word_bytes [of j] i j e by (simp add: NWORDS_def)
  then have "i div 100 = j div 100" "i div 10 mod 10 = j div 10 mod 10" "i mod 10 = j mod 10" by simp_all
  moreover have "n = 10 * (10 * (n div 100) + n div 10 mod 10) + n mod 10" for n :: nat
    using mult_div_mod_eq [of 10 "n div 10"] by (simp add: div_mult2_eq [of n 10 10, simplified, symmetric])
  ultimately show "i = j" by metis
qed

lemma sample_language_words:
  assumes "w \<in> set (word_list sample_language)"
  obtains i where "i < 1626" and "w = sample_word i"
proof -
  obtain i where i: "i < NWORDS" "w = sample_word i" using assms by (auto simp: sample_language_def)
  show thesis by (rule that [OF i(1) [unfolded NWORDS_def] i(2)])
qed

lemma sample_language_populated: "\<exists>l. populate_maps (\<lambda>c. c) False False sample_language = Inr l"
proof -
  have "word_key (\<lambda>c. c) w = Inr w \<and> length w = 3" if "w \<in> set (word_list sample_language)" for w
    using sample_language_words [OF that] ascii_word_key [OF sample_word_plain(1)]
    by (metis length_Cons list.size(3) numeral_3_eq_3 sample_word_def)
  moreover have "distinct (word_list sample_language)"
    using sample_word_inj by (simp add: sample_language_def distinct_map atLeast0LessThan)
  ultimately have "\<exists>l. populate_loop (\<lambda>c. c) False False (word_list sample_language) 0 sample_language = Inr l"
    by (intro populate_loop_total) (simp_all add: sample_language_def)
  moreover have "length (word_list sample_language) = NWORDS" by (simp add: sample_language_def)
  ultimately show ?thesis by (simp add: populate_maps_def)
qed

section \<open>Properties\<close>

text \<open>
  C17: Three words are a code for 32 bits. Of the triples of indices into a list of 1626 words, exactly those that
  stand for a number below \<open>2 ^ 32\<close> are accepted, each number has one triple, and the test after the
  32-bit arithmetic catches every overflow.
\<close>

theorem seed_words_code:
  assumes "unat w1 < NWORDS" and "unat w2 < NWORDS" and "unat w3 < NWORDS"
  shows "words_to_number (of_nat NWORDS) (w1, w2, w3) = Some w0 \<longleftrightarrow> number_to_words (of_nat NWORDS) w0 = (w1, w2, w3)"
proof -
  have n: "(of_nat NWORDS :: u32) = 1626" by (simp add: NWORDS_def)
  show ?thesis
    unfolding n using words_to_number_back number_to_words_back [OF assms [unfolded NWORDS_def]] by blast
qed

theorem seed_words_code_witness:
  "words_to_number (of_nat NWORDS) (1625, 0, 0) = Some 4294965679 \<longleftrightarrow> number_to_words (of_nat NWORDS) 4294965679 = (1625, 0, 0)"
  by (rule seed_words_code) (simp_all add: NWORDS_def)

text \<open>
  C16: A printed seed is read back. In a language that \<open>populate_maps\<close> set up without repeated prefixes, every
  key of a multiple of four bytes has a seed, and reading it gives the key and the language, provided
  no language that is tried before claims the words with a valid checksum.
\<close>

theorem seed_roundtrip:
  assumes "populate_maps towlower short False l0 = Inr l" and "\<forall>w \<in> set (word_list l0). plain_word w"
    and "length src mod 4 = 0" and "src \<noteq> []" and "pick_language languages name = Some l"
  shows "\<exists>words. bytes_to_words towlower crc languages src [] name = Inr (Some words) \<and>
    (\<forall>pre post. (\<forall>l' \<in> set pre. \<exists>m. try_language towlower crc True (split words) l' = Inr m \<and> (\<forall>idxs. m \<noteq> Full_match idxs)) \<longrightarrow>
      words_to_bytes towlower crc (pre @ l # post) words [] (length src) dup = Inr (src, language_name l))"
proof -
  note l = populate_maps_finds [OF assms(1)]
  obtain k where k: "length src = 4 * k" "0 < k" using assms(3,4) by (metis length_greater_0_conv mod_0_imp_dvd dvdE mult_0_right neq0_conv)
  obtain words ws i where w: "ws = map ((!) (word_list l)) (src_indices k src)" "i < 3 * k"
      "bytes_to_words towlower crc languages src [] name = Inr (Some words)" "split words = ws @ [ws ! i]"
      "checksum_test towlower crc (ws @ [ws ! i]) l = Inr True"
    using words_of_bytes [OF l(1) _ k assms(5)] assms(2) unfolding l(2) by metis
  then show ?thesis using bytes_of_words [OF l(1) k w(2,1,4,5)] by blast
qed

theorem seed_roundtrip_witness:
  "\<exists>l words. populate_maps (\<lambda>c. c) False False sample_language = Inr l \<and>
     bytes_to_words (\<lambda>c. c) (\<lambda>_. 5) [l] [1, 2, 3, 4] [] [1] = Inr (Some words) \<and>
     words_to_bytes (\<lambda>c. c) (\<lambda>_. 5) [l] words [] 4 False = Inr ([1, 2, 3, 4], [1])"
proof -
  obtain l where l: "populate_maps (\<lambda>c. c) False False sample_language = Inr l" using sample_language_populated by blast
  then have "populate_loop (\<lambda>c. c) False False (word_list sample_language) 0 sample_language = Inr l"
    by (simp add: populate_maps_def split: if_splits)
  then have "language_name l = language_name sample_language" using populate_loop_keeps by blast
  then have n: "language_name l = [1]" by (simp add: sample_language_def)
  have "\<forall>w \<in> set (word_list sample_language). plain_word w" using sample_language_words sample_word_plain(2) by metis
  moreover have "pick_language [l] [1] = Some l" by (simp add: pick_language_def n)
  ultimately have "\<exists>words. bytes_to_words (\<lambda>c. c) (\<lambda>_. 5) [l] [1, 2, 3, 4] [] [1] = Inr (Some words) \<and>
      (\<forall>pre post. (\<forall>l' \<in> set pre. \<exists>m. try_language (\<lambda>c. c) (\<lambda>_. 5) True (split words) l' = Inr m \<and> (\<forall>idxs. m \<noteq> Full_match idxs)) \<longrightarrow>
        words_to_bytes (\<lambda>c. c) (\<lambda>_. 5) (pre @ l # post) words [] (length [1, 2, 3, 4 :: u8]) False = Inr ([1, 2, 3, 4], language_name l))"
    by (intro seed_roundtrip [OF l]) simp_all
  then obtain words where w: "bytes_to_words (\<lambda>c. c) (\<lambda>_. 5) [l] [1, 2, 3, 4] [] [1] = Inr (Some words)"
      "words_to_bytes (\<lambda>c. c) (\<lambda>_. 5) ([] @ l # []) words [] (length [1, 2, 3, 4 :: u8]) False = Inr ([1, 2, 3, 4], language_name l)"
    by (metis empty_iff empty_set)
  have "length [1, 2, 3, 4 :: u8] = 4" by simp
  then show ?thesis using l n w by (metis append_Nil)
qed

text \<open>
  C26: A seed of twelve words gives no key. The test on the number of words lets it pass and the code
  means to double its sixteen bytes, but the count it compares with is that for four bits, so the
  result has the wrong size, or an earlier test fails.
\<close>

theorem twelve_words_refused:
  assumes "length (split words) = 12"
  shows "\<exists>e. words_to_bytes_key towlower crc languages words = Inl e"
proof (cases "words_to_bytes towlower crc languages words [] 32 True")
  case (Inr r)
  obtain s name where r: "r = (s, name)" by (cases r)
  have e: "(32 :: nat) * 8 * 3 div 32 = 24" "(32 :: nat) * 3 div 32 div 2 = 1" by simp_all
  obtain l :: language and matched bs where "triples_to_bytes (of_nat (length (word_list l))) (take (3 * (12 div 3)) matched) = Inr bs" "s = bs"
    using Inr unfolding words_to_bytes_def Let_def e assms r by (auto simp: rbind_Inr assms intro: that)
  then have "length s \<le> 16" using triples_to_bytes_length by fastforce
  then show ?thesis using Inr r by (simp add: words_to_bytes_key_def)
qed (simp add: words_to_bytes_key_def)

theorem twelve_words_refused_witness:
  "\<exists>e. words_to_bytes_key (\<lambda>c. c) (\<lambda>_. 5) [sample_language] (concat (replicate 12 [49, 32])) = Inl e"
  by (rule twelve_words_refused) code_simp

end
