(* ===== verification/Js_Strings.thy ===== *)
theory Js_Strings
  imports Hmny_Prelude
begin

text \<open>
  What the scripts of the wallet interface (\<open>hashmonkey-gui/js\<close>) use of their language: strings of
  16-bit code units, the string methods, numbers as far as the scripts compute with them, and regular
  expressions with the backtracking order of the language. A regular expression yields its matches in
  order of preference; the first one is what the language returns.
\<close>

section \<open>Definitions\<close>

subsection \<open>Strings\<close>

type_synonym jstring = "u16 list"

definition js :: "string \<Rightarrow> jstring" where
  "js s = map of_char s"

definition substring_to :: "jstring \<Rightarrow> int \<Rightarrow> int \<Rightarrow> jstring" where
  "substring_to s start stop =
     (let clamp = (\<lambda>i. min (nat i) (length s)); a = clamp start; b = clamp stop
      in take (max a b - min a b) (drop (min a b) s))"

definition substring_from :: "jstring \<Rightarrow> int \<Rightarrow> jstring" where
  "substring_from s start = substring_to s start (int (length s))"

definition endsWith :: "jstring \<Rightarrow> jstring \<Rightarrow> bool" where
  "endsWith s t \<longleftrightarrow> length t \<le> length s \<and> drop (length s - length t) s = t"

definition startsWith :: "jstring \<Rightarrow> jstring \<Rightarrow> bool" where
  "startsWith s t \<longleftrightarrow> take (length t) s = t"

text \<open>\<open>indexOf\<close> and \<open>lastIndexOf\<close> of one unit; \<open>-1\<close> when it does not occur.\<close>

fun indexOf_from :: "int \<Rightarrow> u16 \<Rightarrow> jstring \<Rightarrow> int" where
  "indexOf_from i c [] = - 1"
| "indexOf_from i c (x # xs) = (if x = c then i else indexOf_from (i + 1) c xs)"

definition indexOf :: "jstring \<Rightarrow> u16 \<Rightarrow> int" where
  "indexOf s c = indexOf_from 0 c s"

definition lastIndexOf :: "jstring \<Rightarrow> u16 \<Rightarrow> int" where
  "lastIndexOf s c =
     (let i = indexOf (rev s) c in if i < 0 then - 1 else int (length s) - 1 - i)"

text \<open>\<open>split\<close> at a one-unit separator, \<open>join\<close>, and replacing every occurrence of a unit.\<close>

fun js_split :: "u16 \<Rightarrow> jstring \<Rightarrow> jstring list" where
  "js_split c [] = [[]]"
| "js_split c (x # xs) =
     (if x = c then [] # js_split c xs
      else case js_split c xs of [] \<Rightarrow> [[x]] | p # ps \<Rightarrow> (x # p) # ps)"

fun js_join :: "jstring \<Rightarrow> jstring list \<Rightarrow> jstring" where
  "js_join sep [] = []"
| "js_join sep [s] = s"
| "js_join sep (s # t # ts) = s @ sep @ js_join sep (t # ts)"

definition replace_all :: "u16 \<Rightarrow> jstring \<Rightarrow> jstring \<Rightarrow> jstring" where
  "replace_all c t s = concat (map (\<lambda>x. if x = c then t else [x]) s)"

subsection \<open>Numbers\<close>

datatype js_num = NaN | Infinity | Num int

fun bit_length :: "nat \<Rightarrow> nat" where
  "bit_length n = (if n = 0 then 0 else Suc (bit_length (n div 2)))"

declare bit_length.simps [simp del]

text \<open>The nearest double of a natural number, ties to even.\<close>

definition round_double :: "nat \<Rightarrow> js_num" where
  "round_double n =
     (let k = bit_length n - 53; q = n div 2 ^ k; r = 2 * (n mod 2 ^ k);
          m = (if r > 2 ^ k \<or> r = 2 ^ k \<and> odd q then q + 1 else q) * 2 ^ k
      in if m < 2 ^ 1024 then Num (int m) else Infinity)"

definition is_digit :: "u16 \<Rightarrow> bool" where
  "is_digit c \<longleftrightarrow> 48 \<le> c \<and> c \<le> 57"

text \<open>White space and line ends, as \<open>\s\<close> and the number conversions have them.\<close>

definition is_space :: "u16 \<Rightarrow> bool" where
  "is_space c \<longleftrightarrow> 9 \<le> c \<and> c \<le> 13 \<or> c = 0x20 \<or> c = 0xA0 \<or> c = 0x1680 \<or> 0x2000 \<le> c \<and> c \<le> 0x200A \<or>
     c = 0x2028 \<or> c = 0x2029 \<or> c = 0x202F \<or> c = 0x205F \<or> c = 0x3000 \<or> c = 0xFEFF"

definition digit_value :: "nat \<Rightarrow> u16 \<Rightarrow> nat option" where
  "digit_value radix c =
     (let v = (if 48 \<le> c \<and> c \<le> 57 then unat c - 48
               else if 97 \<le> c \<and> c \<le> 122 then unat c - 87
               else if 65 \<le> c \<and> c \<le> 90 then unat c - 55 else radix)
      in if v < radix then Some v else None)"

fun digits_value :: "nat \<Rightarrow> nat \<Rightarrow> jstring \<Rightarrow> nat" where
  "digits_value radix acc [] = acc"
| "digits_value radix acc (c # cs) =
     (case digit_value radix c of None \<Rightarrow> acc | Some d \<Rightarrow> digits_value radix (acc * radix + d) cs)"

definition negate :: "js_num \<Rightarrow> js_num" where
  "negate x = (case x of Num n \<Rightarrow> Num (- n) | y \<Rightarrow> y)"

text \<open>\<open>parseInt\<close> with no radix. (A negative infinity does not arise from the strings the scripts parse.)\<close>

definition parseInt :: "jstring \<Rightarrow> js_num" where
  "parseInt str =
     (let s0 = dropWhile is_space str;
          neg = (s0 \<noteq> [] \<and> hd s0 = 45);
          s1 = (if s0 \<noteq> [] \<and> (hd s0 = 45 \<or> hd s0 = 43) then tl s0 else s0);
          hex = (take 2 s1 = js ''0x'' \<or> take 2 s1 = js ''0X'');
          radix = (if hex then 16 else 10);
          s2 = (if hex then drop 2 s1 else s1);
          ds = takeWhile (\<lambda>c. digit_value radix c \<noteq> None) s2
      in if ds = [] then NaN
         else let v = round_double (digits_value radix 0 ds) in if neg then negate v else v)"

fun nat_to_string :: "nat \<Rightarrow> jstring" where
  "nat_to_string n = (if n < 10 then [of_nat (48 + n)] else nat_to_string (n div 10) @ [of_nat (48 + n mod 10)])"

declare nat_to_string.simps [simp del]

text \<open>
  \<open>toString\<close>: exact for the integers that doubles represent one by one; the digits of larger
  numbers are a parameter.
\<close>

definition num_to_string :: "(int \<Rightarrow> jstring) \<Rightarrow> js_num \<Rightarrow> jstring" where
  "num_to_string large x =
     (case x of NaN \<Rightarrow> js ''NaN'' | Infinity \<Rightarrow> js ''Infinity''
      | Num n \<Rightarrow> if \<bar>n\<bar> < 2 ^ 53
                then (if n < 0 then js ''-'' else []) @ nat_to_string (nat \<bar>n\<bar>) else large n)"

subsection \<open>Regular expressions\<close>

datatype rx =
    RChr "u16 \<Rightarrow> bool"
  | RSeq rx rx
  | RStar bool rx
  | ROpt rx
  | RGroup rx
  | REol

type_synonym rx_state = "jstring \<times> jstring option"

text \<open>
  The matches from a state, the rest of the input and the text of the group, in order of preference.
  A repetition is greedy or lazy and does not repeat an empty match.
\<close>

function rx_match :: "rx \<Rightarrow> rx_state \<Rightarrow> rx_state list" where
  "rx_match (RChr p) st = (case fst st of [] \<Rightarrow> [] | x # xs \<Rightarrow> if p x then [(xs, snd st)] else [])"
| "rx_match (RSeq a b) st = concat (map (rx_match b) (rx_match a st))"
| "rx_match (RStar greedy r) st =
     (let more = concat (map (\<lambda>st'. if length (fst st') < length (fst st)
        then rx_match (RStar greedy r) st' else []) (rx_match r st))
      in if greedy then more @ [st] else st # more)"
| "rx_match (ROpt r) st = rx_match r st @ [st]"
| "rx_match (RGroup r) st =
     map (\<lambda>(s, c). (s, Some (take (length (fst st) - length s) (fst st)))) (rx_match r st)"
| "rx_match REol st = (if fst st = [] then [st] else [])"
  by pat_completeness auto

termination
  by (relation "measures [\<lambda>(r, st). size r, \<lambda>(r, st). length (fst st)]") auto

declare rx_match.simps(3) [simp del]

text \<open>The leftmost match: the text before it, the group, the text after it.\<close>

fun rx_find :: "rx \<Rightarrow> jstring \<Rightarrow> jstring \<Rightarrow> (jstring \<times> jstring option \<times> jstring) option" where
  "rx_find r pre s =
     (case rx_match r (s, None) of (s', c) # _ \<Rightarrow> Some (pre, c, s')
      | [] \<Rightarrow> (case s of [] \<Rightarrow> None | x # xs \<Rightarrow> rx_find r (pre @ [x]) xs))"

declare rx_find.simps [simp del]

definition rx_replace :: "rx \<Rightarrow> (jstring option \<Rightarrow> jstring) \<Rightarrow> jstring \<Rightarrow> jstring" where
  "rx_replace r f s =
     (case rx_find r [] s of None \<Rightarrow> s | Some (pre, c, post) \<Rightarrow> pre @ f c @ post)"

text \<open>An expression that starts with \<open>^\<close> matches at the beginning or not at all.\<close>

definition rx_test_start :: "rx \<Rightarrow> jstring \<Rightarrow> bool" where
  "rx_test_start r s \<longleftrightarrow> rx_match r (s, None) \<noteq> []"

text \<open>\<open>split\<close> and global \<open>match\<close>, for expressions that match no empty text.\<close>

function rx_split :: "rx \<Rightarrow> jstring \<Rightarrow> jstring list" where
  "rx_split r s =
     (case rx_find r [] s of None \<Rightarrow> [s]
      | Some (pre, c, post) \<Rightarrow> if length post < length s then pre # rx_split r post else [s])"
  by pat_completeness auto

termination
  by (relation "measure (\<lambda>(r, s). length s)") auto

declare rx_split.simps [simp del]

function rx_match_all :: "rx \<Rightarrow> jstring \<Rightarrow> jstring list" where
  "rx_match_all r s =
     (case rx_find r [] s of None \<Rightarrow> []
      | Some (pre, c, post) \<Rightarrow>
          if length post < length s
          then drop (length pre) (take (length s - length post) s) # rx_match_all r post else [])"
  by pat_completeness auto

termination
  by (relation "measure (\<lambda>(r, s). length s)") auto

declare rx_match_all.simps [simp del]

text \<open>\<open>+\<close>, \<open>.\<close> and the classes the scripts use.\<close>

definition RPlus :: "rx \<Rightarrow> rx" where
  "RPlus r = RSeq r (RStar True r)"

definition is_line_end :: "u16 \<Rightarrow> bool" where
  "is_line_end c \<longleftrightarrow> c = 10 \<or> c = 13 \<or> c = 0x2028 \<or> c = 0x2029"

definition RDot :: rx where
  "RDot = RChr (\<lambda>c. \<not> is_line_end c)"

definition RUnit :: "u16 \<Rightarrow> rx" where
  "RUnit c = RChr (\<lambda>x. x = c)"

definition is_alnum :: "u16 \<Rightarrow> bool" where
  "is_alnum c \<longleftrightarrow> 48 \<le> c \<and> c \<le> 57 \<or> 65 \<le> c \<and> c \<le> 90 \<or> 97 \<le> c \<and> c \<le> 122"

subsection \<open>Languages\<close>

text \<open>The texts an expression stands for, with no regard to preference.\<close>

inductive_set star :: "jstring set \<Rightarrow> jstring set" for L where
  Nil [intro]: "[] \<in> star L"
| append: "u \<in> L \<Longrightarrow> v \<in> star L \<Longrightarrow> u @ v \<in> star L"

fun lang :: "rx \<Rightarrow> jstring set" where
  "lang (RChr p) = {[x] | x. p x}"
| "lang (RSeq a b) = {u @ v | u v. u \<in> lang a \<and> v \<in> lang b}"
| "lang (RStar greedy r) = star (lang r)"
| "lang (ROpt r) = insert [] (lang r)"
| "lang (RGroup r) = lang r"
| "lang REol = {}"

fun no_eol :: "rx \<Rightarrow> bool" where
  "no_eol (RChr p) = True"
| "no_eol (RSeq a b) = (no_eol a \<and> no_eol b)"
| "no_eol (RStar greedy r) = no_eol r"
| "no_eol (ROpt r) = no_eol r"
| "no_eol (RGroup r) = no_eol r"
| "no_eol REol = False"

section \<open>Regular expressions and languages\<close>

lemma star_nonempty:
  "v \<in> star L \<Longrightarrow> v = [] \<or> (\<exists>u w. u \<in> L \<and> u \<noteq> [] \<and> w \<in> star L \<and> v = u @ w)"
  by (induction rule: star.induct) auto

lemma set_rx_match_star:
  "st' \<in> set (rx_match (RStar greedy r) st) \<longleftrightarrow>
   st' = st \<or> (\<exists>st1 \<in> set (rx_match r st). length (fst st1) < length (fst st) \<and>
     st' \<in> set (rx_match (RStar greedy r) st1))"
  by (subst rx_match.simps(3)) (auto simp: Let_def)

lemma rx_match_sound:
  "no_eol r \<Longrightarrow> st' \<in> set (rx_match r st) \<Longrightarrow> \<exists>u \<in> lang r. fst st = u @ fst st'"
proof (induction r st arbitrary: st' rule: rx_match.induct)
  case (1 p st)
  then show ?case by (auto split: list.splits if_splits)
next
  case (2 a b st)
  then obtain st1 where s: "st1 \<in> set (rx_match a st)" "st' \<in> set (rx_match b st1)" by auto
  obtain u where "u \<in> lang a" "fst st = u @ fst st1" using "2.IH"(1) [OF _ s(1)] "2.prems"(1) by auto
  moreover obtain v where "v \<in> lang b" "fst st1 = v @ fst st'"
    using "2.IH"(2) [OF s(1) _ s(2)] "2.prems"(1) by auto
  ultimately show ?case by auto
next
  case (3 greedy r st)
  show ?case
  proof (cases "st' = st")
    case True
    then show ?thesis by (auto intro: bexI [of _ "[]"])
  next
    case False
    then obtain st1 where s: "st1 \<in> set (rx_match r st)" "length (fst st1) < length (fst st)"
        "st' \<in> set (rx_match (RStar greedy r) st1)"
      using "3.prems"(2) set_rx_match_star [of st' greedy r st] by blast
    obtain u where "u \<in> lang r" "fst st = u @ fst st1" using "3.IH"(1) [OF _ s(1)] "3.prems"(1) by auto
    moreover obtain v where "v \<in> star (lang r)" "fst st1 = v @ fst st'"
      using "3.IH"(2) [OF s(1,2) _ s(3)] "3.prems"(1) by auto
    ultimately show ?thesis using star.append by fastforce
  qed
next
  case (4 r st)
  then show ?case by fastforce
next
  case (5 r st)
  then show ?case by fastforce
next
  case (6 st)
  then show ?case by simp
qed

lemma rx_match_complete:
  "no_eol r \<Longrightarrow> u \<in> lang r \<Longrightarrow> \<exists>c'. (s, c') \<in> set (rx_match r (u @ s, c))"
proof (induction r arbitrary: u s c)
  case (RChr p)
  then show ?case by auto
next
  case (RSeq a b)
  then obtain v w where vw: "u = v @ w" "v \<in> lang a" "w \<in> lang b" by auto
  obtain c1 where "(w @ s, c1) \<in> set (rx_match a (v @ w @ s, c))" using RSeq vw by fastforce
  moreover obtain c2 where "(s, c2) \<in> set (rx_match b (w @ s, c1))" using RSeq vw by fastforce
  ultimately show ?case using vw by auto
next
  case (RStar greedy r)
  have "u \<in> star (lang r) \<Longrightarrow> \<exists>c'. (s, c') \<in> set (rx_match (RStar greedy r) (u @ s, c))" for u c
  proof (induction "length u" arbitrary: u c rule: less_induct)
    case less
    show ?case
    proof (cases "u = []")
      case True
      then show ?thesis using set_rx_match_star [of "(s, c)" greedy r "(u @ s, c)"] by auto
    next
      case False
      then obtain v w where vw: "v \<in> lang r" "v \<noteq> []" "w \<in> star (lang r)" "u = v @ w"
        using star_nonempty [OF less.prems] by blast
      obtain c1 where c1: "(w @ s, c1) \<in> set (rx_match r (v @ w @ s, c))"
        using RStar.IH [of v "w @ s" c] RStar.prems(1) vw(1) by auto
      obtain c2 where c2: "(s, c2) \<in> set (rx_match (RStar greedy r) (w @ s, c1))"
        using less.hyps [of w c1] vw by auto
      have "length (w @ s) < length (v @ w @ s)" using vw(2) by simp
      then show ?thesis
        using c1 c2 vw(4) set_rx_match_star [of "(s, c2)" greedy r "(u @ s, c)"] by fastforce
    qed
  qed
  then show ?case using RStar.prems by simp
next
  case (ROpt r)
  then show ?case by simp blast
next
  case (RGroup r)
  then obtain c1 where "(s, c1) \<in> set (rx_match r (u @ s, c))" by fastforce
  then show ?case by force
next
  case REol
  then show ?case by simp
qed

lemma rx_match_eol:
  assumes "no_eol r"
  shows "rx_match (RSeq r REol) (s, c) \<noteq> [] \<longleftrightarrow> s \<in> lang r"
proof
  assume "rx_match (RSeq r REol) (s, c) \<noteq> []"
  then obtain st where "st \<in> set (rx_match r (s, c))" "fst st = []" by (auto split: if_splits)
  then show "s \<in> lang r" using rx_match_sound [OF assms, of st "(s, c)"] by auto
next
  assume "s \<in> lang r"
  then obtain c' where "([], c') \<in> set (rx_match r (s, c))"
    using rx_match_complete [OF assms, of s "[]" c] by auto
  then have "([], c') \<in> set (rx_match (RSeq r REol) (s, c))" by force
  then show "rx_match (RSeq r REol) (s, c) \<noteq> []" by (metis empty_iff empty_set)
qed

section \<open>Classes, repetitions and lists\<close>

lemma lang_star_chr: "star {[x] | x. p x} = {u. list_all p u}"
proof (intro set_eqI iffI)
  fix u
  assume "u \<in> star {[x] | x. p x}"
  then have "list_all p u" by (induction rule: star.induct) auto
  then show "u \<in> {u. list_all p u}" by simp
next
  fix u
  assume "u \<in> {u. list_all p u}"
  then have "list_all p u" by simp
  then show "u \<in> star {[x] | x. p x}"
  proof (induction u)
    case (Cons x xs)
    then show ?case using star.append [of "[x]" "{[x] | x. p x}" xs] by auto
  qed auto
qed

lemma lang_plus_chr: "lang (RPlus (RChr p)) = {u. u \<noteq> [] \<and> list_all p u}"
proof (intro set_eqI iffI)
  fix u
  assume "u \<in> {u. u \<noteq> [] \<and> list_all p u}"
  then obtain x xs where "u = [x] @ xs" "[x] \<in> lang (RChr p)" "xs \<in> lang (RStar True (RChr p))"
    by (cases u) (auto simp: lang_star_chr)
  then show "u \<in> lang (RPlus (RChr p))" unfolding RPlus_def lang.simps(2) by blast
qed (auto simp: RPlus_def lang_star_chr)

text \<open>The repetition of a class, in order.\<close>

lemma rx_match_star_chr:
  "rx_match (RStar greedy (RChr p)) (s, c) =
   map (\<lambda>k. (drop k s, c)) ((if greedy then rev else id) [0..<Suc (length (takeWhile p s))])"
proof (induction s)
  case Nil
  then show ?case by (subst rx_match.simps(3)) simp
next
  case (Cons x xs)
  show ?case
  proof (cases "p x")
    case True
    have "[0..<Suc (length (takeWhile p (x # xs)))] = 0 # map Suc [0..<Suc (length (takeWhile p xs))]"
      using True by (simp add: map_Suc_upt upt_conv_Cons del: upt_Suc)
    then show ?thesis using True Cons
      by (subst rx_match.simps(3)) (simp add: Let_def rev_map comp_def del: upt_Suc)
  next
    case False
    then show ?thesis by (subst rx_match.simps(3)) (simp add: Let_def)
  qed
qed

section \<open>Splitting and numbers\<close>

lemma js_split_nonempty: "js_split c s \<noteq> []"
  by (induction s) (auto split: list.splits)

lemma js_split_Cons_neq: "x \<noteq> c \<Longrightarrow> js_split c (x # xs) = (x # hd (js_split c xs)) # tl (js_split c xs)"
  using js_split_nonempty [of c xs] by (cases "js_split c xs") simp_all

text \<open>The parts do not contain the separator, and with it between them they are the text.\<close>

lemma js_split_parts:
  "(\<forall>p \<in> set (js_split c s). c \<notin> set p) \<and>
   s = hd (js_split c s) @ concat (map ((#) c) (tl (js_split c s)))"
proof (induction s)
  case (Cons x xs)
  show ?case
  proof (cases "x = c")
    case True
    have "concat (map ((#) c) (js_split c xs)) = c # xs"
      using Cons js_split_nonempty [of c xs] by (cases "js_split c xs") simp_all
    then show ?thesis using True Cons by simp
  next
    case False
    obtain p ps where "js_split c xs = p # ps" using js_split_nonempty [of c xs] by (cases "js_split c xs") auto
    then show ?thesis using False Cons by auto
  qed
qed simp

lemma js_split_append_sep: "c \<notin> set p \<Longrightarrow> js_split c (p @ c # s) = p # js_split c s"
  by (induction p) auto

lemma js_split_none: "c \<notin> set p \<Longrightarrow> js_split c p = [p]"
  by (induction p) auto

lemma js_split_concat:
  "c \<notin> set p \<Longrightarrow> \<forall>q \<in> set qs. c \<notin> set q \<Longrightarrow> js_split c (p @ concat (map ((#) c) qs)) = p # qs"
  by (induction qs arbitrary: p) (auto simp: js_split_none js_split_append_sep)

lemma bit_length_le: "n < 2 ^ k \<Longrightarrow> bit_length n \<le> k"
proof (induction k arbitrary: n)
  case 0
  then show ?case by (simp add: bit_length.simps)
next
  case (Suc k)
  then have "n div 2 < 2 ^ k" by (simp add: less_mult_imp_div_less mult.commute)
  then show ?case using Suc.IH by (subst bit_length.simps) simp
qed

lemma round_double_exact: "n < 2 ^ 53 \<Longrightarrow> round_double n = Num (int n)"
proof -
  assume n: "n < 2 ^ 53"
  then have k: "bit_length n - 53 = 0" using bit_length_le [OF n] by simp
  have "n < 2 ^ 1024" by (rule less_le_trans [OF n]) simp
  then show ?thesis unfolding round_double_def k by simp
qed

lemma digit_char:
  assumes "d < 10"
  shows "digit_value 10 (of_nat (48 + d)) = Some d" and "is_digit (of_nat (48 + d))"
proof -
  have u: "unat (of_nat (48 + d) :: u16) = 48 + d" using assms unfolding unat_of_nat by simp
  have le: "(48 :: u16) \<le> of_nat (48 + d)" "(of_nat (48 + d) :: u16) \<le> 57"
    unfolding word_le_nat_alt u using assms by simp_all
  show "digit_value 10 (of_nat (48 + d)) = Some d"
    unfolding digit_value_def Let_def u using le assms by simp
  show "is_digit (of_nat (48 + d))" using le by (simp only: is_digit_def simp_thms)
qed

lemma digits_value_append:
  "\<forall>c \<in> set xs. digit_value r c \<noteq> None \<Longrightarrow>
   digits_value r a (xs @ ys) = digits_value r (digits_value r a xs) ys"
  by (induction xs arbitrary: a) (auto split: option.splits)

lemma nat_to_string_digits: "\<forall>c \<in> set (nat_to_string n). is_digit c \<and> digit_value 10 c \<noteq> None"
proof (induction n rule: nat_to_string.induct)
  case (1 n)
  have "is_digit (of_nat (48 + n mod 10)) \<and> digit_value 10 (of_nat (48 + n mod 10)) \<noteq> None"
    using digit_char [of "n mod 10"] by simp
  moreover have "n < 10 \<Longrightarrow> n mod 10 = n" by simp
  ultimately show ?case using 1 by (subst nat_to_string.simps) (auto simp del: of_nat_add)
qed

lemma nat_to_string_nonempty: "nat_to_string n \<noteq> []"
  by (subst nat_to_string.simps) simp

lemma digits_value_nat_to_string: "digits_value 10 0 (nat_to_string n) = n"
proof (induction n rule: nat_to_string.induct)
  case (1 n)
  show ?case
  proof (cases "n < 10")
    case True
    then show ?thesis
      using digit_char(1) [OF True] by (subst nat_to_string.simps) (simp del: of_nat_add)
  next
    case False
    have "digits_value 10 0 (nat_to_string n) =
        digits_value 10 (n div 10) [of_nat (48 + n mod 10)]"
      using False 1 nat_to_string_digits [of "n div 10"]
      by (subst nat_to_string.simps) (simp add: digits_value_append del: of_nat_add digits_value.simps)
    also have "\<dots> = n" using digit_char(1) [of "n mod 10"] by (simp del: of_nat_add)
    finally show ?thesis .
  qed
qed

lemma is_digit_not_space: "is_digit c \<Longrightarrow> \<not> is_space c"
  by (auto simp: is_digit_def is_space_def word_le_nat_alt)

lemma digits_no_prefix:
  assumes "\<forall>c \<in> set s. is_digit c"
  shows "take 2 s \<noteq> js ''0x'' \<and> take 2 s \<noteq> js ''0X''"
proof -
  have "\<not> is_digit 0x78" "\<not> is_digit 0x58" by (simp_all add: is_digit_def)
  moreover have "js ''0x'' = [0x30, 0x78]" "js ''0X'' = [0x30, 0x58]" by (simp_all add: js_def)
  moreover have "\<forall>c \<in> set (take 2 s). is_digit c" using assms by (meson in_set_takeD)
  ultimately show ?thesis by auto
qed

text \<open>Printing a number and reading it back.\<close>

lemma parseInt_digits:
  assumes "s \<noteq> []" and "\<forall>c \<in> set s. is_digit c \<and> digit_value 10 c \<noteq> None"
  shows "parseInt s = round_double (digits_value 10 0 s)"
proof -
  obtain c cs where s: "s = c # cs" using assms(1) by (cases s) auto
  have c: "is_digit c" using assms(2) s by simp
  have "dropWhile is_space s = s" using is_digit_not_space [OF c] s by simp
  moreover have "c \<noteq> 45" "c \<noteq> 43" using c by (auto simp: is_digit_def)
  moreover have "take 2 s \<noteq> js ''0x''" "take 2 s \<noteq> js ''0X''" using digits_no_prefix assms(2) by blast+
  moreover have "takeWhile (\<lambda>c. digit_value 10 c \<noteq> None) s = s" using assms(2) by simp
  ultimately show ?thesis using s by (simp add: parseInt_def Let_def)
qed

lemma parseInt_nat_to_string: "n < 2 ^ 53 \<Longrightarrow> parseInt (nat_to_string n) = Num (int n)"
  using parseInt_digits [OF nat_to_string_nonempty nat_to_string_digits]
  by (simp add: digits_value_nat_to_string round_double_exact)

section \<open>Searching\<close>

lemma rx_find_hit: "rx_match r (s, None) = (s', c) # rest \<Longrightarrow> rx_find r pre s = Some (pre, c, s')"
  by (subst rx_find.simps) simp

lemma rx_find_skip:
  "(\<And>v w. u = v @ w \<Longrightarrow> w \<noteq> [] \<Longrightarrow> rx_match r (w @ s, None) = []) \<Longrightarrow>
   rx_find r pre (u @ s) = rx_find r (pre @ u) s"
proof (induction u arbitrary: pre)
  case (Cons x u)
  have "rx_match r ((x # u) @ s, None) = []" using Cons.prems [of "[]" "x # u"] by simp
  then have "rx_find r pre ((x # u) @ s) = rx_find r (pre @ [x]) (u @ s)" by (subst rx_find.simps) simp
  also have "\<dots> = rx_find r ((pre @ [x]) @ u) s"
    using Cons.IH Cons.prems by (metis append_Cons)
  finally show ?case by simp
qed simp

lemma rx_find_Nil: "rx_match r ([], None) = [] \<Longrightarrow> rx_find r pre [] = None"
  by (subst rx_find.simps) simp

lemma rx_match_plus_chr:
  "rx_match (RPlus (RChr p)) (x # xs, c) = (if p x then
     map (\<lambda>k. (drop k xs, c)) (rev [0..<Suc (length (takeWhile p xs))]) else [])"
  "rx_match (RPlus (RChr p)) ([], c) = []"
  by (simp_all add: RPlus_def rx_match_star_chr del: upt_Suc)

lemma rx_find_plus_chr:
  assumes "\<forall>x \<in> set u. \<not> p x"
  shows "p x \<Longrightarrow> rx_find (RPlus (RChr p)) pre (u @ x # xs) = Some (pre @ u, None, dropWhile p xs)"
    and "rx_find (RPlus (RChr p)) pre u = None"
proof -
  have skip: "rx_find (RPlus (RChr p)) pre (u @ s) = rx_find (RPlus (RChr p)) (pre @ u) s" for s
  proof (rule rx_find_skip)
    fix v w assume "u = v @ w" "w \<noteq> []"
    then show "rx_match (RPlus (RChr p)) (w @ s, None) = []"
      using assms by (cases w) (auto simp: rx_match_plus_chr)
  qed
  show "p x \<Longrightarrow> rx_find (RPlus (RChr p)) pre (u @ x # xs) = Some (pre @ u, None, dropWhile p xs)"
    unfolding skip by (rule rx_find_hit) (simp add: rx_match_plus_chr dropWhile_eq_drop)
  show "rx_find (RPlus (RChr p)) pre u = None"
    using skip [of "[]"] by (simp add: rx_find_Nil rx_match_plus_chr)
qed

lemma rx_split_plus_chr:
  assumes "\<forall>x \<in> set u. \<not> p x"
  shows "v \<noteq> [] \<Longrightarrow> list_all p v \<Longrightarrow> (s \<noteq> [] \<Longrightarrow> \<not> p (hd s)) \<Longrightarrow>
      rx_split (RPlus (RChr p)) (u @ v @ s) = u # rx_split (RPlus (RChr p)) s"
    and "rx_split (RPlus (RChr p)) u = [u]"
proof -
  assume v: "v \<noteq> []" "list_all p v" and s: "s \<noteq> [] \<Longrightarrow> \<not> p (hd s)"
  obtain x xs where x: "v = x # xs" using v(1) by (cases v) auto
  have "dropWhile p s = s" using s by (cases s) auto
  then have "dropWhile p (xs @ s) = s" using v(2) x by (simp add: dropWhile_append2 list_all_iff)
  then have "rx_find (RPlus (RChr p)) [] (u @ v @ s) = Some (u, None, s)"
    using rx_find_plus_chr(1) [OF assms, of x "[]" "xs @ s"] v(2) x by simp
  then show "rx_split (RPlus (RChr p)) (u @ v @ s) = u # rx_split (RPlus (RChr p)) s"
    using v(1) by (subst rx_split.simps) simp
next
  show "rx_split (RPlus (RChr p)) u = [u]"
    using rx_find_plus_chr(2) [OF assms, of "[]"] by (subst rx_split.simps) simp
qed

text \<open>An expression that stands for one word at the end of the text.\<close>

lemma rx_replace_end:
  assumes m: "\<And>s. rx_match r (s, None) = (if s = w then [([], None)] else [])" and w: "w \<noteq> []"
  shows "rx_replace r (\<lambda>_. []) s = (if endsWith s w then take (length s - length w) s else s)"
proof (cases "endsWith s w")
  case True
  then have s: "s = take (length s - length w) s @ w" (is "_ = ?u @ _")
    by (metis append_take_drop_id endsWith_def)
  have "rx_find r [] (?u @ w) = rx_find r ([] @ ?u) w"
    by (rule rx_find_skip) (simp add: m)
  also have "\<dots> = Some (?u, None, [])" by (simp add: rx_find_hit m)
  finally show ?thesis using True s by (simp add: rx_replace_def)
next
  case False
  have "rx_find r [] (s @ []) = rx_find r ([] @ s) []"
  proof (rule rx_find_skip)
    fix v u assume "s = v @ u" "u \<noteq> []"
    then show "rx_match r (u @ [], None) = []" using False by (auto simp: m endsWith_def)
  qed
  then show ?thesis using False w by (simp add: rx_replace_def rx_find_Nil m)
qed

text \<open>A greedy repetition and a class: the match ends at the last unit of the class.\<close>

lemma rx_match_last:
  assumes "list_all p (d @ c # b)" and "q c" and "\<forall>x \<in> set b. \<not> q x"
  shows "\<exists>rest. rx_match (RSeq (RStar True (RChr p)) (RChr q)) (d @ c # b, None) = (b, None) # rest"
proof -
  let ?s = "d @ c # b" and ?f = "\<lambda>k. rx_match (RChr q) (drop k (d @ c # b), None)"
  have tw: "takeWhile p ?s = ?s" using assms(1) by (simp only: takeWhile_eq_all_conv list_all_iff)
  have split: "[0..<Suc (length ?s)] = [0..<length d] @ [length d] @ [Suc (length d)..<Suc (length ?s)]"
    using upt_add_eq_append [of 0 "length d" "Suc (length (c # b))"] upt_conv_Cons [of "length d" "Suc (length ?s)"]
    by (simp del: upt_Suc)
  have late: "?f k = []" if "Suc (length d) \<le> k" for k
  proof -
    have "drop k ?s = drop (k - Suc (length d)) b" using that by (simp add: drop_Cons' )
    moreover have "\<forall>x \<in> set (drop (k - Suc (length d)) b). \<not> q x" using assms(3) in_set_dropD by metis
    ultimately show ?thesis by (simp split: list.splits)
  qed
  have "rx_match (RSeq (RStar True (RChr p)) (RChr q)) (?s, None) = concat (map ?f (rev [0..<Suc (length ?s)]))"
    by (simp only: rx_match.simps(2) rx_match_star_chr tw if_True map_map comp_def)
  also have "\<dots> = concat (map ?f (rev [Suc (length d)..<Suc (length ?s)])) @ ?f (length d) @
      concat (map ?f (rev [0..<length d]))"
    by (simp only: split rev_append map_append concat_append) simp
  also have "concat (map ?f (rev [Suc (length d)..<Suc (length ?s)])) = []"
    using late by (simp del: rx_match.simps upt_Suc)
  also have "?f (length d) = [(b, None)]" using assms(2) by simp
  finally show ?thesis by simp
qed

end
