(* ===== verification/Gui_Wizard.thy ===== *)
theory Gui_Wizard
  imports Js_Strings
begin

text \<open>
  The wallet wizard: \<open>hashmonkey-gui/js/Wizard.js\<close>. The QML objects a function reads and writes are
  the fields of a record; the wallet manager, translations and date parsing of the host are
  parameters. A thrown \<open>TypeError\<close> is an outcome that keeps the state at the point of the throw.
\<close>

section \<open>Definitions\<close>

subsection \<open>Restoring from a QR code\<close>

record extra_parameters =
  secret_view_key :: "jstring option"
  secret_spend_key :: "jstring option"
  restore_height :: "jstring option"

record restore_page =
  recoverFromSeedMode :: bool
  spendKeyLine :: jstring
  viewKeyLine :: jstring
  restoreHeight :: jstring
  addressLine :: jstring
  qrcode_connected :: bool

definition updateFromQrCode ::
  "(restore_page \<Rightarrow> restore_page) \<Rightarrow> jstring \<Rightarrow> extra_parameters \<Rightarrow> restore_page \<Rightarrow> restore_page" where
  "updateFromQrCode checkNextButton address extra page =
     (let p1 = page\<lparr>recoverFromSeedMode := False, spendKeyLine := [], viewKeyLine := [], restoreHeight := []\<rparr>;
          p2 = (case secret_view_key extra of None \<Rightarrow> p1 | Some k \<Rightarrow> p1\<lparr>viewKeyLine := k\<rparr>);
          p3 = (case secret_spend_key extra of None \<Rightarrow> p2 | Some k \<Rightarrow> p2\<lparr>spendKeyLine := k\<rparr>);
          p4 = (case restore_height extra of None \<Rightarrow> p3 | Some h \<Rightarrow> p3\<lparr>restoreHeight := h\<rparr>);
          p5 = p4\<lparr>addressLine := address, qrcode_connected := False\<rparr>
      in checkNextButton p5)"

subsection \<open>Pages\<close>

record 'st page =
  opacity :: nat
  onPageClosed :: "('st \<Rightarrow> 'st \<times> bool) option"
  onPageOpened :: "('st \<Rightarrow> bool \<Rightarrow> 'st) option"

record 'st wizard =
  pages :: "'st page list"
  currentPage :: int
  settings :: 'st
  nextButton_visible :: bool
  buttons_centered :: bool
  focus_released :: bool

datatype outcome = Done | Refused | TypeError

definition page_at :: "'st wizard \<Rightarrow> 'st page option" where
  "page_at w =
     (if 0 \<le> currentPage w \<and> nat (currentPage w) < length (pages w)
      then Some (pages w ! nat (currentPage w)) else None)"

definition set_opacity :: "nat \<Rightarrow> 'st wizard \<Rightarrow> 'st wizard" where
  "set_opacity a w =
     w\<lparr>pages := (pages w)[nat (currentPage w) := (pages w ! nat (currentPage w))\<lparr>opacity := a\<rparr>]\<rparr>"

text \<open>\<open>switchPage\<close> after the current page allowed to be left.\<close>

definition turn_page :: "bool \<Rightarrow> 'st wizard \<Rightarrow> outcome \<times> 'st wizard" where
  "turn_page next w =
     (let w1 = w\<lparr>buttons_centered := True\<rparr>
      in if currentPage w1 > 0 \<or> currentPage w1 < int (length (pages w1)) - 1
         then case page_at w1 of None \<Rightarrow> (TypeError, w1)
              | Some _ \<Rightarrow>
                  let w2 = set_opacity 0 w1;
                      w3 = w2\<lparr>currentPage := currentPage w2 + (if next then 1 else - 1)\<rparr>
                  in case page_at w3 of None \<Rightarrow> (TypeError, w3)
                     | Some p \<Rightarrow>
                         let w4 = set_opacity 1 w3;
                             w5 = w4\<lparr>nextButton_visible :=
                               (currentPage w4 > 1 \<and> currentPage w4 < int (length (pages w4)) - 1)\<rparr>
                         in case onPageOpened p of None \<Rightarrow> (Done, w5)
                            | Some f \<Rightarrow> (Done, w5\<lparr>settings := f (settings w5) next\<rparr>)
         else (Done, w1))"

definition switchPage :: "bool \<Rightarrow> 'st wizard \<Rightarrow> outcome \<times> 'st wizard" where
  "switchPage next w =
     (let w0 = w\<lparr>focus_released := True\<rparr>
      in if next
         then case page_at w0 of None \<Rightarrow> (TypeError, w0)
              | Some p \<Rightarrow>
                  (case onPageClosed p of None \<Rightarrow> turn_page next w0
                   | Some f \<Rightarrow> let (st, ok) = f (settings w0); w1 = w0\<lparr>settings := st\<rparr>
                             in if \<not> ok then (Refused, w1) else turn_page next w1)
         else turn_page next w0)"

subsection \<open>Wallet paths and names\<close>

definition createWalletPath :: "bool \<Rightarrow> jstring \<Rightarrow> jstring \<Rightarrow> jstring" where
  "createWalletPath isIOS folder_path account_name =
     (if isIOS then [] else folder_path) @ js ''/'' @ account_name @ js ''/'' @ account_name"

text \<open>A missing argument or an empty one is falsy.\<close>

definition walletPathExists ::
  "(jstring \<Rightarrow> bool) \<Rightarrow> jstring \<Rightarrow> jstring option \<Rightarrow> jstring option \<Rightarrow> bool \<Rightarrow> bool" where
  "walletPathExists walletExists accountsDir directory filename isIOS =
     (case filename of None \<Rightarrow> False
      | Some f \<Rightarrow> if f = [] then False
        else case directory of None \<Rightarrow> False
        | Some d \<Rightarrow> if d = [] then False
          else let d' = (if \<not> endsWith d (js ''/'') \<and> \<not> endsWith d [0x5C] then d @ js ''/'' else d);
                   path = (if isIOS then accountsDir @ f else d' @ f @ js ''/'' @ f)
               in walletExists path)"

definition candidate_name :: "jstring \<Rightarrow> nat \<Rightarrow> jstring" where
  "candidate_name filename i = filename @ (if i > 0 then js ''_'' @ nat_to_string i else [])"

fun unused_loop :: "(jstring \<Rightarrow> bool) \<Rightarrow> jstring \<Rightarrow> jstring \<Rightarrow> nat list \<Rightarrow> jstring" where
  "unused_loop walletExists directory filename [] = filename"
| "unused_loop walletExists directory filename (i # is) =
     (let walletName = candidate_name filename i
      in if \<not> walletExists (directory @ js ''/'' @ walletName @ js ''/'' @ walletName) then walletName
         else unused_loop walletExists directory filename is)"

definition unusedWalletName :: "(jstring \<Rightarrow> bool) \<Rightarrow> jstring \<Rightarrow> jstring \<Rightarrow> jstring" where
  "unusedWalletName walletExists directory filename =
     unused_loop walletExists directory filename [0..<100]"

fun isAscii :: "jstring \<Rightarrow> bool" where
  "isAscii [] = True"
| "isAscii (c # cs) = (if c > 127 then False else isAscii cs)"

definition tr :: "(jstring \<Rightarrow> jstring) \<Rightarrow> jstring \<Rightarrow> jstring \<Rightarrow> jstring" where
  "tr qsTr emptyString text = qsTr text @ emptyString"

text \<open>The expressions \<open>/.*[\/\\]/\<close> and \<open>/\.keys$/\<close>.\<close>

definition rx_directory :: rx where
  "rx_directory = RSeq (RStar True RDot) (RChr (\<lambda>c. c = 0x2F \<or> c = 0x5C))"

definition rx_keys :: rx where
  "rx_keys = RSeq (RUnit 0x2E) (RSeq (RUnit 0x6B) (RSeq (RUnit 0x65) (RSeq (RUnit 0x79) (RSeq (RUnit 0x73) REol))))"

definition usefulName :: "jstring \<Rightarrow> jstring" where
  "usefulName path =
     (if length path < 32 then path
      else rx_replace rx_keys (\<lambda>_. []) (rx_replace rx_directory (\<lambda>_. []) path))"

definition checkSeed :: "jstring \<Rightarrow> bool" where
  "checkSeed seed =
     (let wordsArray = rx_split (RPlus (RChr is_space)) seed
      in length wordsArray = 25 \<or> length wordsArray = 24)"

definition restoreWalletCheckViewSpendAddress ::
  "(jstring \<Rightarrow> 'net \<Rightarrow> bool) \<Rightarrow> (jstring \<Rightarrow> jstring \<Rightarrow> bool \<Rightarrow> 'net \<Rightarrow> bool) \<Rightarrow>
   'net \<Rightarrow> jstring \<Rightarrow> jstring \<Rightarrow> jstring \<Rightarrow> bool list" where
  "restoreWalletCheckViewSpendAddress addressValid keyValid nettype viewkey spendkey addressline =
     [addressValid addressline nettype, keyValid viewkey addressline True nettype,
      keyValid spendkey addressline False nettype]"

subsection \<open>Dates to heights\<close>

definition moneroBirthTime :: "jstring \<Rightarrow> int" where
  "moneroBirthTime nettype =
     (if nettype = js ''Mainnet'' then 1397818193 else if nettype = js ''Testnet'' then 1410295020 else 1518932025)"

definition forkTime :: "jstring \<Rightarrow> int" where
  "forkTime nettype =
     (if nettype = js ''Mainnet'' then 1458748658 else if nettype = js ''Testnet'' then 1448285909 else 1520937818)"

definition forkBlock :: "jstring \<Rightarrow> int" where
  "forkBlock nettype =
     (if nettype = js ''Mainnet'' then 1009827 else if nettype = js ''Testnet'' then 624634 else 32000)"

text \<open>
  The estimate for a requested time. A date that does not parse is \<open>NaN\<close>: every comparison with
  it fails, and so does the last one.
\<close>

definition approximate_height :: "int \<Rightarrow> jstring \<Rightarrow> int" where
  "approximate_height requestedTime nettype =
     (if requestedTime < moneroBirthTime nettype then 0
      else let v1 = (requestedTime > moneroBirthTime nettype \<and> requestedTime < forkTime nettype);
               approx = (if v1 then (requestedTime - moneroBirthTime nettype) div 60
                         else forkBlock nettype + (requestedTime - forkTime nettype) div 120);
               secondsPerBlock = (if v1 then 60 else 120);
               rolledBack = (if nettype = js ''Testnet'' then 342100 else 60000);
               approx' = (if (nettype = js ''Testnet'' \<or> nettype = js ''Stagenet'') \<and> approx > rolledBack
                          then approx - rolledBack else approx);
               blocksPerMonth = 60 * 60 * 24 * 30 div secondsPerBlock
           in if approx' - blocksPerMonth > 0 then approx' - blocksPerMonth else 0)"

definition getApproximateBlockchainHeight :: "(jstring \<Rightarrow> int option) \<Rightarrow> jstring \<Rightarrow> jstring \<Rightarrow> int" where
  "getApproximateBlockchainHeight Date_ms date nettype =
     (case Date_ms date of None \<Rightarrow> 0 | Some ms \<Rightarrow> approximate_height (ms div 1000) nettype)"

subsection \<open>Specification\<close>

text \<open>Exactly the current page is visible.\<close>

definition wizard_ok :: "'st wizard \<Rightarrow> bool" where
  "wizard_ok w \<longleftrightarrow> 0 \<le> currentPage w \<and> currentPage w < int (length (pages w)) \<and>
     (\<forall>i < length (pages w). opacity (pages w ! i) = (if int i = currentPage w then 1 else 0))"

definition next_page :: "bool \<Rightarrow> 'st wizard \<Rightarrow> int" where
  "next_page next w = currentPage w + (if next then 1 else - 1)"

definition blank_page :: "nat \<Rightarrow> bool page" where
  "blank_page a = \<lparr>opacity = a, onPageClosed = None, onPageOpened = None\<rparr>"

definition three_pages :: "bool wizard" where
  "three_pages = \<lparr>pages = [blank_page 1, blank_page 0, blank_page 0], currentPage = 0, settings = True,
     nextButton_visible = False, buttons_centered = False, focus_released = False\<rparr>"

section \<open>Wallet names\<close>

lemma unused_loop_correct:
  fixes walletExists directory filename
  defines "taken i \<equiv> walletExists (directory @ js ''/'' @ candidate_name filename i @ js ''/'' @ candidate_name filename i)"
  shows "(\<exists>us i vs. ks = us @ i # vs \<and> list_all taken us \<and> \<not> taken i \<and>
      unused_loop walletExists directory filename ks = candidate_name filename i) \<or>
    list_all taken ks \<and> unused_loop walletExists directory filename ks = filename"
proof (induction ks)
  case (Cons i ks)
  show ?case
  proof (cases "taken i")
    case True
    then have u: "unused_loop walletExists directory filename (i # ks) = unused_loop walletExists directory filename ks"
      by (simp add: taken_def Let_def)
    from Cons show ?thesis
    proof
      assume "\<exists>us j vs. ks = us @ j # vs \<and> list_all taken us \<and> \<not> taken j \<and>
        unused_loop walletExists directory filename ks = candidate_name filename j"
      then obtain us j vs where "i # ks = (i # us) @ j # vs" "list_all taken (i # us)" "\<not> taken j"
        "unused_loop walletExists directory filename (i # ks) = candidate_name filename j"
        using True u by auto
      then show ?thesis by blast
    qed (use True u in simp)
  next
    case False
    then have "unused_loop walletExists directory filename (i # ks) = candidate_name filename i"
      by (simp add: taken_def Let_def)
    then show ?thesis using False by (intro disjI1 exI [of _ "[]"]) auto
  qed
qed simp

section \<open>Pages\<close>

lemma page_at_Some: "0 \<le> currentPage w \<Longrightarrow> currentPage w < int (length (pages w)) \<Longrightarrow>
    page_at w = Some (pages w ! nat (currentPage w))"
  by (simp add: page_at_def nat_less_iff)

lemma turn_page_ok:
  assumes ok: "wizard_ok w" and t: "0 \<le> next_page next w" "next_page next w < int (length (pages w))"
  shows "\<exists>w'. turn_page next w = (Done, w') \<and> wizard_ok w' \<and> currentPage w' = next_page next w \<and>
    length (pages w') = length (pages w) \<and>
    nextButton_visible w' = (1 < next_page next w \<and> next_page next w < int (length (pages w)) - 1)"
proof -
  let ?c = "currentPage w" and ?t = "next_page next w"
  let ?w1 = "w\<lparr>buttons_centered := True\<rparr>"
  let ?w3 = "(set_opacity 0 ?w1)\<lparr>currentPage := ?t\<rparr>"
  let ?w5 = "(set_opacity 1 ?w3)\<lparr>nextButton_visible := (1 < ?t \<and> ?t < int (length (pages w)) - 1)\<rparr>"
  have c: "0 \<le> ?c" "?c < int (length (pages w))" and ne: "?c \<noteq> ?t"
    using ok by (auto simp: wizard_ok_def next_page_def)
  have p1: "page_at ?w1 = Some (pages w ! nat ?c)" using page_at_Some [of ?w1] c by simp
  have p3: "page_at ?w3 = Some (pages ?w3 ! nat ?t)" using page_at_Some [of ?w3] t by (simp add: set_opacity_def)
  have g: "?c > 0 \<or> ?c < int (length (pages w)) - 1" using t by (auto simp: next_page_def split: if_splits)
  have tp: "turn_page next w = (Done, case onPageOpened (pages ?w3 ! nat ?t) of None \<Rightarrow> ?w5
      | Some f \<Rightarrow> ?w5\<lparr>settings := f (settings ?w5) next\<rparr>)"
    using g p1 p3 by (auto simp: turn_page_def Let_def next_page_def set_opacity_def split: option.splits)
  have "wizard_ok ?w5"
    using ok c t ne by (auto simp: wizard_ok_def set_opacity_def nth_list_update nat_less_iff)
  then show ?thesis
    unfolding tp by (auto simp: wizard_ok_def set_opacity_def split: option.splits)
qed

lemma turn_page_off:
  assumes ok: "wizard_ok w" and n: "2 \<le> length (pages w)"
    and off: "\<not> (0 \<le> next_page next w \<and> next_page next w < int (length (pages w)))"
  shows "\<exists>w'. turn_page next w = (TypeError, w') \<and> currentPage w' = next_page next w \<and>
    (\<forall>i < length (pages w'). opacity (pages w' ! i) = 0)"
proof -
  let ?c = "currentPage w" and ?t = "next_page next w"
  let ?w1 = "w\<lparr>buttons_centered := True\<rparr>"
  let ?w3 = "(set_opacity 0 ?w1)\<lparr>currentPage := ?t\<rparr>"
  have c: "0 \<le> ?c" "?c < int (length (pages w))" using ok by (simp_all add: wizard_ok_def)
  have p1: "page_at ?w1 = Some (pages w ! nat ?c)" using page_at_Some [of ?w1] c by simp
  have p3: "page_at ?w3 = None" using off by (auto simp: page_at_def set_opacity_def nat_less_iff)
  have g: "?c > 0 \<or> ?c < int (length (pages w)) - 1" using n c by linarith
  have "turn_page next w = (TypeError, ?w3)"
    using g p1 p3 by (auto simp: turn_page_def Let_def next_page_def set_opacity_def)
  moreover have "\<forall>i < length (pages ?w3). opacity (pages ?w3 ! i) = 0"
    using ok c by (auto simp: wizard_ok_def set_opacity_def nth_list_update)
  ultimately show ?thesis by simp
qed

lemma switchPage_cases:
  assumes "wizard_ok w"
  shows "next \<and> (\<exists>st. switchPage next w = (Refused, w\<lparr>focus_released := True, settings := st\<rparr>)) \<or>
    (\<exists>st. switchPage next w = turn_page next (w\<lparr>focus_released := True, settings := st\<rparr>))"
proof -
  have p: "page_at (w\<lparr>focus_released := True\<rparr>) = Some (pages w ! nat (currentPage w))"
    using assms page_at_Some [of "w\<lparr>focus_released := True\<rparr>"] by (simp add: wizard_ok_def)
  have e: "w\<lparr>focus_released := True\<rparr> = w\<lparr>focus_released := True, settings := settings w\<rparr>" by simp
  show ?thesis
  proof (cases "next")
    case False
    then have "switchPage next w = turn_page next (w\<lparr>focus_released := True\<rparr>)" by (simp add: switchPage_def)
    then show ?thesis using e by metis
  next
    case True
    show ?thesis
    proof (cases "onPageClosed (pages w ! nat (currentPage w))")
      case None
      then have "switchPage next w = turn_page next (w\<lparr>focus_released := True\<rparr>)"
        using True p by (simp add: switchPage_def)
      then show ?thesis using e by metis
    next
      case (Some f)
      then show ?thesis using True p by (auto simp: switchPage_def Let_def split: prod.splits)
    qed
  qed
qed

lemma wizard_ok_frame [simp]:
  "wizard_ok (w\<lparr>focus_released := b, settings := st\<rparr>) = wizard_ok w"
  "next_page next (w\<lparr>focus_released := b, settings := st\<rparr>) = next_page next w"
  "wizard_ok (w\<lparr>focus_released := b\<rparr>) = wizard_ok w"
  "next_page next (w\<lparr>focus_released := b\<rparr>) = next_page next w"
  by (simp_all add: wizard_ok_def next_page_def)

section \<open>Seeds and file names\<close>

lemma rx_split_words:
  assumes "\<forall>x \<in> set w. \<not> p x"
    and "\<forall>(v, u) \<in> set vus. v \<noteq> [] \<and> list_all p v \<and> u \<noteq> [] \<and> (\<forall>x \<in> set u. \<not> p x)"
  shows "rx_split (RPlus (RChr p)) (w @ concat (map (\<lambda>(v, u). v @ u) vus)) = w # map snd vus"
  using assms
proof (induction vus arbitrary: w)
  case Nil
  then show ?case using rx_split_plus_chr(2) [of w p] by simp
next
  case (Cons vu vus)
  obtain v u where vu: "vu = (v, u)" by (cases vu)
  let ?s = "u @ concat (map (\<lambda>(v, u). v @ u) vus)"
  have hd: "\<not> p (hd ?s)" using Cons.prems(2) vu by (cases u) auto
  have "rx_split (RPlus (RChr p)) (w @ v @ ?s) = w # rx_split (RPlus (RChr p)) ?s"
    by (rule rx_split_plus_chr) (use Cons.prems vu hd in auto)
  then show ?case using Cons vu by simp
qed

lemma rx_keys_match: "rx_match rx_keys (s, None) = (if s = js ''.keys'' then [([], None)] else [])"
  by (auto simp: rx_keys_def RUnit_def js_def split: list.splits)

text \<open>At the birth time itself neither strict comparison holds and the later version's rate is used.\<close>

lemma approximate_height_at_birth:
  "approximate_height (moneroBirthTime (js ''Mainnet'')) (js ''Mainnet'') = 480473"
  "approximate_height (moneroBirthTime (js ''Mainnet'') + 1) (js ''Mainnet'') = 0"
  by (simp_all add: approximate_height_def moneroBirthTime_def forkTime_def forkBlock_def js_def Let_def)

text \<open>
  \<open>usefulName\<close> of a long path is the name after the last separator, without the extension
  \<open>.keys\<close>.
\<close>

lemma usefulName_basename:
  assumes "32 \<le> length (dir @ sep # base)" and "sep = 0x2F \<or> sep = 0x5C"
    and "\<forall>x \<in> set base. x \<noteq> 0x2F \<and> x \<noteq> 0x5C" and "\<forall>x \<in> set (dir @ base). \<not> is_line_end x"
  shows "usefulName (dir @ sep # base) =
    (if endsWith base (js ''.keys'') then take (length base - 5) base else base)"
proof -
  have "list_all (\<lambda>c. \<not> is_line_end c) (dir @ sep # base)"
  proof -
    have "\<not> is_line_end sep" using assms(2) by (elim disjE) (simp_all add: is_line_end_def)
    then show ?thesis using assms(4) by (simp add: list_all_iff)
  qed
  then obtain rest where "rx_match rx_directory (dir @ sep # base, None) = (base, None) # rest"
    using rx_match_last [of "\<lambda>c. \<not> is_line_end c" dir sep base "\<lambda>c. c = 0x2F \<or> c = 0x5C"] assms(2,3)
    by (simp only: rx_directory_def RDot_def de_Morgan_disj) blast
  then have "rx_replace rx_directory (\<lambda>_. []) (dir @ sep # base) = base"
    by (simp add: rx_replace_def rx_find_hit)
  moreover have "rx_replace rx_keys (\<lambda>_. []) base =
      (if endsWith base (js ''.keys'') then take (length base - 5) base else base)"
  proof -
    have "js ''.keys'' \<noteq> []" "length (js ''.keys'') = 5" by (simp_all add: js_def)
    then show ?thesis using rx_replace_end [OF rx_keys_match, of base] by metis
  qed
  ultimately show ?thesis using assms(1) by (simp add: usefulName_def)
qed

section \<open>Properties\<close>

text \<open>
  \<open>unusedWalletName\<close> returns the first name of the sequence \<open>filename\<close>, \<open>filename_1\<close>, ...,
  \<open>filename_99\<close> for which no wallet exists; only when all hundred exist it returns \<open>filename\<close>
  itself, which is then in use.
\<close>

lemma unusedWalletName_correct:
  fixes walletExists directory filename
  defines "taken i \<equiv> walletExists (directory @ js ''/'' @ candidate_name filename i @ js ''/'' @ candidate_name filename i)"
  shows "(\<exists>i < 100. (\<forall>j < i. taken j) \<and> \<not> taken i \<and>
      unusedWalletName walletExists directory filename = candidate_name filename i) \<or>
    (\<forall>i < 100. taken i) \<and> unusedWalletName walletExists directory filename = filename"
proof -
  consider (free) us i vs where "[0..<100] = us @ i # vs" "list_all taken us" "\<not> taken i"
      "unusedWalletName walletExists directory filename = candidate_name filename i"
    | (full) "list_all taken [0..<100]" "unusedWalletName walletExists directory filename = filename"
    using unused_loop_correct [of "[0..<100]" walletExists directory filename]
    unfolding taken_def [abs_def] unusedWalletName_def by blast
  then show ?thesis
  proof cases
    case free
    have l: "length us < 100" using arg_cong [OF free(1), of length] by simp
    have "i = length us" using arg_cong [OF free(1), of "\<lambda>l. l ! length us"] l by (simp del: upt_rec_numeral)
    moreover have "us = [0..<length us]"
      using arg_cong [OF free(1), of "take (length us)"] l by (simp add: take_upt del: upt_rec_numeral)
    ultimately show ?thesis using free l by (metis atLeastLessThan_iff atLeastLessThan_upt le0 list_all_iff)
  qed (auto simp: list_all_iff simp del: upt_rec_numeral)
qed

text \<open>
  C38: Turning a page inside the wizard keeps exactly the current page visible: the step is either
  refused by the page that is left, and then the pages stand, or it ends on the neighbouring page
  with the next button shown strictly between the second page and the last.
\<close>

theorem switchPage_correct:
  assumes "wizard_ok w" and "0 \<le> next_page next w" and "next_page next w < int (length (pages w))"
  shows "\<exists>r w'. switchPage next w = (r, w') \<and> wizard_ok w' \<and> length (pages w') = length (pages w) \<and>
    (r = Refused \<and> next \<and> pages w' = pages w \<and> currentPage w' = currentPage w \<or>
     r = Done \<and> currentPage w' = next_page next w \<and>
       nextButton_visible w' = (1 < currentPage w' \<and> currentPage w' < int (length (pages w)) - 1))"
proof -
  from switchPage_cases [OF assms(1), of "next"] show ?thesis
  proof (elim disjE exE conjE)
    fix st assume "next" and "switchPage next w = (Refused, w\<lparr>focus_released := True, settings := st\<rparr>)"
    then show ?thesis using assms(1) by simp
  next
    fix st assume s: "switchPage next w = turn_page next (w\<lparr>focus_released := True, settings := st\<rparr>)"
    then show ?thesis using turn_page_ok [of "w\<lparr>focus_released := True, settings := st\<rparr>" "next"] assms by auto
  qed
qed

theorem switchPage_correct_witness:
  "\<exists>r w'. switchPage True three_pages = (r, w') \<and> wizard_ok w' \<and> length (pages w') = length (pages three_pages) \<and>
    (r = Refused \<and> True \<and> pages w' = pages three_pages \<and> currentPage w' = currentPage three_pages \<or>
     r = Done \<and> currentPage w' = next_page True three_pages \<and>
       nextButton_visible w' = (1 < currentPage w' \<and> currentPage w' < int (length (pages three_pages)) - 1))"
  by (rule switchPage_correct)
    (simp_all add: wizard_ok_def next_page_def three_pages_def blank_page_def All_less_Suc)

text \<open>
  The guard of \<open>switchPage\<close> does not keep the index in range: one step back from the first
  page, or one step forward from the last one when that page lets itself be left, throws with
  every page hidden and the index outside the pages.
\<close>

lemma switchPage_off_the_end:
  assumes "wizard_ok w" and "2 \<le> length (pages w)"
    and "\<not> next \<and> currentPage w = 0 \<or>
      next \<and> currentPage w = int (length (pages w)) - 1 \<and> onPageClosed (pages w ! nat (currentPage w)) = None"
  shows "\<exists>w'. switchPage next w = (TypeError, w') \<and> currentPage w' = next_page next w \<and>
    \<not> (0 \<le> currentPage w' \<and> currentPage w' < int (length (pages w))) \<and>
    (\<forall>i < length (pages w'). opacity (pages w' ! i) = 0)"
proof -
  let ?w = "w\<lparr>focus_released := True, settings := settings w\<rparr>"
  have "page_at (w\<lparr>focus_released := True\<rparr>) = Some (pages w ! nat (currentPage w))"
    using assms(1) page_at_Some [of "w\<lparr>focus_released := True\<rparr>"] by (simp add: wizard_ok_def)
  then have s: "switchPage next w = turn_page next ?w" using assms(3) by (auto simp: switchPage_def)
  have off: "\<not> (0 \<le> next_page next w \<and> next_page next w < int (length (pages w)))"
    using assms(3) by (auto simp: next_page_def)
  then show ?thesis using turn_page_off [of ?w "next"] assms s by auto
qed

text \<open>
  \<open>checkSeed\<close> accepts a seed exactly when it has 24 or 25 words, whatever white space stands
  between the words.
\<close>

lemma checkSeed_counts_words:
  assumes "\<forall>x \<in> set w. \<not> is_space x"
    and "\<forall>(v, u) \<in> set vus. v \<noteq> [] \<and> list_all is_space v \<and> u \<noteq> [] \<and> (\<forall>x \<in> set u. \<not> is_space x)"
  shows "checkSeed (w @ concat (map (\<lambda>(v, u). v @ u) vus)) \<longleftrightarrow> Suc (length vus) \<in> {24, 25}"
  using rx_split_words [OF assms] by (auto simp: checkSeed_def)

text \<open>
  The estimate has the month of slack its comment promises: on the main network, from a month
  after the second version on, the height for a date is the raw estimate of the moment thirty
  days earlier, so it never exceeds the raw estimate and never is negative.
\<close>

lemma approximate_height_month_before:
  assumes "forkTime (js ''Mainnet'') + 2592000 \<le> t"
  shows "approximate_height t (js ''Mainnet'') =
      forkBlock (js ''Mainnet'') + (t - 2592000 - forkTime (js ''Mainnet'')) div 120 \<and>
    0 < approximate_height t (js ''Mainnet'')"
proof -
  have "t - 1458748658 = (t - 1461340658) + 21600 * 120" by simp
  then have "(t - 1461340658) div 120 = (t - 1458748658) div 120 - 21600" by (simp only: div_mult_self1)
  moreover have "(t - 1458748658) div 120 \<ge> 21600" using assms by (simp add: forkTime_def)
  ultimately show ?thesis using assms
    by (simp add: approximate_height_def forkTime_def forkBlock_def moneroBirthTime_def js_def Let_def)
qed

text \<open>
  The constants are those of another chain. From 20 May 2025 on, the time of the first fork
  of this one, the height restored from is at least 3396404 blocks above every height that blocks
  of 120 seconds can have reached since then.
\<close>

lemma restore_height_above_chain:
  assumes "1747730000 \<le> t"
  shows "(t - 1747730000) div 120 + 3396404 \<le> approximate_height t (js ''Mainnet'')"
proof -
  have "(t - 1747730000 + 2408177 * 120) div 120 \<le> (t - 1458748658) div 120"
    by (rule zdiv_mono1) simp_all
  then have "(t - 1747730000) div 120 + 2408177 \<le> (t - 1458748658) div 120" by (simp only: div_mult_self1)
  then show ?thesis using assms
    by (simp add: approximate_height_def forkTime_def forkBlock_def moneroBirthTime_def js_def Let_def)
qed

end
