(* ===== verification/Gui_Utils.thy ===== *)
theory Gui_Utils
  imports Gui_Wizard
begin

text \<open>
  Helpers of the wallet interface: \<open>hashmonkey-gui/js/Utils.js\<close>. Translation, the clock, locale
  formatting and the upper-case table of the host are parameters.
\<close>

section \<open>Definitions\<close>

subsection \<open>Dates and times\<close>

type_synonym js_object = "(jstring \<times> jstring) list"

text \<open>Assigning a property: the value is replaced in place, a new property comes last.\<close>

fun js_put :: "jstring \<Rightarrow> jstring \<Rightarrow> js_object \<Rightarrow> js_object" where
  "js_put k v [] = [(k, v)]"
| "js_put k v ((k', v') # ps) = (if k = k' then (k, v) # ps else (k', v') # js_put k v ps)"

definition default_date_options :: js_object where
  "default_date_options =
     [(js ''weekday'', js ''short''), (js ''year'', js ''numeric''), (js ''month'', js ''long''),
      (js ''day'', js ''numeric''), (js ''hour'', js ''2-digit''), (js ''minute'', js ''2-digit''),
      (js ''timeZone'', js ''UTC''), (js ''timeZoneName'', js ''short'')]"

definition merge_objects :: "js_object list \<Rightarrow> js_object" where
  "merge_objects objs = foldl (foldl (\<lambda>r (k, v). js_put k v r)) [] objs"

definition formatDate :: "('d \<Rightarrow> jstring \<Rightarrow> js_object \<Rightarrow> jstring) \<Rightarrow> 'd \<Rightarrow> js_object \<Rightarrow> jstring" where
  "formatDate toLocaleString date params =
     toLocaleString date (js ''en-US'') (merge_objects [default_date_options, params])"

text \<open>The clock is in milliseconds; times are in seconds.\<close>

definition ago :: "(jstring \<Rightarrow> int \<Rightarrow> jstring) \<Rightarrow> int \<Rightarrow> int \<Rightarrow> jstring" where
  "ago qsTr now_ms epoch =
     (let delta_ms = max (now_ms - 1000 * epoch) 0
      in if delta_ms < 1000 * 60 then qsTr (js ''%n second(s) ago'') (delta_ms div 1000)
         else if delta_ms < 1000 * 3600 then qsTr (js ''%n minute(s) ago'') (delta_ms div (1000 * 60))
         else if delta_ms < 1000 * 86400 then qsTr (js ''%n hour(s) ago'') (delta_ms div (1000 * 3600))
         else qsTr (js ''%n day(s) ago'') (delta_ms div (1000 * 86400)))"

definition netTypeToString :: "(jstring \<Rightarrow> jstring) \<Rightarrow> int \<Rightarrow> jstring" where
  "netTypeToString qsTr nettype =
     (if nettype = 1 then qsTr (js ''Testnet'') else if nettype = 2 then qsTr (js ''Stagenet'')
      else qsTr (js ''Mainnet''))"

definition epoch :: "int \<Rightarrow> int" where
  "epoch now_ms = now_ms div 1000"

definition roundDownToNearestThousand :: "int \<Rightarrow> int" where
  "roundDownToNearestThousand num = num div 1000 * 1000"

subsection \<open>Numbers in text\<close>

text \<open>An unsigned decimal literal that fills the string: mantissa and power of ten.\<close>

definition decimal_literal :: "jstring \<Rightarrow> (nat \<times> int) option" where
  "decimal_literal s =
     (let ip = takeWhile is_digit s;
          s1 = dropWhile is_digit s;
          dot = (s1 \<noteq> [] \<and> hd s1 = 0x2E);
          fp = (if dot then takeWhile is_digit (tl s1) else []);
          s2 = (if dot then dropWhile is_digit (tl s1) else s1);
          m = digits_value 10 0 (ip @ fp)
      in if ip = [] \<and> fp = [] then None
         else if s2 = [] then Some (m, - int (length fp))
         else if hd s2 = 0x65 \<or> hd s2 = 0x45
         then let s3 = tl s2;
                  neg = (s3 \<noteq> [] \<and> hd s3 = 45);
                  ds = (if s3 \<noteq> [] \<and> (hd s3 = 45 \<or> hd s3 = 43) then tl s3 else s3);
                  e = int (digits_value 10 0 ds)
              in if ds = [] \<or> \<not> list_all is_digit ds then None
                 else Some (m, (if neg then - e else e) - int (length fp))
         else None)"

text \<open>Below the point where rounding to a double gives infinity.\<close>

definition decimal_finite :: "nat \<times> int \<Rightarrow> bool" where
  "decimal_finite v =
     (case v of (m, e) \<Rightarrow>
        if e \<ge> 0 then m * 10 ^ nat e < 2 ^ 1024 - 2 ^ 970 else m < (2 ^ 1024 - 2 ^ 970) * 10 ^ nat (- e))"

definition radix_literal :: "jstring \<Rightarrow> nat option" where
  "radix_literal s =
     (let radix = (if take 2 s = js ''0x'' \<or> take 2 s = js ''0X'' then 16
                   else if take 2 s = js ''0o'' \<or> take 2 s = js ''0O'' then 8
                   else if take 2 s = js ''0b'' \<or> take 2 s = js ''0B'' then 2 else 0);
          ds = drop 2 s
      in if radix = 0 \<or> ds = [] \<or> \<not> list_all (\<lambda>c. digit_value radix c \<noteq> None) ds then None
         else Some (digits_value radix 0 ds))"

definition strip_sign :: "jstring \<Rightarrow> jstring" where
  "strip_sign s = (if s \<noteq> [] \<and> (hd s = 45 \<or> hd s = 43) then tl s else s)"

text \<open>\<open>isFinite\<close> of a string: its value as a number is finite. The empty text counts as zero.\<close>

definition js_isFinite :: "jstring \<Rightarrow> bool" where
  "js_isFinite str =
     (let s = rev (dropWhile is_space (rev (dropWhile is_space str)))
      in if s = [] then True
         else case radix_literal s of Some n \<Rightarrow> decimal_finite (n, 0)
              | None \<Rightarrow> (case decimal_literal (strip_sign s) of None \<Rightarrow> False | Some v \<Rightarrow> decimal_finite v))"

text \<open>\<open>parseFloat\<close> is not \<open>NaN\<close>: after white space and a sign comes a digit, a point and a digit, or \<open>Infinity\<close>.\<close>

definition parseFloat_is_number :: "jstring \<Rightarrow> bool" where
  "parseFloat_is_number str =
     (let s = strip_sign (dropWhile is_space str)
      in startsWith s (js ''Infinity'') \<or>
         (case s of [] \<Rightarrow> False | [c] \<Rightarrow> is_digit c | c # d # _ \<Rightarrow> is_digit c \<or> c = 0x2E \<and> is_digit d))"

definition isNumeric :: "jstring \<Rightarrow> bool" where
  "isNumeric n \<longleftrightarrow> parseFloat_is_number n \<and> js_isFinite n"

text \<open>The expressions \<open>/(\.\d*?)0+$/\<close> and \<open>/\.$/\<close>.\<close>

definition rx_zeros :: rx where
  "rx_zeros = RSeq (RGroup (RSeq (RUnit 0x2E) (RStar False (RChr is_digit)))) (RSeq (RPlus (RUnit 0x30)) REol)"

definition rx_point :: rx where
  "rx_point = RSeq (RUnit 0x2E) REol"

definition removeTrailingZeros :: "jstring \<Rightarrow> jstring" where
  "removeTrailingZeros value =
     rx_replace rx_point (\<lambda>_. []) (rx_replace rx_zeros (\<lambda>c. case c of None \<Rightarrow> [] | Some t \<Rightarrow> t) value)"

definition parseDateStringOrRestoreHeightAsInteger ::
  "(jstring \<Rightarrow> int option) \<Rightarrow> (jstring \<Rightarrow> jstring) \<Rightarrow> int \<Rightarrow> jstring \<Rightarrow> js_num" where
  "parseDateStringOrRestoreHeightAsInteger Date_ms qsTr nettype value =
     (let year_ok = (case parseInt (substring_to value 0 4) of Num y \<Rightarrow> 2014 \<le> y \<and> y \<le> 2025 | _ \<Rightarrow> False)
      in if indexOf value 45 = 4 \<and> length value = 10
         then Num (getApproximateBlockchainHeight Date_ms value (netTypeToString qsTr nettype))
         else if year_ok \<and> length value = 8
         then Num (getApproximateBlockchainHeight Date_ms
           (substring_to value 0 4 @ js ''-'' @ substring_to value 4 6 @ js ''-'' @ substring_to value 6 8)
           (netTypeToString qsTr nettype))
         else parseInt value)"

subsection \<open>The seed page\<close>

record seed_page =
  walletPassword :: jstring
  dialog_password :: jstring
  seedLanguage :: jstring
  dialog_open :: bool
  dialog_error :: "jstring option"
  callbacks_installed :: bool
  page_requests :: "jstring list"
  selected_item :: "jstring option"
  middlePanel_state :: jstring

text \<open>The two callbacks it installs, and the function; \<open>updateBalance\<close> is the host's.\<close>

definition seed_accepted :: "(jstring \<Rightarrow> jstring) \<Rightarrow> seed_page \<Rightarrow> seed_page" where
  "seed_accepted qsTr s =
     (if walletPassword s = dialog_password s
      then let s1 = (if seedLanguage s = [] then s\<lparr>seedLanguage := js ''English''\<rparr> else s)
           in s1\<lparr>page_requests := page_requests s1 @ [js ''Keys'']\<rparr>
      else s\<lparr>dialog_error := Some (qsTr (js ''Wrong password''))\<rparr>)"

definition seed_rejected :: "seed_page \<Rightarrow> seed_page" where
  "seed_rejected s = s\<lparr>selected_item := Some (middlePanel_state s)\<rparr>"

definition showSeedPage :: "(seed_page \<Rightarrow> seed_page) \<Rightarrow> seed_page \<Rightarrow> seed_page" where
  "showSeedPage updateBalance s = updateBalance (s\<lparr>callbacks_installed := True, dialog_open := True\<rparr>)"

subsection \<open>Object trees\<close>

datatype qml = QML (objectName: jstring) (own_properties: "jstring list") (qml_data: "qml list")

definition hasOwnProperty :: "qml \<Rightarrow> jstring \<Rightarrow> bool" where
  "hasOwnProperty item p \<longleftrightarrow> p \<in> set (own_properties item)"

text \<open>The loop over the properties: one push for each, up to the first that is missing.\<close>

fun push_matches :: "qml \<Rightarrow> jstring list \<Rightarrow> qml list \<Rightarrow> qml list" where
  "push_matches item [] arr = arr"
| "push_matches item (p # ps) arr =
     (if hasOwnProperty item p then push_matches item ps (arr @ [item]) else arr)"

fun qmlEach :: "qml \<Rightarrow> jstring list \<Rightarrow> jstring list \<Rightarrow> qml list \<Rightarrow> qml list" where
  "qmlEach (QML name props kids) properties ignoredObjectNames arr =
     (let arr1 = (if js ''data'' \<in> set props
                  then foldl (\<lambda>a k. qmlEach k properties ignoredObjectNames a) arr kids else arr)
      in if name \<in> set ignoredObjectNames then arr1
         else push_matches (QML name props kids) properties arr1)"

subsection \<open>Text\<close>

text \<open>The upper case of a unit may be several; outside ASCII it is a parameter.\<close>

definition toUpperCase_unit :: "(u16 \<Rightarrow> jstring) \<Rightarrow> u16 \<Rightarrow> jstring" where
  "toUpperCase_unit upper c =
     (if 97 \<le> c \<and> c \<le> 122 then [c - 32] else if c \<le> 127 then [c] else upper c)"

definition capitalize :: "(u16 \<Rightarrow> jstring) \<Rightarrow> jstring option \<Rightarrow> jstring" where
  "capitalize upper v =
     (case v of None \<Rightarrow> []
      | Some s \<Rightarrow> concat (map (toUpperCase_unit upper) (take 1 s)) @ drop 1 s)"

definition htmlEscape :: "jstring option \<Rightarrow> jstring" where
  "htmlEscape v =
     (case v of None \<Rightarrow> []
      | Some s \<Rightarrow>
          replace_all 0x22 (js ''&quot;'') (replace_all 0x3E (js ''&gt;'')
            (replace_all 0x3C (js ''&lt;'') (replace_all 0x26 (js ''&amp;'') s))))"

subsection \<open>Specification\<close>

text \<open>One pass over the text, and the text that the entities of the result stand for.\<close>

definition escape_unit :: "u16 \<Rightarrow> jstring" where
  "escape_unit c =
     (if c = 0x26 then js ''&amp;'' else if c = 0x3C then js ''&lt;''
      else if c = 0x3E then js ''&gt;'' else if c = 0x22 then js ''&quot;'' else [c])"

fun htmlUnescape :: "jstring \<Rightarrow> jstring" where
  "htmlUnescape s =
     (if s = [] then []
      else if startsWith s (js ''&amp;'') then 0x26 # htmlUnescape (drop 5 s)
      else if startsWith s (js ''&lt;'') then 0x3C # htmlUnescape (drop 4 s)
      else if startsWith s (js ''&gt;'') then 0x3E # htmlUnescape (drop 4 s)
      else if startsWith s (js ''&quot;'') then 0x22 # htmlUnescape (drop 6 s)
      else hd s # htmlUnescape (tl s))"

declare htmlUnescape.simps [simp del]

text \<open>The digits after the last point lose their trailing zeros, and the point goes with the last digit.\<close>

definition trim_fraction :: "jstring \<Rightarrow> jstring" where
  "trim_fraction s =
     (let d = takeWhile is_digit (rev s); r = dropWhile is_digit (rev s)
      in if r \<noteq> [] \<and> hd r = 0x2E
         then let d' = dropWhile (\<lambda>c. c = 0x30) d in rev (tl r) @ (if d' = [] then [] else 0x2E # rev d')
         else s)"

text \<open>The tree in the order it is visited: children first.\<close>

fun postorder :: "qml \<Rightarrow> qml list" where
  "postorder (QML name props kids) =
     (if js ''data'' \<in> set props then concat (map postorder kids) else []) @ [QML name props kids]"

definition matches_of :: "jstring list \<Rightarrow> jstring list \<Rightarrow> qml \<Rightarrow> qml list" where
  "matches_of properties ignoredObjectNames x =
     (if objectName x \<in> set ignoredObjectNames then []
      else replicate (length (takeWhile (hasOwnProperty x) properties)) x)"

text \<open>A date typed as eight digits, with the hyphens it lacks.\<close>

definition hyphenated :: "jstring \<Rightarrow> jstring" where
  "hyphenated v = take 4 v @ js ''-'' @ take 2 (drop 4 v) @ js ''-'' @ take 2 (drop 6 v)"

section \<open>Escaping\<close>

lemma htmlEscape_single_pass: "htmlEscape (Some s) = concat (map escape_unit s)"
proof (induction s)
  case (Cons c s)
  then show ?case by (auto simp: htmlEscape_def replace_all_def escape_unit_def js_def)
qed (simp add: htmlEscape_def replace_all_def)

lemma htmlUnescape_escape_unit: "htmlUnescape (escape_unit c @ t) = c # htmlUnescape t"
  by (subst htmlUnescape.simps) (auto simp: escape_unit_def js_def startsWith_def)

lemma escape_unit_plain: "set (escape_unit c) \<inter> {0x3C, 0x3E, 0x22} = {}"
  by (auto simp: escape_unit_def js_def)

lemma htmlUnescape_htmlEscape: "htmlUnescape (htmlEscape (Some s)) = s"
  unfolding htmlEscape_single_pass
  by (induction s) (simp_all add: htmlUnescape_escape_unit htmlUnescape.simps [of "[]"])

interpretation html: codec "\<lambda>_. True" "\<lambda>s. Some (htmlEscape (Some s))" "\<lambda>t. Some (htmlUnescape t)"
  by unfold_locales (auto simp: htmlUnescape_htmlEscape)

section \<open>The seed page\<close>

text \<open>The page with the keys is requested only after the right password, and a wrong one is reported.\<close>

lemma seed_accepted_password:
  "page_requests (seed_accepted qsTr s) =
     page_requests s @ (if walletPassword s = dialog_password s then [js ''Keys''] else [])"
  "walletPassword s = dialog_password s \<Longrightarrow> seedLanguage (seed_accepted qsTr s) \<noteq> []"
  "walletPassword s \<noteq> dialog_password s \<Longrightarrow>
     seed_accepted qsTr s = s\<lparr>dialog_error := Some (qsTr (js ''Wrong password''))\<rparr>"
  by (auto simp: seed_accepted_def Let_def js_def)

section \<open>Object trees\<close>

lemma push_matches_eq:
  "push_matches item ps arr = arr @ replicate (length (takeWhile (hasOwnProperty item) ps)) item"
  by (induction ps arbitrary: arr) (simp_all add: replicate_append_same flip: replicate_app_Cons_same)

lemma foldl_visits:
  "(\<And>k a. k \<in> set ks \<Longrightarrow> f a k = a @ g k) \<Longrightarrow> foldl f arr ks = arr @ concat (map g ks)"
  by (induction ks arbitrary: arr) auto

lemma concat_map_concat: "concat (map f (concat (map g xs))) = concat (map (\<lambda>x. concat (map f (g x))) xs)"
  by (induction xs) simp_all

section \<open>Trailing zeros\<close>

lemma rx_match_repeat_eol:
  "rx_match (RSeq (RPlus (RUnit c)) REol) (s, g) = (if s \<noteq> [] \<and> list_all (\<lambda>x. x = c) s then [([], g)] else [])"
proof (cases s)
  case (Cons x xs)
  let ?n = "length (takeWhile (\<lambda>x. x = c) xs)"
  have short: "concat (map (\<lambda>k. rx_match REol (drop k xs, g)) (rev [0..<m])) = []" if "m \<le> length xs" for m
    using that by auto
  have "x = c \<Longrightarrow> rx_match (RSeq (RPlus (RUnit c)) REol) (s, g) =
      concat (map (\<lambda>k. rx_match REol (drop k xs, g)) (rev [0..<Suc ?n]))"
    by (simp add: Cons RUnit_def rx_match_plus_chr comp_def del: upt_Suc rx_match.simps(6))
  also have "\<dots> = (if drop ?n xs = [] then [([], g)] else [])"
    using short [of ?n] length_takeWhile_le [of _ xs] by simp
  also have "drop ?n xs = [] \<longleftrightarrow> list_all (\<lambda>x. x = c) xs"
    by (metis dropWhile_eq_Nil_conv dropWhile_eq_drop list_all_iff)
  finally show ?thesis using Cons by (auto simp: RUnit_def rx_match_plus_chr)
qed (simp add: RPlus_def RUnit_def)

lemma rx_zeros_match:
  "rx_match rx_zeros (0x2E # t, None) =
   concat (map (\<lambda>k. if drop k t \<noteq> [] \<and> list_all (\<lambda>x. x = 0x30) (drop k t) then [([], Some (0x2E # take k t))] else [])
     [0..<Suc (length (takeWhile is_digit t))])"
  "(\<And>t. s \<noteq> 0x2E # t) \<Longrightarrow> rx_match rx_zeros (s, None) = []"
proof -
  have group: "rx_match (RGroup (RSeq (RUnit 0x2E) (RStar False (RChr is_digit)))) (0x2E # t, None) =
      map (\<lambda>k. (drop k t, Some (0x2E # take k t))) [0..<Suc (length (takeWhile is_digit t))]"
    using length_takeWhile_le [of is_digit t]
    by (auto simp: RUnit_def rx_match_star_chr Suc_diff_le take_Cons' simp del: upt_Suc intro!: map_cong)
  show "rx_match rx_zeros (0x2E # t, None) =
   concat (map (\<lambda>k. if drop k t \<noteq> [] \<and> list_all (\<lambda>x. x = 0x30) (drop k t) then [([], Some (0x2E # take k t))] else [])
     [0..<Suc (length (takeWhile is_digit t))])"
    by (simp only: rx_zeros_def rx_match.simps(2) [of "RGroup _"] group map_map comp_def rx_match_repeat_eol)
  show "(\<And>t. s \<noteq> 0x2E # t) \<Longrightarrow> rx_match rx_zeros (s, None) = []"
    by (cases s) (auto simp: rx_zeros_def RUnit_def)
qed


lemma rx_zeros_hit:
  assumes "list_all is_digit d" and "d = [] \<or> last d \<noteq> 0x30" and "z \<noteq> []" and "list_all (\<lambda>x. x = 0x30) z"
  shows "\<exists>rest. rx_match rx_zeros (0x2E # d @ z, None) = ([], Some (0x2E # d)) # rest"
proof -
  let ?f = "\<lambda>k. if drop k (d @ z) \<noteq> [] \<and> list_all (\<lambda>x. x = 0x30) (drop k (d @ z))
    then [([] :: jstring, Some (0x2E # take k (d @ z)))] else []"
  have "list_all is_digit z" using assms(4) by (auto simp: list_all_iff is_digit_def)
  then have tw: "takeWhile is_digit (d @ z) = d @ z" using assms(1) by (simp add: list_all_iff)
  have early: "?f k = []" if "k < length d" for k
  proof -
    have "last d \<in> set (drop k (d @ z))" using that by (simp add: last_drop flip: last_in_set) (metis last_drop last_in_set drop_eq_Nil not_le)
    moreover have "last d \<noteq> 0x30" using assms(2) that by auto
    ultimately show ?thesis by (auto simp: list_all_iff)
  qed
  have "[0..<Suc (length (d @ z))] = [0..<length d] @ length d # [Suc (length d)..<Suc (length (d @ z))]"
    using upt_add_eq_append [of 0 "length d" "Suc (length z)"] upt_conv_Cons [of "length d" "Suc (length (d @ z))"]
    by (simp del: upt_Suc)
  then have "rx_match rx_zeros (0x2E # d @ z, None) = concat (map ?f [0..<length d]) @ ?f (length d) @
      concat (map ?f [Suc (length d)..<Suc (length (d @ z))])"
    by (simp only: rx_zeros_match(1) tw map_append concat_append list.map concat.simps)
  moreover have "concat (map ?f [0..<length d]) = []" using early by (simp del: drop_append)
  moreover have "?f (length d) = [([], Some (0x2E # d))]" using assms(3,4) by simp
  ultimately show ?thesis by (simp only: append_Nil append_Cons) blast
qed

lemma rx_zeros_miss:
  assumes "rx_match rx_zeros (s, None) \<noteq> []"
  shows "\<exists>d. s = 0x2E # d \<and> list_all is_digit d \<and> d \<noteq> [] \<and> last d = 0x30"
proof -
  obtain t where t: "s = 0x2E # t" using assms rx_zeros_match(2) [of s] by blast
  then obtain k where k: "k \<le> length (takeWhile is_digit t)" "drop k t \<noteq> []" "list_all (\<lambda>x. x = 0x30) (drop k t)"
    using assms unfolding t rx_zeros_match(1) by (auto simp: less_Suc_eq_le split: if_splits simp del: upt_Suc)
  have "\<forall>x \<in> set (take k t). is_digit x"
  proof
    fix x assume "x \<in> set (take k t)"
    then have "x \<in> set (take (length (takeWhile is_digit t)) t)"
      using set_take_subset_set_take [OF k(1), of t] by blast
    then have "x \<in> set (takeWhile is_digit t)" by (simp only: takeWhile_eq_take [symmetric])
    then show "is_digit x" by (rule conjunct2 [OF set_takeWhileD])
  qed
  moreover have "\<forall>x \<in> set (drop k t). is_digit x" using k(3) by (auto simp: list_all_iff is_digit_def)
  ultimately have "list_all is_digit t" 
    unfolding list_all_iff by (subst append_take_drop_id [of k t, symmetric]) (simp only: set_append ball_Un)
  moreover have "last t = 0x30" using last_in_set [OF k(2)] k(2,3) by (simp add: list_all_iff last_drop)
  ultimately show ?thesis using t k(2) by auto
qed


lemma rx_point_match: "rx_match rx_point (s, None) = (if s = [0x2E] then [([], None)] else [])"
  by (auto simp: rx_point_def RUnit_def split: list.splits)

lemma rx_zeros_skip:
  assumes "list_all is_digit d"
  shows "rx_find rx_zeros pre (p @ 0x2E # d) = rx_find rx_zeros (pre @ p) (0x2E # d)"
proof (rule rx_find_skip)
  fix v w assume "p = v @ w" "w \<noteq> []"
  show "rx_match rx_zeros (w @ 0x2E # d, None) = []"
  proof (rule ccontr)
    assume "rx_match rx_zeros (w @ 0x2E # d, None) \<noteq> []"
    then obtain d' where "w @ 0x2E # d = 0x2E # d'" "list_all is_digit d'" using rx_zeros_miss by blast
    then have "0x2E \<in> set d'" "list_all is_digit d'" using \<open>w \<noteq> []\<close> by (auto simp: Cons_eq_append_conv append_eq_Cons_conv)
    then show False by (auto simp: list_all_iff is_digit_def)
  qed
qed

lemma rx_replace_point: "rx_replace rx_point (\<lambda>_. []) s = (if s \<noteq> [] \<and> last s = 0x2E then butlast s else s)"
proof -
  have "endsWith s [0x2E] \<longleftrightarrow> s \<noteq> [] \<and> last s = 0x2E"
    by (cases s rule: rev_cases) (auto simp: endsWith_def)
  then show ?thesis using rx_replace_end [OF rx_point_match, of s] by (auto simp: butlast_conv_take)
qed

lemma strip_zeros_split:
  "\<exists>z. d = rev (dropWhile (\<lambda>c. c = 0x30) (rev d)) @ z \<and> list_all (\<lambda>c. c = (0x30 :: u16)) z"
  by (rule exI [of _ "rev (takeWhile (\<lambda>c. c = 0x30) (rev d))"])
    (metis (no_types, lifting) list_all_iff rev_append rev_rev_ident set_rev set_takeWhileD takeWhile_dropWhile_id)

lemma rx_find_zeros_none:
  assumes d: "list_all is_digit d" and "d = [] \<or> last d \<noteq> 0x30"
  shows "rx_find rx_zeros pre (0x2E # d) = None"
proof -
  have "rx_find rx_zeros pre ((0x2E # d) @ []) = rx_find rx_zeros (pre @ 0x2E # d) []"
  proof (rule rx_find_skip)
    fix v w assume w: "0x2E # d = v @ w" "w \<noteq> []"
    show "rx_match rx_zeros (w @ [], None) = []"
    proof (rule ccontr)
      assume "rx_match rx_zeros (w @ [], None) \<noteq> []"
      then obtain e where e: "w = 0x2E # e" "e \<noteq> []" "last e = 0x30" using rx_zeros_miss [of w] by auto
      have "v = []"
      proof (rule ccontr)
        assume "v \<noteq> []"
        then have "0x2E \<in> set d" using w(1) e(1) by (auto simp: Cons_eq_append_conv)
        then show False using d by (auto simp: list_all_iff is_digit_def)
      qed
      then show False using w(1) e assms(2) by auto
    qed
  qed
  moreover have "rx_match rx_zeros ([], None) = []" by (rule rx_zeros_match(2)) simp
  ultimately show ?thesis by (simp add: rx_find_Nil)
qed

lemma removeTrailingZeros_fraction:
  assumes d: "list_all is_digit d"
  defines "d' \<equiv> rev (dropWhile (\<lambda>c. c = 0x30) (rev d))"
  shows "removeTrailingZeros (p @ 0x2E # d) = p @ (if d' = [] then [] else 0x2E # d')"
proof -
  obtain z where z: "d = d' @ z" "list_all (\<lambda>c. c = 0x30) z" using strip_zeros_split [of d] d'_def by blast
  have "list_all is_digit (d' @ z)" using d z(1) by (simp only:)
  then have d'1: "list_all is_digit d'" by simp
  have d'2: "d' = [] \<or> last d' \<noteq> 0x30"
    using hd_dropWhile [of "\<lambda>c. c = 0x30" "rev d"] unfolding d'_def by (auto simp: last_rev)
  have "rx_replace rx_zeros (\<lambda>c. case c of None \<Rightarrow> [] | Some t \<Rightarrow> t) (p @ 0x2E # d) = p @ 0x2E # d'"
  proof (cases "z = []")
    case True
    then have "d = d'" using z(1) by simp
    then show ?thesis using rx_find_zeros_none [OF d] d'2 rx_zeros_skip [OF d, of "[]" p]
      by (simp add: rx_replace_def)
  next
    case False
    then obtain rest where "rx_match rx_zeros (0x2E # d, None) = ([], Some (0x2E # d')) # rest"
      using rx_zeros_hit [OF d'1 d'2 False z(2)] by (simp only: z(1) [symmetric]) blast
    then show ?thesis using rx_zeros_skip [OF d, of "[]" p] by (simp add: rx_replace_def rx_find_hit)
  qed
  moreover have "d' \<noteq> [] \<Longrightarrow> last d' \<noteq> 0x2E" using d'1 by (auto simp: list_all_iff is_digit_def dest!: last_in_set)
  ultimately show ?thesis by (auto simp: removeTrailingZeros_def rx_replace_point butlast_append)
qed

lemma removeTrailingZeros_other:
  assumes "\<And>p d. s = p @ 0x2E # d \<Longrightarrow> \<not> list_all is_digit d"
  shows "removeTrailingZeros s = s"
proof -
  have "rx_find rx_zeros [] (s @ []) = rx_find rx_zeros ([] @ s) []"
  proof (rule rx_find_skip)
    fix v w assume "s = v @ w"
    then show "rx_match rx_zeros (w @ [], None) = []" using assms [of v] rx_zeros_miss [of w] by auto
  qed
  moreover have "rx_match rx_zeros ([], None) = []" by (rule rx_zeros_match(2)) simp
  ultimately have "rx_replace rx_zeros (\<lambda>c. case c of None \<Rightarrow> [] | Some t \<Rightarrow> t) s = s"
    by (simp add: rx_replace_def rx_find_Nil)
  moreover have "s \<noteq> [] \<Longrightarrow> last s \<noteq> 0x2E" using assms [of "butlast s" "[]"] append_butlast_last_id [of s] by force
  ultimately show ?thesis by (auto simp: removeTrailingZeros_def rx_replace_point)
qed


section \<open>Heights and dates in text\<close>

lemma length_nat_to_string_le: "n < 10 ^ Suc k \<Longrightarrow> length (nat_to_string n) \<le> Suc k"
proof (induction k arbitrary: n)
  case 0
  then show ?case by (subst nat_to_string.simps) simp
next
  case (Suc k)
  then have "n div 10 < 10 ^ Suc k" by (simp add: less_mult_imp_div_less mult.commute)
  then show ?case using Suc.IH [of "n div 10"] by (subst nat_to_string.simps) simp
qed

lemma ten_le: "10 ^ Suc k \<le> n \<Longrightarrow> (10 :: nat) \<le> n"
  by (rule order_trans [OF self_le_power [of 10 "Suc k"]]) simp_all

lemma length_nat_to_string_ge: "10 ^ k \<le> n \<Longrightarrow> k < length (nat_to_string n)"
proof (induction k arbitrary: n)
  case 0
  then show ?case using nat_to_string_nonempty [of n] by simp
next
  case (Suc k)
  then have "10 ^ k \<le> n div 10" by (simp add: less_eq_div_iff_mult_less_eq mult.commute)
  moreover have "\<not> n < 10" using ten_le [OF Suc.prems] by simp
  ultimately show ?case using Suc.IH [of "n div 10"] by (subst nat_to_string.simps) simp
qed

lemma nat_to_string_snoc: "10 \<le> n \<Longrightarrow> \<exists>c. nat_to_string n = nat_to_string (n div 10) @ [c]"
  by (subst nat_to_string.simps) simp

lemma nat_to_string_drop:
  "10 ^ k \<le> n \<Longrightarrow> \<exists>u. nat_to_string n = nat_to_string (n div 10 ^ k) @ u \<and> length u = k"
proof (induction k arbitrary: n)
  case (Suc k)
  then have "10 ^ k \<le> n div 10" by (simp add: less_eq_div_iff_mult_less_eq mult.commute)
  then obtain u where u: "nat_to_string (n div 10) = nat_to_string (n div 10 div 10 ^ k) @ u" "length u = k"
    using Suc.IH by blast
  have "10 \<le> n" by (rule ten_le [OF Suc.prems])
  then obtain c where "nat_to_string n = nat_to_string (n div 10) @ [c]" using nat_to_string_snoc by blast
  then show ?case using u by (intro exI [of _ "u @ [c]"]) (simp add: div_mult2_eq)
qed simp

lemma nat_to_string_year:
  assumes "length (nat_to_string n) = 8"
  shows "take 4 (nat_to_string n) = nat_to_string (n div 10000)"
proof -
  have "10000 \<le> n" using length_nat_to_string_le [of n 3] assms by (cases "n < 10000") simp_all
  then obtain u where "nat_to_string n = nat_to_string (n div 10000) @ u" "length u = 4"
    using nat_to_string_drop [of 4 n] by auto
  then show ?thesis using assms by simp
qed

lemma indexOf_absent: "c \<notin> set s \<Longrightarrow> indexOf_from i c s = - 1"
  by (induction s arbitrary: i) auto

lemma indexOf_append: "c \<notin> set s \<Longrightarrow> indexOf_from i c (s @ c # t) = i + int (length s)"
  by (induction s arbitrary: i) auto

lemma substring_take: "substring_to s 0 4 = take 4 s" "substring_to s 4 6 = take 2 (drop 4 s)"
    "substring_to s 6 8 = take 2 (drop 6 s)" if "length s = 8"
  using that by (simp_all add: substring_to_def)

lemma no_hyphen: "45 \<notin> set (nat_to_string n)"
  using nat_to_string_digits [of n] by (auto simp: is_digit_def)


lemma length_nat_to_string_8: "length (nat_to_string n) = 8 \<longleftrightarrow> 10000000 \<le> n \<and> n < 100000000"
proof -
  have "length (nat_to_string n) \<le> 7" if "n < 10000000" using length_nat_to_string_le [of n 6] that by simp
  moreover have "7 < length (nat_to_string n)" if "10000000 \<le> n" using length_nat_to_string_ge [of 7 n] that by simp
  moreover have "length (nat_to_string n) \<le> 8" if "n < 100000000" using length_nat_to_string_le [of n 7] that by simp
  moreover have "8 < length (nat_to_string n)" if "100000000 \<le> n" using length_nat_to_string_ge [of 8 n] that by simp
  ultimately show ?thesis by linarith
qed

lemma year_of_height:
  assumes "length (nat_to_string n) = 8"
  shows "parseInt (substring_to (nat_to_string n) 0 4) = Num (int (n div 10000))"
proof -
  have "n div 10000 < 2 ^ 53" using assms length_nat_to_string_8 [of n] by (simp add: less_mult_imp_div_less)
  then show ?thesis
    using substring_take(1) [OF assms] nat_to_string_year [OF assms] parseInt_nat_to_string by simp
qed

lemma parse_hyphenated:
  assumes "length (nat_to_string n) = 8"
  shows "parseDateStringOrRestoreHeightAsInteger Date_ms qsTr nettype (hyphenated (nat_to_string n)) =
    Num (getApproximateBlockchainHeight Date_ms (hyphenated (nat_to_string n)) (netTypeToString qsTr nettype))"
proof -
  have "45 \<notin> set (take 4 (nat_to_string n))" using no_hyphen in_set_takeD by metis
  then have "indexOf (hyphenated (nat_to_string n)) 45 = 4"
    using assms indexOf_append [of 45 "take 4 (nat_to_string n)" 0] by (simp add: indexOf_def hyphenated_def js_def)
  moreover have "length (hyphenated (nat_to_string n)) = 10" using assms by (simp add: hyphenated_def js_def)
  ultimately show ?thesis by (simp add: parseDateStringOrRestoreHeightAsInteger_def)
qed

section \<open>Properties\<close>

text \<open>
  C37: Escaped text holds no markup and no quotation mark, and reading its entities back gives the
  original text: the four replacements, made one after the other, do not disturb each other.
\<close>

theorem htmlEscape_roundtrip:
  "htmlUnescape (htmlEscape (Some s)) = s \<and> set (htmlEscape (Some s)) \<inter> {0x3C, 0x3E, 0x22} = {}"
proof
  show "htmlUnescape (htmlEscape (Some s)) = s" using html.roundtrip [of s] by simp
  show "set (htmlEscape (Some s)) \<inter> {0x3C, 0x3E, 0x22} = {}"
    unfolding htmlEscape_single_pass using escape_unit_plain by fastforce
qed

text \<open>
  C39: The two regular expressions of \<open>removeTrailingZeros\<close> do what the name says: when only
  digits follow the last point, the zeros at the end go, and the point with them if no digit is
  left; every other text is unchanged.
\<close>

theorem removeTrailingZeros_correct: "removeTrailingZeros s = trim_fraction s"
proof (cases "\<exists>p d. s = p @ 0x2E # d \<and> list_all is_digit d")
  case True
  then obtain p d where s: "s = p @ 0x2E # d" and d: "list_all is_digit d" by blast
  have "\<not> is_digit 0x2E" by (simp add: is_digit_def)
  moreover have "\<forall>x \<in> set (rev d). is_digit x" using d by (simp add: list_all_iff)
  ultimately have "takeWhile is_digit (rev s) = rev d" "dropWhile is_digit (rev s) = 0x2E # rev p"
    unfolding s by (simp_all add: takeWhile_append dropWhile_append)
  then show ?thesis using removeTrailingZeros_fraction [OF d, of p] s by (simp add: trim_fraction_def Let_def)
next
  case False
  have out: "\<not> (dropWhile is_digit (rev s) \<noteq> [] \<and> hd (dropWhile is_digit (rev s)) = 0x2E)"
  proof
    assume a: "dropWhile is_digit (rev s) \<noteq> [] \<and> hd (dropWhile is_digit (rev s)) = 0x2E"
    define r t where "r = tl (dropWhile is_digit (rev s))" and "t = takeWhile is_digit (rev s)"
    have "rev s = t @ 0x2E # r" using a r_def t_def by (metis list.collapse takeWhile_dropWhile_id)
    then have "s = rev r @ 0x2E # rev t" by (simp add: rev_swap)
    moreover have "list_all is_digit (rev t)" unfolding t_def list_all_iff by (auto dest: set_takeWhileD)
    ultimately show False using False by blast
  qed
  have "removeTrailingZeros s = s" using False by (intro removeTrailingZeros_other) blast
  then show ?thesis unfolding trim_fraction_def Let_def if_not_P [OF out] .
qed

text \<open>
  A restore height typed as a number is read back exactly, with one exception: numbers from
  20140000 to 20259999 are taken for a date without hyphens, and give what the date with hyphens
  gives.
\<close>

lemma restore_height_text:
  assumes "n < 2 ^ 53"
  shows "parseDateStringOrRestoreHeightAsInteger Date_ms qsTr nettype (nat_to_string n) =
    (if 20140000 \<le> n \<and> n < 20260000
     then parseDateStringOrRestoreHeightAsInteger Date_ms qsTr nettype (hyphenated (nat_to_string n))
     else Num (int n))"
proof -
  have h: "indexOf (nat_to_string n) 45 = - 1" using no_hyphen by (simp add: indexOf_def indexOf_absent)
  have p: "parseInt (nat_to_string n) = Num (int n)" using assms by (rule parseInt_nat_to_string)
  show ?thesis
  proof (cases "length (nat_to_string n) = 8")
    case True
    have y: "2014 \<le> int (n div 10000) \<and> int (n div 10000) \<le> 2025 \<longleftrightarrow> 20140000 \<le> n \<and> n < 20260000" by linarith
    show ?thesis
      unfolding parse_hyphenated [OF True]
      using h p True year_of_height [OF True] substring_take [OF True] y
      by (simp add: parseDateStringOrRestoreHeightAsInteger_def Let_def hyphenated_def)
  next
    case False
    then have out: "\<not> (20140000 \<le> n \<and> n < 20260000)" using length_nat_to_string_8 [of n] by linarith
    show ?thesis unfolding if_not_P [OF out] using h p False by (simp add: parseDateStringOrRestoreHeightAsInteger_def)
  qed
qed



text \<open>
  \<open>qmlEach\<close> appends to the list, for every object of the tree, children before parents and
  only below objects with a \<open>data\<close> property, one copy for each property of the longest prefix of
  \<open>properties\<close> that the object has, and none for an object whose name is ignored.
\<close>

lemma qmlEach_traversal:
  "qmlEach item properties ignored arr = arr @ concat (map (matches_of properties ignored) (postorder item))"
proof (induction item properties ignored arr rule: qmlEach.induct)
  case (1 name props kids properties ignored arr)
  have "foldl (\<lambda>a k. qmlEach k properties ignored a) arr kids =
      arr @ concat (map (\<lambda>k. concat (map (matches_of properties ignored) (postorder k))) kids)"
    if "js ''data'' \<in> set props"
    by (rule foldl_visits) (use 1 that in blast)
  moreover have "push_matches (QML name props kids) properties a =
      a @ replicate (length (takeWhile (hasOwnProperty (QML name props kids)) properties)) (QML name props kids)" for a
    by (rule push_matches_eq)
  moreover have "matches_of properties ignored (QML name props kids) = (if name \<in> set ignored then []
      else replicate (length (takeWhile (hasOwnProperty (QML name props kids)) properties)) (QML name props kids))"
    by (simp add: matches_of_def)
  ultimately show ?case by (simp add: concat_map_concat)
qed

end
