(* ===== verification/Gui_TxUtils.thy ===== *)
theory Gui_TxUtils
  imports Js_Strings
begin

text \<open>
  Transactions and addresses in the interface: \<open>hashmonkey-gui/js/TxUtils.js\<close>. The wallet manager
  and translations are parameters; a missing argument is \<open>None\<close>, and a call on a missing value throws.
\<close>

section \<open>Definitions\<close>

text \<open>\<open>split\<close> never returns an empty list, so the first part exists.\<close>

definition destinationsToAmount :: "jstring \<Rightarrow> jstring" where
  "destinationsToAmount destinations = hd (js_split 0x3A (hd (js_split 0x20 destinations)))"

definition destinationsToAddress :: "jstring \<Rightarrow> jstring" where
  "destinationsToAddress destinations =
     (case js_split 0x20 destinations of _ # address # _ \<Rightarrow> address | _ \<Rightarrow> [])"

definition addressTruncate :: "jstring option \<Rightarrow> int option \<Rightarrow> jstring" where
  "addressTruncate address rng =
     (case address of None \<Rightarrow> []
      | Some a \<Rightarrow>
          let rng = (case rng of None \<Rightarrow> 8 | Some r \<Rightarrow> r)
          in substring_to a 0 rng @ js ''...'' @ substring_from a (int (length a) - rng))"

text \<open>The expression \<open>/.{1,4}/g\<close>; no match at all is \<open>null\<close>, on which \<open>join\<close> throws.\<close>

definition rx_four :: rx where
  "rx_four = RSeq RDot (ROpt (RSeq RDot (ROpt (RSeq RDot (ROpt RDot)))))"

definition match_four :: "jstring \<Rightarrow> jstring list option" where
  "match_four s = (let ms = rx_match_all rx_four s in if ms = [] then None else Some ms)"

definition addressTruncatePretty :: "jstring option \<Rightarrow> int option \<Rightarrow> jstring option" where
  "addressTruncatePretty address blocks =
     (case address of None \<Rightarrow> Some []
      | Some a \<Rightarrow>
          let blocks = (case blocks of None \<Rightarrow> 2 | Some b \<Rightarrow> b);
              blocks = (if blocks \<le> 1 then 1 else if blocks \<ge> 23 then 23 else blocks)
          in Option.bind (match_four (substring_to a 0 (4 * blocks))) (\<lambda>l.
             Option.bind (match_four (substring_from a (int (length a) - 4 * blocks))) (\<lambda>r.
               Some (js_join (js '' '') l @ js '' .. '' @ js_join (js '' '') r))))"

fun check256_loop :: "jstring \<Rightarrow> bool" where
  "check256_loop [] = True"
| "check256_loop (c # cs) =
     (if c \<ge> 48 \<and> c \<le> 57 then check256_loop cs
      else if c \<ge> 97 \<and> c \<le> 122 then check256_loop cs
      else if c \<ge> 65 \<and> c \<le> 90 then check256_loop cs
      else False)"

definition check256 :: "jstring \<Rightarrow> nat \<Rightarrow> bool" where
  "check256 str n = (if length str \<noteq> n then False else check256_loop str)"

definition checkAddress :: "(jstring \<Rightarrow> 'net \<Rightarrow> bool) \<Rightarrow> jstring \<Rightarrow> 'net \<Rightarrow> bool" where
  "checkAddress addressValid address testnet = addressValid address testnet"

definition checkTxID :: "jstring \<Rightarrow> bool" where
  "checkTxID txid = check256 txid 64"

text \<open>The length after a header is a multiple of a size; \<open>%\<close> keeps the sign of a negative length.\<close>

definition proof_length_ok :: "jstring \<Rightarrow> nat \<Rightarrow> nat \<Rightarrow> bool" where
  "proof_length_ok s header unit_size \<longleftrightarrow> header \<le> length s \<and> (length s - header) mod unit_size = 0 \<or>
     length s < header \<and> (header - length s) mod unit_size = 0"

definition checkSignature :: "jstring \<Rightarrow> bool" where
  "checkSignature signature =
     (if startsWith signature (js ''OutProofV'')
      then if \<not> proof_length_ok signature 10 132 then False else check256 signature (length signature)
      else if startsWith signature (js ''InProofV'')
      then if \<not> proof_length_ok signature 9 132 then False else check256 signature (length signature)
      else if startsWith signature (js ''SpendProofV'')
      then if \<not> proof_length_ok signature 12 88 then False else check256 signature (length signature)
      else if startsWith signature (js ''ReserveProofV'')
      then if \<not> proof_length_ok signature 14 447 then False else check256 signature (length signature)
      else False)"

text \<open>The expression \<open>/^[A-Za-z0-9-@]+(\.[A-Za-z0-9-]+)+$/\<close>.\<close>

definition is_name_unit :: "u16 \<Rightarrow> bool" where
  "is_name_unit c \<longleftrightarrow> is_alnum c \<or> c = 0x2D"

definition rx_openalias :: rx where
  "rx_openalias =
     RSeq (RPlus (RChr (\<lambda>c. is_name_unit c \<or> c = 0x40)))
       (RSeq (RPlus (RGroup (RSeq (RUnit 0x2E) (RPlus (RChr is_name_unit))))) REol)"

definition isValidOpenAliasAddress :: "(int \<Rightarrow> jstring) \<Rightarrow> jstring \<Rightarrow> bool" where
  "isValidOpenAliasAddress large address =
     (if \<not> rx_test_start rx_openalias address then False
      else let lastPart = substring_from address (lastIndexOf address 0x2E + 1)
           in parseInt lastPart = NaN \<or> lastPart \<noteq> num_to_string large (parseInt lastPart))"

record alias_result =
  ar_address :: "jstring option"
  ar_description :: "jstring option"
  ar_message :: "jstring option"

text \<open>An empty answer is falsy; a part that is missing after the split is undefined.\<close>

definition handleOpenAliasResolution ::
  "(jstring \<Rightarrow> jstring option) \<Rightarrow> (jstring option \<Rightarrow> 'net \<Rightarrow> bool) \<Rightarrow> (jstring \<Rightarrow> jstring) \<Rightarrow> 'net \<Rightarrow>
   jstring \<Rightarrow> jstring \<Rightarrow> alias_result" where
  "handleOpenAliasResolution resolveOpenAlias addressValid qsTr nettype address descriptionText =
     (let message = (\<lambda>m. \<lparr>ar_address = None, ar_description = None, ar_message = Some (qsTr m)\<rparr>)
      in case resolveOpenAlias address of None \<Rightarrow> message (js ''No address found'')
         | Some answer \<Rightarrow>
           if answer = [] then message (js ''No address found'')
           else let parts = js_split 0x7C answer;
                    isDnssecValid = hd parts;
                    resolvedAddress = (case parts of _ # a # _ \<Rightarrow> Some a | _ \<Rightarrow> None);
                    isAddressValid = addressValid resolvedAddress nettype
                in if isDnssecValid = js ''true''
                   then if isAddressValid
                        then \<lparr>ar_address = resolvedAddress,
                              ar_description = Some (if descriptionText \<noteq> []
                                then address @ js '' '' @ descriptionText else address),
                              ar_message = None\<rparr>
                        else message (js ''No valid address found at this OpenAlias address'')
                   else if isDnssecValid = js ''false''
                   then if isAddressValid
                        then \<lparr>ar_address = resolvedAddress, ar_description = None,
                              ar_message = Some (qsTr (js ''Address found, but the DNSSEC signatures could not be verified, so this address may be spoofed''))\<rparr>
                        else message (js ''No valid address found at this OpenAlias address, but the DNSSEC signatures could not be verified, so this may be spoofed'')
                   else message (js ''Internal error''))"

subsection \<open>Specification\<close>

definition alias_syntax :: "jstring \<Rightarrow> bool" where
  "alias_syntax s =
     (let parts = js_split 0x2E s
      in 2 \<le> length parts \<and> hd parts \<noteq> [] \<and> list_all (\<lambda>c. is_name_unit c \<or> c = 0x40) (hd parts) \<and>
         list_all (\<lambda>p. p \<noteq> [] \<and> list_all is_name_unit p) (tl parts))"

fun chunks4 :: "jstring \<Rightarrow> jstring list" where
  "chunks4 [] = []"
| "chunks4 (x # xs) = take 4 (x # xs) # chunks4 (drop 3 xs)"

section \<open>OpenAlias addresses\<close>

lemma lang_openalias_parts:
  "lang (RPlus (RGroup (RSeq (RUnit c) (RPlus (RChr p))))) =
   {concat (map ((#) c) qs) | qs. qs \<noteq> [] \<and> list_all (\<lambda>q. q \<noteq> [] \<and> list_all p q) qs}"
  (is "?L = ?R")
proof -
  let ?G = "{c # q | q. q \<noteq> [] \<and> list_all p q}"
  have G: "lang (RGroup (RSeq (RUnit c) (RPlus (RChr p)))) = ?G"
    unfolding lang.simps lang_plus_chr by (auto simp: RUnit_def)
  have "u \<in> star ?G \<longleftrightarrow> (\<exists>qs. u = concat (map ((#) c) qs) \<and> list_all (\<lambda>q. q \<noteq> [] \<and> list_all p q) qs)" for u
  proof
    assume "u \<in> star ?G"
    then show "\<exists>qs. u = concat (map ((#) c) qs) \<and> list_all (\<lambda>q. q \<noteq> [] \<and> list_all p q) qs"
    proof (induction rule: star.induct)
      case Nil
      show ?case by (intro exI [of _ "[]"]) simp
    next
      case (append u v)
      then obtain q qs where "u = c # q" "q \<noteq> []" "list_all p q" "v = concat (map ((#) c) qs)"
        "list_all (\<lambda>q. q \<noteq> [] \<and> list_all p q) qs" by auto
      then show ?case by (intro exI [of _ "q # qs"]) simp
    qed
  next
    assume "\<exists>qs. u = concat (map ((#) c) qs) \<and> list_all (\<lambda>q. q \<noteq> [] \<and> list_all p q) qs"
    then obtain qs where "u = concat (map ((#) c) qs)" "list_all (\<lambda>q. q \<noteq> [] \<and> list_all p q) qs" by blast
    then show "u \<in> star ?G"
    proof (induction qs arbitrary: u)
      case (Cons q qs)
      then show ?case using star.append [of "c # q" ?G "concat (map ((#) c) qs)"] by auto
    qed auto
  qed
  then have "?L = {u @ v | u v. u \<in> ?G \<and> (\<exists>qs. v = concat (map ((#) c) qs) \<and> list_all (\<lambda>q. q \<noteq> [] \<and> list_all p q) qs)}"
    unfolding RPlus_def [of "RGroup _"] lang.simps(2,3) G by blast
  also have "\<dots> = ?R"
  proof (intro set_eqI iffI)
    fix u
    assume "u \<in> ?R"
    then obtain q qs where "u = (c # q) @ concat (map ((#) c) qs)" "q \<noteq> []" "list_all p q"
      "list_all (\<lambda>q. q \<noteq> [] \<and> list_all p q) qs"
      by (auto simp: neq_Nil_conv)
    then show "u \<in> {u @ v | u v. u \<in> ?G \<and> (\<exists>qs. v = concat (map ((#) c) qs) \<and> list_all (\<lambda>q. q \<noteq> [] \<and> list_all p q) qs)}"
      by blast
  next
    fix u
    assume "u \<in> {u @ v | u v. u \<in> ?G \<and> (\<exists>qs. v = concat (map ((#) c) qs) \<and> list_all (\<lambda>q. q \<noteq> [] \<and> list_all p q) qs)}"
    then obtain q qs where "u = concat (map ((#) c) (q # qs))" "list_all (\<lambda>q. q \<noteq> [] \<and> list_all p q) (q # qs)"
      by auto
    then show "u \<in> ?R" by blast
  qed
  finally show ?thesis .
qed

lemma name_unit_no_dot: "\<not> is_name_unit 0x2E"
  by (simp add: is_name_unit_def is_alnum_def)

lemma rx_match_assoc: "rx_match (RSeq a (RSeq b c)) st = rx_match (RSeq (RSeq a b) c) st"
proof -
  have "concat (map (\<lambda>x. concat (map f (g x))) xs) = concat (map f (concat (map g xs)))" for f g :: "rx_state \<Rightarrow> rx_state list" and xs
    by (induction xs) simp_all
  then show ?thesis unfolding rx_match.simps(2) .
qed

lemma rx_openalias_syntax: "rx_test_start rx_openalias s \<longleftrightarrow> alias_syntax s"
proof -
  let ?A = "\<lambda>c. is_name_unit c \<or> c = 0x40"
  let ?r1 = "RPlus (RChr ?A)" and ?r2 = "RPlus (RGroup (RSeq (RUnit 0x2E) (RPlus (RChr is_name_unit))))"
  have "rx_match (RSeq ?r1 (RSeq ?r2 REol)) (s, None) = rx_match (RSeq (RSeq ?r1 ?r2) REol) (s, None)"
    by (rule rx_match_assoc)
  moreover have "no_eol (RSeq ?r1 ?r2)" by (simp add: RPlus_def RUnit_def)
  ultimately have "rx_test_start rx_openalias s \<longleftrightarrow> s \<in> lang (RSeq ?r1 ?r2)"
    unfolding rx_test_start_def rx_openalias_def by (simp only: rx_match_eol)
  also have "\<dots> \<longleftrightarrow> (\<exists>a qs. s = a @ concat (map ((#) 0x2E) qs) \<and> a \<noteq> [] \<and> list_all ?A a \<and> qs \<noteq> [] \<and>
      list_all (\<lambda>q. q \<noteq> [] \<and> list_all is_name_unit q) qs)"
    unfolding lang.simps lang_plus_chr lang_openalias_parts by blast
  also have "\<dots> \<longleftrightarrow> alias_syntax s"
  proof
    assume "\<exists>a qs. s = a @ concat (map ((#) 0x2E) qs) \<and> a \<noteq> [] \<and> list_all ?A a \<and> qs \<noteq> [] \<and>
      list_all (\<lambda>q. q \<noteq> [] \<and> list_all is_name_unit q) qs"
    then obtain a qs where s: "s = a @ concat (map ((#) 0x2E) qs)" "a \<noteq> []" "list_all ?A a" "qs \<noteq> []"
      "list_all (\<lambda>q. q \<noteq> [] \<and> list_all is_name_unit q) qs" by blast
    have "0x2E \<notin> set a" "\<forall>q \<in> set qs. 0x2E \<notin> set q"
      using s(3,5) name_unit_no_dot by (auto simp: list_all_iff)
    then have "js_split 0x2E s = a # qs" unfolding s(1) by (rule js_split_concat)
    then show "alias_syntax s" using s by (cases qs) (simp_all add: alias_syntax_def Let_def)
  next
    assume "alias_syntax s"
    moreover have "tl (js_split 0x2E s) \<noteq> []" if "2 \<le> length (js_split 0x2E s)"
      using that by (cases "js_split 0x2E s") auto
    ultimately show "\<exists>a qs. s = a @ concat (map ((#) 0x2E) qs) \<and> a \<noteq> [] \<and> list_all ?A a \<and> qs \<noteq> [] \<and>
      list_all (\<lambda>q. q \<noteq> [] \<and> list_all is_name_unit q) qs"
      using js_split_parts [of "0x2E" s] unfolding alias_syntax_def Let_def by blast
  qed
  finally show ?thesis .
qed

lemma indexOf_from_eq:
  "indexOf_from i c s = (if c \<in> set s then i + int (length (takeWhile (\<lambda>x. x \<noteq> c) s)) else - 1)"
  by (induction s arbitrary: i) auto

lemma last_js_split: "last (js_split c s) = rev (takeWhile (\<lambda>x. x \<noteq> c) (rev s))"
proof (cases "tl (js_split c s) = []")
  case True
  then have "js_split c s = [s]" "c \<notin> set s"
    using js_split_parts [of c s] js_split_nonempty [of c s] by (cases "js_split c s"; auto)+
  moreover have "takeWhile (\<lambda>x. x \<noteq> c) (rev s) = rev s"
    using calculation(2) by (auto simp: takeWhile_eq_all_conv)
  ultimately show ?thesis by (metis last_ConsL rev_rev_ident)
next
  case False
  let ?ps = "js_split c s"
  have q: "c \<notin> set (last ?ps)" using js_split_parts [of c s] js_split_nonempty [of c s] by simp
  have t: "tl ?ps = butlast (tl ?ps) @ [last ?ps]"
    using append_butlast_last_id [OF False] last_tl [of ?ps] False by simp
  let ?pre = "hd ?ps @ concat (map ((#) c) (butlast (tl ?ps)))"
  have "concat (map ((#) c) (tl ?ps)) = concat (map ((#) c) (butlast (tl ?ps))) @ c # last ?ps"
    by (subst t) simp
  then have "s = ?pre @ c # last ?ps" using js_split_parts [of c s] by simp
  then have "rev s = rev (?pre @ c # last ?ps)" by (rule arg_cong)
  then have "rev s = rev (last ?ps) @ c # rev ?pre" by simp
  then have "takeWhile (\<lambda>x. x \<noteq> c) (rev s) = rev (last ?ps)" using q by (simp add: takeWhile_append)
  then show ?thesis by simp
qed

lemma last_part: "substring_from s (lastIndexOf s c + 1) = last (js_split c s)"
proof (cases "c \<in> set s")
  case True
  let ?n = "length (takeWhile (\<lambda>x. x \<noteq> c) (rev s))"
  obtain pre post where sp: "rev s = pre @ c # post" "c \<notin> set pre"
    using True split_list_first [of c "rev s"] by auto
  then have "takeWhile (\<lambda>x. x \<noteq> c) (rev s) = pre" by (simp add: takeWhile_append)
  moreover have "length s = length pre + Suc (length post)" using arg_cong [OF sp(1), of length] by simp
  ultimately have le: "?n < length s" by simp
  have "lastIndexOf s c + 1 = int (length s - ?n)"
    using True le by (simp add: lastIndexOf_def indexOf_def indexOf_from_eq Let_def of_nat_diff)
  then have "nat (lastIndexOf s c + 1) = length s - ?n" by (simp only: nat_int)
  moreover have "rev (takeWhile (\<lambda>x. x \<noteq> c) (rev s)) = drop (length s - ?n) s"
    by (subst takeWhile_eq_take) (simp add: rev_take)
  ultimately show ?thesis
    unfolding substring_from_def substring_to_def Let_def last_js_split by simp
next
  case False
  then show ?thesis
    by (simp add: lastIndexOf_def indexOf_def indexOf_from_eq substring_from_def substring_to_def
        js_split_none)
qed

text \<open>Short texts stand for numbers that doubles represent.\<close>

lemma digits_value_less:
  "\<forall>c \<in> set ds. digit_value radix c \<noteq> None \<Longrightarrow> digits_value radix a ds < (a + 1) * radix ^ length ds"
proof (induction ds arbitrary: a)
  case (Cons c cs)
  then obtain d where d: "digit_value radix c = Some d" by auto
  then have "d < radix" by (auto simp: digit_value_def Let_def split: if_splits)
  have "digits_value radix a (c # cs) < (a * radix + d + 1) * radix ^ length cs"
    using Cons d by simp
  also have "\<dots> \<le> ((a + 1) * radix) * radix ^ length cs"
    using \<open>d < radix\<close> by (intro mult_right_mono) (simp_all add: algebra_simps)
  finally show ?case by (simp only: length_Cons power_Suc mult.assoc)
qed simp

lemma parseInt_shape:
  obtains t r where "length t \<le> length s" and "r = 10 \<or> r = 16"
    and "parseInt s \<in> {NaN, round_double (digits_value r 0 (takeWhile (\<lambda>c. digit_value r c \<noteq> None) t)),
      negate (round_double (digits_value r 0 (takeWhile (\<lambda>c. digit_value r c \<noteq> None) t)))}"
proof -
  let ?s0 = "dropWhile is_space s"
  let ?s1 = "if ?s0 \<noteq> [] \<and> (hd ?s0 = 45 \<or> hd ?s0 = 43) then tl ?s0 else ?s0"
  let ?hex = "take 2 ?s1 = js ''0x'' \<or> take 2 ?s1 = js ''0X''"
  have d: "length (if b then drop 2 u else u) \<le> length u" for b and u :: jstring by simp
  have "length (if ?hex then drop 2 ?s1 else ?s1) \<le> length ?s1" by (rule d)
  also have "\<dots> \<le> length ?s0" by simp
  also have "\<dots> \<le> length s" by (rule length_dropWhile_le)
  finally have "length (if ?hex then drop 2 ?s1 else ?s1) \<le> length s" .
  moreover have "(if ?hex then 16 else 10) = (10 :: nat) \<or> (if ?hex then 16 else 10) = (16 :: nat)" by simp
  ultimately show thesis by (rule that) (simp only: parseInt_def Let_def, simp split: if_split)
qed

lemma parseInt_short:
  assumes "length s \<le> 13"
  shows "parseInt s = NaN \<or> (\<exists>i. parseInt s = Num i \<and> \<bar>i\<bar> < 2 ^ 53)"
proof -
  obtain t r where t: "length t \<le> length s" "r = 10 \<or> r = 16"
    and p: "parseInt s \<in> {NaN, round_double (digits_value r 0 (takeWhile (\<lambda>c. digit_value r c \<noteq> None) t)),
      negate (round_double (digits_value r 0 (takeWhile (\<lambda>c. digit_value r c \<noteq> None) t)))}"
    by (rule parseInt_shape)
  let ?ds = "takeWhile (\<lambda>c. digit_value r c \<noteq> None) t"
  define n where "n = digits_value r 0 ?ds"
  have "length ?ds \<le> length t" by (rule length_takeWhile_le)
  then have len: "length ?ds \<le> 13" using t(1) assms by linarith
  have "\<forall>c \<in> set ?ds. digit_value r c \<noteq> None" by (blast dest: set_takeWhileD)
  from digits_value_less [OF this, of 0] have "n < r ^ length ?ds" unfolding n_def by simp
  also have "\<dots> \<le> r ^ 13" using t(2) len by (intro power_increasing) auto
  also have "\<dots> \<le> 16 ^ 13" using t(2) by (intro power_mono) auto
  finally have n: "n < 2 ^ 53" by simp
  have "parseInt s = NaN \<or> parseInt s = Num (int n) \<or> parseInt s = Num (- int n)"
    using p round_double_exact [OF n] unfolding n_def [symmetric] by (auto simp: negate_def)
  moreover have "\<bar>int n\<bar> < 2 ^ 53" "\<bar>- int n\<bar> < 2 ^ 53" using n by simp_all
  ultimately show ?thesis by blast
qed

lemma parseInt_num_to_string:
  assumes "\<bar>i\<bar> < 2 ^ 53"
  shows "parseInt (num_to_string large (Num i)) = Num i"
proof (cases "i < 0")
  case False
  then show ?thesis
    using assms parseInt_nat_to_string [of "nat i"] by (simp add: num_to_string_def)
next
  case True
  let ?t = "nat_to_string (nat \<bar>i\<bar>)"
  have s: "num_to_string large (Num i) = 45 # ?t"
    using True assms by (simp add: num_to_string_def js_def)
  have "\<not> is_space 45" by (simp add: is_space_def)
  moreover have "take 2 ?t \<noteq> js ''0x''" "take 2 ?t \<noteq> js ''0X''"
    using digits_no_prefix nat_to_string_digits by blast+
  moreover have "takeWhile (\<lambda>c. \<exists>y. digit_value 10 c = Some y) ?t = ?t"
    using nat_to_string_digits by (auto simp: takeWhile_eq_all_conv)
  moreover have "nat \<bar>i\<bar> < 2 ^ 53" using assms by simp
  ultimately show ?thesis
    unfolding s using True nat_to_string_nonempty
    by (simp add: parseInt_def Let_def digits_value_nat_to_string round_double_exact negate_def
        del: takeWhile_eq_all_conv)
qed

section \<open>Groups of four\<close>

lemma rx_four_head:
  assumes "list_all (\<lambda>c. \<not> is_line_end c) s" and "s \<noteq> []"
  shows "\<exists>more. rx_match rx_four (s, None) = (drop 4 s, None) # more"
proof -
  obtain a t where s: "s = a # t" using assms(2) by (cases s) auto
  show ?thesis
  proof (cases t)
    case Nil
    then show ?thesis using assms s by (simp add: rx_four_def RDot_def)
  next
    case (Cons b u)
    note t = Cons
    show ?thesis
    proof (cases u)
      case Nil
      then show ?thesis using assms s t by (simp add: rx_four_def RDot_def)
    next
      case (Cons c v)
      then show ?thesis using assms s t by (cases v) (simp_all add: rx_four_def RDot_def)
    qed
  qed
qed

lemma rx_match_all_four: "list_all (\<lambda>c. \<not> is_line_end c) s \<Longrightarrow> rx_match_all rx_four s = chunks4 s"
proof (induction s rule: chunks4.induct)
  case 1
  then show ?case
    by (subst rx_match_all.simps, subst rx_find.simps) (simp add: rx_four_def RDot_def)
next
  case (2 x xs)
  obtain more where "rx_match rx_four (x # xs, None) = (drop 4 (x # xs), None) # more"
    using rx_four_head [OF "2.prems"] by auto
  then have f: "rx_find rx_four [] (x # xs) = Some ([], None, drop 3 xs)"
    by (subst rx_find.simps) simp
  have "list_all (\<lambda>c. \<not> is_line_end c) (drop 3 xs)"
    using "2.prems" by (auto simp: list_all_iff dest: in_set_dropD)
  moreover have "take (length (x # xs) - length (drop 3 xs)) (x # xs) = take 4 (x # xs)"
    by (cases "length xs \<le> 3") simp_all
  ultimately show ?case
    using "2.IH" by (subst rx_match_all.simps) (simp add: f)
qed

lemma concat_chunks4: "concat (chunks4 s) = s"
proof (induction s rule: chunks4.induct)
  case (2 x xs)
  have "take 4 (x # xs) = x # take 3 xs" by (simp add: take_Cons')
  then show ?case using 2 by simp
qed simp

lemma chunks4_eq_Nil: "chunks4 s = [] \<longleftrightarrow> s = []"
  by (cases s) simp_all

lemma match_four_eq:
  "list_all (\<lambda>c. \<not> is_line_end c) s \<Longrightarrow> match_four s = (if s = [] then None else Some (chunks4 s))"
  by (simp add: match_four_def rx_match_all_four Let_def chunks4_eq_Nil)

lemma substring_prefix: "substring_to a 0 (int n) = take n a"
  by (simp add: substring_to_def Let_def min_def)

lemma substring_suffix: "substring_from a (int (length a) - int n) = drop (length a - n) a"
proof -
  have "nat (int (length a) - int n) = length a - n" by simp
  then show ?thesis by (simp add: substring_from_def substring_to_def Let_def)
qed

section \<open>Properties\<close>



text \<open>
  C36: an OpenAlias answer becomes an address without a warning only if its DNSSEC flag is true and
  the wallet manager accepts exactly the address that is returned.
\<close>

theorem openalias_resolution_safe:
  assumes "handleOpenAliasResolution resolveOpenAlias addressValid qsTr nettype name description = r"
    and "ar_address r = Some a" and "ar_message r = None"
  shows "addressValid (Some a) nettype \<and>
    (\<exists>answer more. resolveOpenAlias name = Some answer \<and> js_split 0x7C answer = js ''true'' # a # more)"
proof -
  obtain answer where an: "resolveOpenAlias name = Some answer" "answer \<noteq> []"
    using assms by (auto simp: handleOpenAliasResolution_def Let_def split: option.splits if_splits)
  obtain p ps where ps: "js_split 0x7C answer = p # ps" using js_split_nonempty by (cases "js_split 0x7C answer") auto
  from assms an ps have "p = js ''true''" "addressValid (case ps of [] \<Rightarrow> None | x # xs \<Rightarrow> Some x) nettype"
    "(case ps of [] \<Rightarrow> None | x # xs \<Rightarrow> Some x) = Some a"
    by (auto simp: handleOpenAliasResolution_def Let_def split: if_splits)
  then show ?thesis using an ps by (cases ps) auto
qed

theorem openalias_resolution_safe_witness:
  "handleOpenAliasResolution (\<lambda>_. Some (js ''true|xyz'')) (\<lambda>a _. a = Some (js ''xyz'')) id () (js ''n'') [] =
     \<lparr>ar_address = Some (js ''xyz''), ar_description = Some (js ''n''), ar_message = None\<rparr> \<and>
   js_split 0x7C (js ''true|xyz'') = [js ''true'', js ''xyz'']"
proof -
  let ?r = "handleOpenAliasResolution (\<lambda>_. Some (js ''true|xyz'')) (\<lambda>a _. a = Some (js ''xyz'')) id () (js ''n'') []"
  have r: "?r = \<lparr>ar_address = Some (js ''xyz''), ar_description = Some (js ''n''), ar_message = None\<rparr>"
    by (simp add: handleOpenAliasResolution_def js_def)
  from openalias_resolution_safe [OF refl, of "\<lambda>_. Some (js ''true|xyz'')" "\<lambda>a _. a = Some (js ''xyz'')" id "()" "js ''n''" "[]" "js ''xyz''"] r
  have "\<exists>more. js_split 0x7C (js ''true|xyz'') = js ''true'' # js ''xyz'' # more" by simp
  moreover have "length (js_split 0x7C (js ''true|xyz'')) = 2" by (simp add: js_def)
  ultimately show ?thesis using r by auto
qed

text \<open>
  The short form of an address. For text without line ends, it shows the first and the last
  groups of four, at least one and at most 23 of each; for the empty text the call throws.
\<close>

lemma addressTruncatePretty_correct:
  fixes blocks :: "int option"
  assumes "list_all (\<lambda>c. \<not> is_line_end c) a"
  defines "n \<equiv> 4 * nat (max 1 (min 23 (case blocks of None \<Rightarrow> 2 | Some b \<Rightarrow> b)))"
  shows "addressTruncatePretty (Some a) blocks =
    (if a = [] then None
     else Some (js_join (js '' '') (chunks4 (take n a)) @ js '' .. '' @
       js_join (js '' '') (chunks4 (drop (length a - n) a)))) \<and>
    concat (chunks4 (take n a)) = take n a"
proof -
  let ?b = "case blocks of None \<Rightarrow> 2 | Some b \<Rightarrow> b"
  have b: "4 * (if ?b \<le> 1 then 1 else if ?b \<ge> 23 then 23 else ?b) = int n"
    unfolding n_def by simp
  have n: "0 < n" unfolding n_def by simp
  have l: "list_all (\<lambda>c. \<not> is_line_end c) (take n a)" "list_all (\<lambda>c. \<not> is_line_end c) (drop (length a - n) a)"
    using assms(1) by (auto simp: list_all_iff dest: in_set_takeD in_set_dropD)
  have e: "take n a = [] \<longleftrightarrow> a = []" "drop (length a - n) a = [] \<longleftrightarrow> a = []" using n by (cases a; simp)+
  show ?thesis
    unfolding addressTruncatePretty_def option.case Let_def b substring_prefix substring_suffix
      match_four_eq [OF l(1)] match_four_eq [OF l(2)] e
    by (simp add: concat_chunks4)
qed

text \<open>
  A destination line made of an amount, a colon, a space and an address gives both back.
\<close>

lemma destinations_roundtrip:
  assumes "0x20 \<notin> set amount" and "0x3A \<notin> set amount" and "0x20 \<notin> set address"
  shows "destinationsToAmount (amount @ js '': '' @ address) = amount \<and>
    destinationsToAddress (amount @ js '': '' @ address) = address"
proof -
  have "js '': '' = [0x3A, 0x20]" by (simp add: js_def)
  then have "js_split 0x20 (amount @ js '': '' @ address) = [amount @ [0x3A], address]"
    using js_split_append_sep [of "0x20" "amount @ [0x3A]" address] assms(1,3)
    by (simp add: js_split_none)
  moreover have "js_split 0x3A (amount @ [0x3A]) = [amount, []]"
    using js_split_append_sep [of "0x3A" amount "[]"] assms(2) by simp
  ultimately show ?thesis by (simp add: destinationsToAmount_def destinationsToAddress_def)
qed

end
