(* ===== verification/Gui_Windows.thy ===== *)
theory Gui_Windows
  imports Hmny_Prelude
begin

text \<open>
  Window decorations: \<open>hashmonkey-gui/js/Windows.js\<close>. The flag constants are Qt's and a
  parameter. The record holds the window, the settings and the title bar that the function changes.
\<close>

section \<open>Definitions\<close>

record Qt =
  FramelessWindowHint :: u32
  CustomizeWindowHint :: u32
  WindowSystemMenuHint :: u32
  Window :: u32
  WindowMinimizeButtonHint :: u32
  WindowCloseButtonHint :: u32
  WindowTitleHint :: u32
  WindowMaximizeButtonHint :: u32
  WindowFullscreenButtonHint :: u32

definition flagsCustomDecorationsBase :: "Qt \<Rightarrow> u32" where
  "flagsCustomDecorationsBase qt =
     FramelessWindowHint qt OR CustomizeWindowHint qt OR WindowSystemMenuHint qt OR Window qt"

definition flagsCustomDecorations :: "Qt \<Rightarrow> bool \<Rightarrow> u32" where
  "flagsCustomDecorations qt isWindows =
     (if isWindows then flagsCustomDecorationsBase qt OR WindowMinimizeButtonHint qt
      else flagsCustomDecorationsBase qt)"

definition window_flags :: "Qt \<Rightarrow> u32" where
  "window_flags qt =
     WindowSystemMenuHint qt OR Window qt OR WindowMinimizeButtonHint qt OR WindowCloseButtonHint qt OR
     WindowTitleHint qt OR WindowMaximizeButtonHint qt OR WindowFullscreenButtonHint qt"

record app_window =
  win_x :: int
  win_y :: int
  win_flags :: u32
  win_visible :: bool
  customDecorations :: bool
  titleBar_visible :: bool

text \<open>The window is hidden and shown again for the flags to take effect.\<close>

definition setCustomWindowDecorations :: "Qt \<Rightarrow> bool \<Rightarrow> bool \<Rightarrow> app_window \<Rightarrow> app_window" where
  "setCustomWindowDecorations qt isWindows custom w =
     (let x = (if win_x w < 0 then 0 else win_x w);
          y = (if win_y w < 0 then 0 else win_y w);
          w1 = w\<lparr>customDecorations := custom\<rparr>;
          w2 = w1\<lparr>titleBar_visible := custom\<rparr>;
          w3 = (if custom then w2\<lparr>win_flags := flagsCustomDecorations qt isWindows\<rparr>
                else w2\<lparr>win_flags := window_flags qt\<rparr>);
          w4 = w3\<lparr>win_visible := False\<rparr>;
          w5 = w4\<lparr>win_x := x\<rparr>;
          w6 = w5\<lparr>win_y := y\<rparr>
      in w6\<lparr>win_visible := True\<rparr>)"

section \<open>The window after the change\<close>

text \<open>
  The window is visible, its position is not negative and otherwise kept, and flags, title bar and
  saved setting agree.
\<close>

lemma setCustomWindowDecorations_window:
  "setCustomWindowDecorations qt isWindows custom w =
     w\<lparr>win_x := max 0 (win_x w), win_y := max 0 (win_y w), win_visible := True, customDecorations := custom,
       titleBar_visible := custom,
       win_flags := (if custom then flagsCustomDecorations qt isWindows else window_flags qt)\<rparr>"
  by (simp add: setCustomWindowDecorations_def Let_def max_def)

lemma setCustomWindowDecorations_last:
  "setCustomWindowDecorations qt isWindows custom (setCustomWindowDecorations qt isWindows custom' w) =
   setCustomWindowDecorations qt isWindows custom w"
  by (simp add: setCustomWindowDecorations_window)

text \<open>Both kinds of window are windows with a system menu.\<close>

lemma window_flags_common:
  "flagsCustomDecorations qt isWindows AND (WindowSystemMenuHint qt OR Window qt) = WindowSystemMenuHint qt OR Window qt"
  "window_flags qt AND (WindowSystemMenuHint qt OR Window qt) = WindowSystemMenuHint qt OR Window qt"
  by (auto simp: flagsCustomDecorations_def flagsCustomDecorationsBase_def window_flags_def bit_eq_iff bit_simps)

end
