(* ===== verification/Spec2Isabelle.thy ===== *)
theory Spec2Isabelle
  imports Emission Difficulty Base58 Hardfork_Correct Pruning Money Checkpoints RandomX_Seed
    Address Tree_Hash Mnemonics
    Gui_Utils Gui_TxUtils Gui_Windows
begin

text \<open>Placeholder.\<close>

end
